(* ===== verification/Prelude.thy ===== *)
theory Prelude
  imports Main "HOL-Library.Word" "HOL-Library.Code_Target_Nat"
begin

text \<open>
  What the components share: the reasons for which the code panics, fallible computations
  (a panic or a value), their sequencing, folds of fallible steps over a list, and Rust's
  arithmetic on \<open>u64\<close>, \<open>NonZeroU64\<close>, \<open>Duration\<close> and \<open>Instant\<close>.

  A panic unwinds the simulation thread, so the model keeps the reason of a panic and not the
  state in which it was raised: \<open>Inl p\<close> is "this call panicked with \<open>p\<close>".
\<close>

section \<open>Panics\<close>

type_synonym u64 = "64 word"

text \<open>Ids and node ids are newtypes over non-zero integers (\<open>src/id.rs\<close>, \<open>src/node_id.rs\<close>).\<close>

datatype id = Id (id_val: u64)

datatype node_id = NodeId (node_val: nat)

lemma id_val_inject [simp]: "id_val i = id_val j \<longleftrightarrow> i = j"
  by (cases i; cases j) simp

lemma node_val_inject [simp]: "node_val i = node_val j \<longleftrightarrow> i = j"
  by (cases i; cases j) simp

text \<open>The events the runtime reports to its event handler (\<open>enum Event\<close> of \<open>src/event.rs\<close>).\<close>

datatype event =
    TaskRun id
  | TimeAdvanced nat
  | NodeSpawned node_id
  | TaskSpawned

text \<open>
  One constructor per kind of panic. \<open>DanglingArc\<close> stands for following a pointer to an object
  that was never allocated, which no safe Rust program does, and \<open>OutOfFuel\<close> for a bounded
  loop of the model that ran out of its bound; both are proved impossible where they matter.
\<close>

datatype panic =
    UnwrapNone
  | BorrowMutError
  | AssertFailed
  | Unreachable
  | Overflow
  | IndexOutOfBounds
  | NodeIsStopped node_id
  | StartWhileShuttingDown
  | NoFurtherEvents event
  | ValidationFailed nat event event
  | MissingEvents nat nat
  | EventSequencesDiffer
  | SimulatorMissing
  | SimulatorBorrowed
  | Unimplemented
  | UserPanic nat
  | DanglingArc
  | OutOfFuel

section \<open>Sequencing of fallible steps\<close>

definition andThen :: "'e + 'a \<Rightarrow> ('a \<Rightarrow> 'e + 'b) \<Rightarrow> 'e + 'b" where
  "andThen r f = (case r of Inl e \<Rightarrow> Inl e | Inr a \<Rightarrow> f a)"

lemma andThen_Inl [simp]: "andThen (Inl e) f = Inl e"
  by (simp add: andThen_def)

lemma andThen_Inr [simp]: "andThen (Inr a) f = f a"
  by (simp add: andThen_def)

lemma andThen_eq_Inr [simp]:
  "andThen r f = Inr b \<longleftrightarrow> (\<exists>a. r = Inr a \<and> f a = Inr b)"
  by (cases r) auto

lemma andThen_eq_Inl:
  "andThen r f = Inl e \<longleftrightarrow> r = Inl e \<or> (\<exists>a. r = Inr a \<and> f a = Inl e)"
  by (cases r) auto

lemma andThen_cong [fundef_cong]:
  "r = r' \<Longrightarrow> (\<And>a. r' = Inr a \<Longrightarrow> f a = f' a) \<Longrightarrow> andThen r f = andThen r' f'"
  by (cases r') auto

lemma not_Inl_conv: "(\<forall>e. r \<noteq> Inl e) \<longleftrightarrow> (\<exists>a. r = Inr a)"
  by (cases r) auto

text \<open>A fold of a fallible step over a list: a \<open>for\<close> loop whose body may panic.\<close>

primrec foldE :: "('a \<Rightarrow> 's \<Rightarrow> 'e + 's) \<Rightarrow> 'a list \<Rightarrow> 's \<Rightarrow> 'e + 's" where
  "foldE f [] s = Inr s"
| "foldE f (x # xs) s = andThen (f x s) (foldE f xs)"

lemma foldE_append [simp]:
  "foldE f (xs @ ys) s = andThen (foldE f xs s) (foldE f ys)"
proof (induction xs arbitrary: s)
  case (Cons x xs)
  then show ?case by (cases "f x s") auto
qed simp

lemma foldE_inv:
  assumes "foldE f xs s = Inr t" and "P s"
    and step: "\<And>x s t. x \<in> set xs \<Longrightarrow> P s \<Longrightarrow> f x s = Inr t \<Longrightarrow> P t"
  shows "P t"
  using assms
proof (induction xs arbitrary: s)
  case (Cons x xs)
  then obtain s' where s': "f x s = Inr s'" "foldE f xs s' = Inr t" by auto
  have "P s'" using Cons.prems(2,3) s'(1) by auto
  then show ?case using Cons.IH [OF s'(2)] Cons.prems(3) by auto
qed simp

lemma foldE_frame:
  assumes "foldE f xs s = Inr t"
    and "\<And>x s t. x \<in> set xs \<Longrightarrow> f x s = Inr t \<Longrightarrow> g t = g s"
  shows "g t = g s"
  by (rule foldE_inv [OF assms(1), where P = "\<lambda>u. g u = g s"]) (use assms(2) in auto)

text \<open>A map of a fallible function over a list.\<close>

primrec mapE :: "('a \<Rightarrow> 'e + 'b) \<Rightarrow> 'a list \<Rightarrow> 'e + 'b list" where
  "mapE f [] = Inr []"
| "mapE f (x # xs) = andThen (f x) (\<lambda>y. andThen (mapE f xs) (\<lambda>ys. Inr (y # ys)))"

lemma mapE_map: "(\<And>x. x \<in> set xs \<Longrightarrow> f x = Inr (g x)) \<Longrightarrow> mapE f xs = Inr (map g xs)"
  by (induction xs) auto

lemma map_plus_upt: "map ((+) a) [0..<n] = [a..<a + n]"
  by (induction n) auto

section \<open>Rust integers\<close>

text \<open>
  The operators \<open>+\<close> and \<open>-\<close> on \<open>u64\<close> panic on overflow in a build with overflow checks
  (\<open>chk\<close>, the default of the dev and test profiles) and wrap around in one without.
\<close>

definition u64_add :: "bool \<Rightarrow> u64 \<Rightarrow> u64 \<Rightarrow> panic + u64" where
  "u64_add chk a b = (if chk \<and> 2 ^ 64 \<le> unat a + unat b then Inl Overflow else Inr (a + b))"

definition u64_sub :: "bool \<Rightarrow> u64 \<Rightarrow> u64 \<Rightarrow> panic + u64" where
  "u64_sub chk a b = (if chk \<and> unat a < unat b then Inl Overflow else Inr (a - b))"

text \<open>\<open>NonZeroU64::new(x).unwrap()\<close> and \<open>NonZeroU64::checked_add(x).unwrap()\<close>.\<close>

definition nonzero :: "u64 \<Rightarrow> panic + u64" where
  "nonzero a = (if a = 0 then Inl UnwrapNone else Inr a)"

definition u64_checked_add :: "u64 \<Rightarrow> u64 \<Rightarrow> u64 option" where
  "u64_checked_add a b = (if 2 ^ 64 \<le> unat a + unat b then None else Some (a + b))"

definition unwrap :: "'a option \<Rightarrow> panic + 'a" where
  "unwrap x = (case x of None \<Rightarrow> Inl UnwrapNone | Some a \<Rightarrow> Inr a)"

lemma unwrap_simps [simp]:
  "unwrap None = Inl UnwrapNone"
  "unwrap (Some a) = Inr a"
  "unwrap x = Inr a \<longleftrightarrow> x = Some a"
  by (auto simp: unwrap_def split: option.splits)

lemma unat_add_u64: "unat a + unat b < 2 ^ 64 \<Longrightarrow> unat (a + b :: u64) = unat a + unat b"
  by (simp add: unat_word_ariths)

lemma unat_sub_u64: "unat b \<le> unat a \<Longrightarrow> unat (a - b :: u64) = unat a - unat b"
  by (simp add: unat_sub_if')

lemma u64_add_checked:
  "u64_add True a b = Inr c \<Longrightarrow> unat c = unat a + unat b"
  by (auto simp: u64_add_def unat_add_u64 split: if_splits)

lemma u64_sub_checked:
  "u64_sub True a b = Inr c \<Longrightarrow> unat c = unat a - unat b \<and> unat b \<le> unat a"
  by (auto simp: u64_sub_def unat_sub_u64 split: if_splits)

lemma nonzero_Inr [simp]: "nonzero a = Inr b \<longleftrightarrow> b = a \<and> a \<noteq> 0"
  by (auto simp: nonzero_def)

text \<open>
  \<open>Duration\<close> and \<open>Instant\<close> are counted in nanoseconds. A \<open>Duration\<close> holds \<open>u64\<close> seconds
  and an \<open>Instant\<close> \<open>i64\<close> seconds, each with less than \<open>10 ^ 9\<close> nanoseconds; their additions
  panic beyond that, and \<open>Instant::duration_since\<close> saturates at zero.
\<close>

type_synonym duration = nat
type_synonym instant = nat

definition duration_max :: nat where
  "duration_max = 2 ^ 64 * 10 ^ 9 - 1"

definition instant_max :: nat where
  "instant_max = 2 ^ 63 * 10 ^ 9 - 1"

text \<open>
  Code equations that evaluate fast: a word is read without dividing by \<open>2 ^ 64\<close> when it is in range, the
  ends of the ranges are literals, and an updated function is looked up only where it is applied.
\<close>

lemma take_bit_u64 [code]:
  "take_bit n (k :: int) = (if n = 64 \<and> 0 \<le> k \<and> k < 18446744073709551616 then k else k mod 2 ^ n)"
  by (auto simp: take_bit_int_eq_self take_bit_eq_mod)

lemma time_max_code [code]:
  "duration_max = 18446744073709551615999999999" "instant_max = 9223372036854775807999999999"
  by (simp_all add: duration_max_def instant_max_def)

declare fun_upd_apply [code]

definition duration_add :: "duration \<Rightarrow> duration \<Rightarrow> panic + duration" where
  "duration_add a b = (if a + b \<le> duration_max then Inr (a + b) else Inl Overflow)"

definition instant_add :: "instant \<Rightarrow> duration \<Rightarrow> panic + instant" where
  "instant_add a b = (if a + b \<le> instant_max then Inr (a + b) else Inl Overflow)"

definition duration_since :: "instant \<Rightarrow> instant \<Rightarrow> duration" where
  "duration_since a b = a - b"

text \<open>For evaluation, the sums and differences are those of integers, which have a normal form.\<close>

definition u64_of :: "int \<Rightarrow> u64" where
  "u64_of k = word_of_int k"

lemma u64_of_code [code abstract]:
  "uint (u64_of k) = (if 0 \<le> k \<and> k < 18446744073709551616 then k else k mod 18446744073709551616)"
  by (auto simp: u64_of_def uint_word_of_int)

lemma u64_add_code [code]:
  "u64_add chk a b =
     (let c = uint a + uint b
      in if chk \<and> 18446744073709551616 \<le> c then Inl Overflow else Inr (u64_of c))"
proof -
  have "2 ^ 64 \<le> unat a + unat b \<longleftrightarrow> int (2 ^ 64) \<le> int (unat a + unat b)"
    by (rule of_nat_le_iff [symmetric])
  also have "int (unat a + unat b) = uint a + uint b" by (simp only: of_nat_add int_nat_eq uint_nat)
  finally have "2 ^ 64 \<le> unat a + unat b \<longleftrightarrow> 18446744073709551616 \<le> uint a + uint b" by simp
  moreover have "a + b = word_of_int (uint a + uint b)" by (rule word_add_def)
  ultimately show ?thesis unfolding u64_add_def u64_of_def Let_def by presburger
qed

lemma duration_add_code [code]:
  "duration_add a b =
     (let c = integer_of_nat a + integer_of_nat b
      in if c \<le> integer_of_nat duration_max then Inr (nat_of_integer c) else Inl Overflow)"
  by (simp add: duration_add_def Let_def integer_of_nat_eq_of_nat flip: of_nat_add)

lemma instant_add_code [code]:
  "instant_add a b =
     (let c = integer_of_nat a + integer_of_nat b
      in if c \<le> integer_of_nat instant_max then Inr (nat_of_integer c) else Inl Overflow)"
  by (simp add: instant_add_def Let_def integer_of_nat_eq_of_nat flip: of_nat_add)

lemma duration_since_code [code]:
  "duration_since a b = nat_of_integer (integer_of_nat a - integer_of_nat b)"
  by (simp add: duration_since_def nat_of_integer.rep_eq integer_of_nat.rep_eq)

lemma instant_max_le_duration_max: "instant_max \<le> duration_max"
  by (simp add: instant_max_def duration_max_def)

end
