(* ===== verification/Ids.thy ===== *)
theory Ids
  imports Prelude
begin

text \<open>
  \<open>src/id.rs\<close> and the conversions of \<open>src/node_id.rs\<close>: the simulation-wide id counter and the
  ids and id ranges drawn from it. The record is the part of \<open>SimCx\<close> that \<open>SimCxu\<close>
  (\<open>src/lib.rs\<close>) holds, with \<open>once_set\<close> telling whether the thread's \<open>once_cell\<close> was filled,
  that is, whether the thread runs a simulation. The seeded generator of \<open>SimCxu\<close> is not part
  of it: nothing here reads it.
\<close>

record sim_cxu =
  once_set :: bool
  current_node :: node_id
  pre_next_global_id :: u64
  sim_time :: duration

section \<open>Derived orders\<close>

text \<open>\<open>#[derive(Ord, PartialOrd)]\<close> on \<open>Id\<close> and \<open>NodeId\<close>: the order of the number inside.\<close>

instantiation id :: linorder
begin

definition less_eq_id :: "id \<Rightarrow> id \<Rightarrow> bool" where
  "less_eq_id a b \<longleftrightarrow> id_val a \<le> id_val b"

definition less_id :: "id \<Rightarrow> id \<Rightarrow> bool" where
  "less_id a b \<longleftrightarrow> id_val a < id_val b"

instance
  by standard (auto simp: less_eq_id_def less_id_def less_le)

end

instantiation node_id :: linorder
begin

definition less_eq_node_id :: "node_id \<Rightarrow> node_id \<Rightarrow> bool" where
  "less_eq_node_id a b \<longleftrightarrow> node_val a \<le> node_val b"

definition less_node_id :: "node_id \<Rightarrow> node_id \<Rightarrow> bool" where
  "less_node_id a b \<longleftrightarrow> node_val a < node_val b"

instance
  by standard (auto simp: less_eq_node_id_def less_node_id_def less_le)

end

section \<open>Node ids and node indices\<close>

text \<open>
  \<open>NodeId::from_index\<close> adds one, so that a node id is non-zero, and \<open>to_index\<close> subtracts it
  again. The addition overflows at \<open>usize::MAX\<close>.
\<close>

definition from_index :: "nat \<Rightarrow> panic + node_id" where
  "from_index index = (if index + 1 < 2 ^ 64 then Inr (NodeId (index + 1)) else Inl Overflow)"

definition to_index :: "node_id \<Rightarrow> nat" where
  "to_index n = node_val n - 1"

definition INIT :: node_id where
  "INIT = NodeId 1"

lemma from_index_zero: "from_index 0 = Inr INIT"
  by (simp add: from_index_def INIT_def)

lemma to_index_from_index: "from_index i = Inr n \<Longrightarrow> to_index n = i \<and> node_val n = Suc i"
  by (auto simp: from_index_def to_index_def split: if_splits)

section \<open>Ids\<close>

text \<open>
  \<open>Id::new\<close>. The counter holds the last id handed out. \<open>chk\<close> tells whether the build has
  overflow checks; without them the sum wraps to zero, which \<open>NonZeroU64\<close> refuses.
\<close>

definition new_id :: "bool \<Rightarrow> 'z sim_cxu_scheme \<Rightarrow> panic + id \<times> 'z sim_cxu_scheme" where
  "new_id chk cx =
     (if \<not> once_set cx then Inl UnwrapNone
      else andThen (u64_add chk (pre_next_global_id cx) 1) (\<lambda>i.
           let cx' = cx\<lparr>pre_next_global_id := i\<rparr> in
           andThen (nonzero i) (\<lambda>i. Inr (Id i, cx'))))"

text \<open>\<open>IdRange\<close>: an inclusive range of non-zero integers.\<close>

record id_range =
  range_start :: u64
  range_end :: u64

definition new_id_range ::
  "bool \<Rightarrow> u64 \<Rightarrow> 'z sim_cxu_scheme \<Rightarrow> panic + id_range \<times> 'z sim_cxu_scheme" where
  "new_id_range chk len cx =
     (if \<not> 0 < len then Inl AssertFailed
      else if \<not> once_set cx then Inl UnwrapNone
      else andThen (u64_add chk (pre_next_global_id cx) len) (\<lambda>last.
           let cx' = cx\<lparr>pre_next_global_id := last\<rparr> in
           andThen (u64_sub chk len 1) (\<lambda>len1.
           andThen (u64_sub chk last len1) (\<lambda>first.
           andThen (nonzero first) (\<lambda>first.
           andThen (nonzero last) (\<lambda>last.
           Inr (\<lparr>range_start = first, range_end = last\<rparr>, cx')))))))"

definition id_range_len :: "bool \<Rightarrow> id_range \<Rightarrow> panic + u64" where
  "id_range_len chk r =
     andThen (u64_sub chk (range_end r) (range_start r)) (\<lambda>d. u64_add chk d 1)"

text \<open>\<open>IdRange::get\<close>: the start plus the index. It does not compare the index with the length.\<close>

definition id_range_get :: "id_range \<Rightarrow> u64 \<Rightarrow> panic + id" where
  "id_range_get r index =
     andThen (unwrap (u64_checked_add (range_start r) index)) (\<lambda>i. Inr (Id i))"

section \<open>What one allocation does\<close>

lemma new_id_checked:
  assumes "new_id True cx = Inr (i, cx')"
  shows "unat (id_val i) = Suc (unat (pre_next_global_id cx))"
    and "cx' = cx\<lparr>pre_next_global_id := id_val i\<rparr>"
    and "id_val i \<noteq> 0"
  using assms by (auto simp: new_id_def dest: u64_add_checked split: if_splits)

lemma new_id_wrapping:
  assumes "new_id chk cx = Inr (i, cx')"
  shows "unat (id_val i) = Suc (unat (pre_next_global_id cx))"
    and "cx' = cx\<lparr>pre_next_global_id := id_val i\<rparr>"
    and "id_val i \<noteq> 0"
proof -
  have i: "id_val i = pre_next_global_id cx + 1" "id_val i \<noteq> 0"
    "cx' = cx\<lparr>pre_next_global_id := id_val i\<rparr>"
    using assms by (auto simp: new_id_def u64_add_def split: if_splits)
  then show "cx' = cx\<lparr>pre_next_global_id := id_val i\<rparr>" "id_val i \<noteq> 0" by auto
  show "unat (id_val i) = Suc (unat (pre_next_global_id cx))"
    using i by (metis Suc_eq_plus1 add.commute unatSuc)
qed

lemma new_id_range_checked:
  assumes "new_id_range True len cx = Inr (r, cx')"
  shows "unat (range_end r) = unat (pre_next_global_id cx) + unat len"
    and "unat (range_start r) = Suc (unat (pre_next_global_id cx))"
    and "cx' = cx\<lparr>pre_next_global_id := range_end r\<rparr>"
    and "0 < unat len"
proof -
  obtain first len1 where
    r: "r = \<lparr>range_start = first, range_end = range_end r\<rparr>"
    and len: "0 < len"
    and last: "u64_add True (pre_next_global_id cx) len = Inr (range_end r)"
    and len1: "u64_sub True len 1 = Inr len1"
    and first: "u64_sub True (range_end r) len1 = Inr first"
    and cx': "cx' = cx\<lparr>pre_next_global_id := range_end r\<rparr>"
    using assms by (auto simp: new_id_range_def Let_def split: if_splits)
  show len': "0 < unat len" using len by (simp add: word_less_nat_alt)
  show e: "unat (range_end r) = unat (pre_next_global_id cx) + unat len"
    using u64_add_checked [OF last] .
  have "unat first = Suc (unat (pre_next_global_id cx))"
    using e len' u64_sub_checked [OF len1] u64_sub_checked [OF first] by simp
  then show "unat (range_start r) = Suc (unat (pre_next_global_id cx))"
    by (subst r) simp
  show "cx' = cx\<lparr>pre_next_global_id := range_end r\<rparr>" by (rule cx')
qed

text \<open>
  As long as the counter does not wrap around, a range is what a build with overflow checks
  makes of it.
\<close>

lemma new_id_range_no_wrap:
  assumes "unat (pre_next_global_id cx) + unat len < 2 ^ 64"
  shows "new_id_range chk len cx = new_id_range True len cx"
proof (cases "0 < len")
  case True
  have l: "1 \<le> unat len" using True by (simp add: word_less_nat_alt Suc_le_eq)
  have "unat (pre_next_global_id cx + len) = unat (pre_next_global_id cx) + unat len"
    using assms by (rule unat_add_u64)
  moreover have "unat (len - 1) = unat len - 1"
    using l by (simp add: unat_sub_u64)
  moreover have "\<not> unat (pre_next_global_id cx) + unat len < unat len - 1" by simp
  ultimately show ?thesis
    using assms l by (simp add: new_id_range_def u64_add_def u64_sub_def Let_def)
qed (simp add: new_id_range_def)

lemma new_id_range_unwrapped:
  "new_id_range chk len cx = Inr (r, cx') \<Longrightarrow> unat (pre_next_global_id cx) + unat len < 2 ^ 64 \<Longrightarrow>
    new_id_range True len cx = Inr (r, cx')"
  using new_id_range_no_wrap [of cx len chk] by simp

lemma new_id_same: "new_id False cx = Inr (i, cx') \<Longrightarrow> new_id True cx = Inr (i, cx')"
proof -
  assume a: "new_id False cx = Inr (i, cx')"
  note w = new_id_wrapping [OF a]
  have "unat (id_val i) < 2 ^ 64" using unsigned_less [of "id_val i"] by simp
  then have "unat (pre_next_global_id cx) + 1 < 2 ^ 64" using w(1) by simp
  then show ?thesis using a by (simp add: new_id_def u64_add_def split: if_splits)
qed

section \<open>Ids are unique within a simulation\<close>

text \<open>
  The contract of an allocator: a request returns new values only, never the same one twice, and
  records them as used. Its client draws values by any sequence of requests.
\<close>

primrec serve_all :: "('r \<Rightarrow> 's \<Rightarrow> 'e + 'k list \<times> 's) \<Rightarrow> 'r list \<Rightarrow> 's \<Rightarrow> 'e + 'k list \<times> 's" where
  "serve_all alloc [] s = Inr ([], s)"
| "serve_all alloc (r # rs) s =
     andThen (alloc r s) (\<lambda>(ks, s1).
     andThen (serve_all alloc rs s1) (\<lambda>(ks', s2). Inr (ks @ ks', s2)))"

locale allocator =
  fixes alloc :: "'r \<Rightarrow> 's \<Rightarrow> 'e + 'k list \<times> 's"
    and used :: "'s \<Rightarrow> 'k set"
  assumes alloc_fresh: "alloc r s = Inr (ks, s') \<Longrightarrow> distinct ks \<and> set ks \<inter> used s = {}"
    and alloc_used: "alloc r s = Inr (ks, s') \<Longrightarrow> used s' = used s \<union> set ks"
begin

lemma serve_all_used: "serve_all alloc rs s = Inr (ks, s') \<Longrightarrow> used s' = used s \<union> set ks"
  by (induction rs arbitrary: s ks) (fastforce dest: alloc_used)+

lemma serve_all_fresh:
  "serve_all alloc rs s = Inr (ks, s') \<Longrightarrow> distinct ks \<and> set ks \<inter> used s = {}"
proof (induction rs arbitrary: s ks)
  case (Cons r rs)
  then obtain ks1 s1 ks2 where
    1: "alloc r s = Inr (ks1, s1)" and 2: "serve_all alloc rs s1 = Inr (ks2, s')"
    and ks: "ks = ks1 @ ks2" by auto
  show ?case
    using Cons.IH [OF 2] alloc_fresh [OF 1] alloc_used [OF 1] ks by auto
qed simp

end

text \<open>
  The provider: \<open>Id::new\<close>, and \<open>IdRange::new\<close> followed by \<open>IdRange::get\<close> at each of its
  indices. The ids in use are the non-zero ones up to the counter.
\<close>

datatype id_request = NewId | NewRange u64

fun serve_id :: "bool \<Rightarrow> id_request \<Rightarrow> 'z sim_cxu_scheme \<Rightarrow> panic + id list \<times> 'z sim_cxu_scheme"
where
  "serve_id chk NewId cx = andThen (new_id chk cx) (\<lambda>(i, cx'). Inr ([i], cx'))"
| "serve_id chk (NewRange len) cx =
     andThen (new_id_range chk len cx) (\<lambda>(r, cx').
     andThen (mapE (\<lambda>k. id_range_get r (of_nat k)) [0..<unat len]) (\<lambda>is. Inr (is, cx')))"

definition ids_in_use :: "'z sim_cxu_scheme \<Rightarrow> id set" where
  "ids_in_use cx =
     {i. 0 < unat (id_val i) \<and> unat (id_val i) \<le> unat (pre_next_global_id cx)}"

lemma id_range_get_in_range:
  assumes "new_id_range True len cx = Inr (r, cx')" and "k < unat len"
  shows "id_range_get r (of_nat k) = Inr (Id (range_start r + of_nat k))"
    and "unat (range_start r + of_nat k) = Suc (unat (pre_next_global_id cx)) + k"
proof -
  note r = new_id_range_checked [OF assms(1)]
  have "unat (range_end r) < 2 ^ 64" using unsigned_less [of "range_end r"] by simp
  then have lt: "unat (range_start r) + k < 2 ^ 64" using r(1,2) assms(2) by simp
  moreover have k: "unat (of_nat k :: u64) = k"
    using lt by (simp add: unat_of_nat take_bit_nat_eq_self)
  ultimately show "id_range_get r (of_nat k) = Inr (Id (range_start r + of_nat k))"
    by (simp add: id_range_get_def u64_checked_add_def)
  show "unat (range_start r + of_nat k) = Suc (unat (pre_next_global_id cx)) + k"
    using lt k r(2) by (simp add: unat_add_u64)
qed

lemma serve_id_upto:
  assumes "serve_id True rq cx = Inr (is, cx')"
  shows "map (\<lambda>i. unat (id_val i)) is =
    [Suc (unat (pre_next_global_id cx))..<Suc (unat (pre_next_global_id cx')) ]"
proof (cases rq)
  case NewId
  then show ?thesis using assms new_id_checked by fastforce
next
  case (NewRange len)
  then obtain r where r: "new_id_range True len cx = Inr (r, cx')"
    and "mapE (\<lambda>k. id_range_get r (of_nat k)) [0..<unat len] = Inr is"
    using assms by auto
  then have is_eq: "is = map (\<lambda>k. Id (range_start r + of_nat k)) [0..<unat len]"
    by (subst (asm) mapE_map [where g = "\<lambda>k. Id (range_start r + of_nat k)"])
      (auto intro: id_range_get_in_range [OF r])
  have "map (\<lambda>i. unat (id_val i)) is =
      map (\<lambda>k. Suc (unat (pre_next_global_id cx)) + k) [0..<unat len]"
    using id_range_get_in_range(2) [OF r] by (auto simp: is_eq)
  also have "\<dots> = [Suc (unat (pre_next_global_id cx))..<
      Suc (unat (pre_next_global_id cx)) + unat len]"
    by (rule map_plus_upt)
  also have "Suc (unat (pre_next_global_id cx)) + unat len = Suc (unat (pre_next_global_id cx'))"
    using new_id_range_checked(1) [OF r] arg_cong [OF new_id_range_checked(3) [OF r],
        of pre_next_global_id] by simp
  finally show ?thesis .
qed


lemma ids_in_use_mono_split:
  assumes "serve_id True rq cx = Inr (is, cx')"
  shows "set is = {i. unat (pre_next_global_id cx) < unat (id_val i)
      \<and> unat (id_val i) \<le> unat (pre_next_global_id cx')}"
    and "unat (pre_next_global_id cx) \<le> unat (pre_next_global_id cx')"
    and "distinct is"
proof -
  note u = serve_id_upto [OF assms]
  show "distinct is"
    using distinct_upt u by (metis distinct_map)
  have "i \<in> set is \<longleftrightarrow> unat (id_val i) \<in> set (map (\<lambda>i. unat (id_val i)) is)" for i
    by (auto dest!: word_unat_eq_iff [THEN iffD2])
  then show "set is = {i. unat (pre_next_global_id cx) < unat (id_val i)
      \<and> unat (id_val i) \<le> unat (pre_next_global_id cx')}"
    unfolding u by auto
  show "unat (pre_next_global_id cx) \<le> unat (pre_next_global_id cx')"
  proof (cases rq)
    case NewId
    then show ?thesis using assms new_id_checked(1,2) by fastforce
  next
    case (NewRange len)
    then obtain r where r: "new_id_range True len cx = Inr (r, cx')" using assms by auto
    show ?thesis
      using new_id_range_checked(1) [OF r]
      by (subst new_id_range_checked(3) [OF r]) simp
  qed
qed

interpretation ids: allocator "serve_id True" ids_in_use
proof
  fix r :: id_request and s s' :: "'a sim_cxu_scheme" and ks
  assume a: "serve_id True r s = Inr (ks, s')"
  note m = ids_in_use_mono_split [OF a]
  show "distinct ks \<and> set ks \<inter> ids_in_use s = {}"
    using m by (auto simp: ids_in_use_def)
  show "ids_in_use s' = ids_in_use s \<union> set ks"
    using m(2) by (auto simp: ids_in_use_def m(1))
qed


text \<open>
  The ids a list of requests asks for, in number. Without overflow checks the counter wraps around
  once that many ids exceed \<open>2 ^ 64\<close>; as long as they do not, the build makes no difference.
\<close>

primrec ids_requested :: "id_request list \<Rightarrow> nat" where
  "ids_requested [] = 0"
| "ids_requested (r # rs) =
     (case r of NewId \<Rightarrow> 1 | NewRange len \<Rightarrow> unat len) + ids_requested rs"

lemma serve_id_checked:
  assumes "serve_id False rq cx = Inr (is, cx')"
    and "unat (pre_next_global_id cx) + ids_requested [rq] < 2 ^ 64"
  shows "serve_id True rq cx = Inr (is, cx')"
    and "unat (pre_next_global_id cx') = unat (pre_next_global_id cx) + ids_requested [rq]"
proof -
  show t: "serve_id True rq cx = Inr (is, cx')"
  proof (cases rq)
    case NewId
    then show ?thesis using assms(1) new_id_same by auto
  next
    case (NewRange len)
    then have "new_id_range False len cx = new_id_range True len cx"
      by (intro new_id_range_no_wrap) (use assms(2) in simp)
    then show ?thesis using NewRange assms(1) by simp
  qed
  show "unat (pre_next_global_id cx') = unat (pre_next_global_id cx) + ids_requested [rq]"
  proof (cases rq)
    case NewId
    then show ?thesis using t new_id_checked by fastforce
  next
    case (NewRange len)
    then obtain r where r: "new_id_range True len cx = Inr (r, cx')" using t by auto
    show ?thesis
      using new_id_range_checked(1) [OF r] NewRange by (subst new_id_range_checked(3) [OF r]) simp
  qed
qed

lemma serve_all_checked:
  "serve_all (serve_id False) rqs cx = Inr (is, cx') \<Longrightarrow>
    unat (pre_next_global_id cx) + ids_requested rqs < 2 ^ 64 \<Longrightarrow>
    serve_all (serve_id True) rqs cx = Inr (is, cx')"
proof (induction rqs arbitrary: cx "is")
  case (Cons rq rqs)
  obtain ks cx1 ks' where 1: "serve_id False rq cx = Inr (ks, cx1)"
    and 2: "serve_all (serve_id False) rqs cx1 = Inr (ks', cx')" and i: "is = ks @ ks'"
    using Cons.prems(1) by auto
  have "unat (pre_next_global_id cx) + ids_requested [rq] < 2 ^ 64" using Cons.prems(2) by simp
  note c = serve_id_checked [OF 1 this]
  have "unat (pre_next_global_id cx1) + ids_requested rqs < 2 ^ 64"
    using c(2) Cons.prems(2) by simp
  from Cons.IH [OF 2 this] c(1) i show ?case by simp
qed simp

text \<open>
  C13: Ids are unique within a simulation, as long as the id counter does not wrap around, which it
  never does in a build with overflow checks: the ids handed out by any sequence of \<open>Id::new\<close> and
  \<open>IdRange::new\<close> calls that returns, each range read at all of its indices, are pairwise different,
  non-zero, and different from every id handed out before. In a build without the checks this
  holds if the counter and the number of ids asked for stay below \<open>2 ^ 64\<close> together.
\<close>

theorem ids_unique:
  assumes "serve_all (serve_id chk) rqs cx = Inr (is, cx')"
    and "chk \<or> unat (pre_next_global_id cx) + ids_requested rqs < 2 ^ 64"
  shows "distinct is \<and> (\<forall>i \<in> set is. id_val i \<noteq> 0 \<and> i \<notin> ids_in_use cx)"
proof -
  have run: "serve_all (serve_id True) rqs cx = Inr (is, cx')"
    using assms serve_all_checked by (cases chk) auto
  have "ids_in_use cx' = ids_in_use cx \<union> set is"
    by (rule ids.serve_all_used [OF run])
  moreover have "i \<in> ids_in_use cx' \<Longrightarrow> id_val i \<noteq> 0" for i
    by (auto simp: ids_in_use_def)
  ultimately show ?thesis
    using ids.serve_all_fresh [OF run] by blast
qed

definition example_cxu :: "u64 \<Rightarrow> sim_cxu" where
  "example_cxu n = \<lparr>once_set = True, current_node = INIT, pre_next_global_id = n, sim_time = 0\<rparr>"

theorem ids_unique_witness:
  "(\<forall>chk. serve_all (serve_id chk) [NewId, NewRange 3, NewId] (example_cxu 7) =
     Inr ([Id 8, Id 9, Id 10, Id 11, Id 12], example_cxu 12))
   \<and> distinct [Id 8, Id 9, Id 10, Id 11, Id 12]"
proof -
  have run: "serve_all (serve_id chk) [NewId, NewRange 3, NewId] (example_cxu 7) =
     Inr ([Id 8, Id 9, Id 10, Id 11, Id 12], example_cxu 12)" for chk
    by (simp add: example_cxu_def new_id_def new_id_range_def u64_add_def u64_sub_def
        nonzero_def Let_def id_range_get_def u64_checked_add_def upt_rec)
  have "False \<or> unat (pre_next_global_id (example_cxu 7)) +
      ids_requested [NewId, NewRange 3, NewId] < 2 ^ 64"
    by (simp add: example_cxu_def)
  from ids_unique [OF run this] run show ?thesis by blast
qed

text \<open>
  \<open>IdRange::get\<close> does not check its index: read just past its end, a fresh range yields the
  very id that the next \<open>Id::new\<close> hands out, so two users of the simulation share an id.
\<close>

lemma id_range_get_past_end:
  assumes "new_id_range True len cx = Inr (r, cx1)" and "new_id True cx1 = Inr (i, cx2)"
  shows "id_range_len True r = Inr len \<and> id_range_get r len = Inr i"
proof -
  note r = new_id_range_checked [OF assms(1)] and i = new_id_checked [OF assms(2)]
  have i': "unat (id_val i) = unat (range_start r) + unat len"
    using r(1,2,3) i(1) by simp
  then have lt: "unat (range_start r) + unat len < 2 ^ 64"
    using unsigned_less [of "id_val i", where ?'a = nat] by simp
  have "id_val i = range_start r + len"
    using i' lt by (subst word_unat_eq_iff) (simp only: unat_add_u64)
  then have "id_range_get r len = Inr i"
    using lt by (cases i) (simp add: id_range_get_def u64_checked_add_def)
  moreover have "range_end r = range_start r + (len - 1)"
    using r(1,2,4) lt by (simp add: word_unat_eq_iff unat_add_u64 unat_sub_u64)
  moreover have "unat (len - 1) = unat len - 1"
    using r(4) by (simp add: unat_sub_u64)
  ultimately show ?thesis
    using r(1,2,4) lt by (auto simp: id_range_len_def u64_sub_def u64_add_def)
qed

lemma id_range_get_past_end_example:
  "id_range_len True \<lparr>range_start = 8, range_end = 10\<rparr> = Inr 3
   \<and> id_range_get \<lparr>range_start = 8, range_end = 10\<rparr> 3 = Inr (Id 11)"
proof (rule id_range_get_past_end [of 3 "example_cxu 7" _ "example_cxu 10" _ "example_cxu 11"])
  show "new_id_range True 3 (example_cxu 7) =
      Inr (\<lparr>range_start = 8, range_end = 10\<rparr>, example_cxu 10)"
    by (simp add: example_cxu_def new_id_range_def u64_add_def u64_sub_def nonzero_def)
  show "new_id True (example_cxu 10) = Inr (Id 11, example_cxu 11)"
    by (simp add: example_cxu_def new_id_def u64_add_def nonzero_def)
qed

text \<open>
  C40: Without overflow checks \<open>IdRange::new\<close> can move the counter backwards: whatever ids were
  handed out, for every one of them but the first there is a length with which \<open>IdRange::new\<close>
  returns and the next \<open>Id::new\<close> hands out that very id again, as long as the last id of all was not
  reached. A build with overflow checks panics in the call of \<open>IdRange::new\<close>.
\<close>

theorem id_range_wraps_in_release:
  assumes "once_set cx" and "i \<in> ids_in_use cx" and "id_val i \<noteq> 1"
    and "unat (pre_next_global_id cx) < 2 ^ 64 - 1"
  shows "\<exists>len r cx1 cx2. new_id_range False len cx = Inr (r, cx1) \<and>
     new_id False cx1 = Inr (i, cx2) \<and> new_id_range True len cx = Inl Overflow"
proof -
  let ?c = "pre_next_global_id cx" and ?v = "id_val i"
  define len where "len = ?v - 1 - ?c"
  have v: "0 < unat ?v" "unat ?v \<le> unat ?c" using assms(2) by (simp_all add: ids_in_use_def)
  have v0: "?v \<noteq> 0" using v(1) by auto
  have v1: "unat (?v - 1) = unat ?v - 1" using v(1) by (simp add: unat_sub_u64)
  have last: "?c + len = ?v - 1" by (simp add: len_def)
  have "?c \<noteq> ?v - 1" using v v1 by auto
  then have len0: "0 < len" using last by (auto simp: word_gt_0)
  have first: "?v - len = ?c + 1" and v10: "?v - 1 \<noteq> 0" using assms(3) by (simp_all add: len_def)
  have "?c + 1 \<noteq> 0"
    using assms(4) unat_add_u64 [of ?c 1] by auto
  moreover from this have "?v \<noteq> len" using first by auto
  ultimately have "new_id_range False len cx =
      Inr (\<lparr>range_start = ?c + 1, range_end = ?v - 1\<rparr>, cx\<lparr>pre_next_global_id := ?v - 1\<rparr>)"
    using assms(1,3) len0
    by (simp add: new_id_range_def u64_add_def u64_sub_def last first v10 nonzero_def)
  moreover have "new_id False (cx\<lparr>pre_next_global_id := ?v - 1\<rparr>) =
      Inr (i, cx\<lparr>pre_next_global_id := ?v - 1\<rparr>\<lparr>pre_next_global_id := ?v\<rparr>)"
    using assms(1) v0 by (cases i) (simp add: new_id_def u64_add_def nonzero_def)
  moreover have "2 ^ 64 \<le> unat ?c + unat len"
  proof (rule ccontr)
    assume "\<not> 2 ^ 64 \<le> unat ?c + unat len"
    then have "unat (?c + len) = unat ?c + unat len" by (intro unat_add_u64) simp
    then show False using v v1 last by simp
  qed
  then have "new_id_range True len cx = Inl Overflow"
    using assms(1) len0 by (simp add: new_id_range_def u64_add_def)
  ultimately show ?thesis by blast
qed

theorem id_range_wraps_in_release_witness:
  "Id 3 \<in> ids_in_use (example_cxu 7) \<and> (\<exists>len r cx1 cx2.
     new_id_range False len (example_cxu 7) = Inr (r, cx1) \<and> new_id False cx1 = Inr (Id 3, cx2) \<and>
     new_id_range True len (example_cxu 7) = Inl Overflow)"
proof -
  have i: "once_set (example_cxu 7)" "Id 3 \<in> ids_in_use (example_cxu 7)" "id_val (Id 3) \<noteq> 1"
    "unat (pre_next_global_id (example_cxu 7)) < 2 ^ 64 - 1"
    by (simp_all add: example_cxu_def ids_in_use_def)
  from id_range_wraps_in_release [OF i] i(2) show ?thesis by blast
qed

end
