(* ===== verification/Events.thy ===== *)
theory Events
  imports Prelude
begin

text \<open>
  \<open>src/event.rs\<close>: the five event handlers behind \<open>Box<dyn EventHandler>\<close>, as one datatype with
  a constructor per implementation, and their two methods. The hasher of the hashing handlers
  is \<open>ahash::AHasher\<close>, a third-party type: its state is the type parameter \<open>'h\<close> and its
  operations are the record \<open>hasher\<close>, an argument of the definitions that use it.
\<close>

record 'h hasher =
  hash_default :: 'h
  hash_event :: "event \<Rightarrow> 'h \<Rightarrow> 'h"
  hash_finish :: "'h \<Rightarrow> u64"

datatype 'h handler =
    NoopEventHandler
  | RecordingEventHandler "event list"
  | ValidatingEventHandler "event list" nat
  | HashRecordingEventHandler 'h
  | HashValidatingEventHandler 'h u64

text \<open>The values \<open>finalize\<close> boxes as \<open>dyn Any\<close>.\<close>

datatype any = AnyUnit | AnyEvents "event list" | AnyHash u64

fun handle_event :: "'h hasher \<Rightarrow> event \<Rightarrow> 'h handler \<Rightarrow> panic + 'h handler" where
  "handle_event hs ev NoopEventHandler = Inr NoopEventHandler"
| "handle_event hs ev (RecordingEventHandler recorded) =
     Inr (RecordingEventHandler (recorded @ [ev]))"
| "handle_event hs ev (ValidatingEventHandler events next) =
     (if length events \<le> next then Inl (NoFurtherEvents ev)
      else if ev \<noteq> events ! next then Inl (ValidationFailed next (events ! next) ev)
      else Inr (ValidatingEventHandler events (next + 1)))"
| "handle_event hs ev (HashRecordingEventHandler h) =
     Inr (HashRecordingEventHandler (hash_event hs ev h))"
| "handle_event hs ev (HashValidatingEventHandler h expected) =
     Inr (HashValidatingEventHandler (hash_event hs ev h) expected)"

fun finalize :: "'h hasher \<Rightarrow> 'h handler \<Rightarrow> panic + any" where
  "finalize hs NoopEventHandler = Inr AnyUnit"
| "finalize hs (RecordingEventHandler recorded) = Inr (AnyEvents recorded)"
| "finalize hs (ValidatingEventHandler events next) =
     (if next \<noteq> length events then Inl (MissingEvents (length events) next) else Inr AnyUnit)"
| "finalize hs (HashRecordingEventHandler h) = Inr (AnyHash (hash_finish hs h))"
| "finalize hs (HashValidatingEventHandler h expected) =
     (if hash_finish hs h \<noteq> expected then Inl EventSequencesDiffer else Inr AnyUnit)"

text \<open>
  The handlers that \<open>SimBuilder::run\<close> installs (\<open>src/sim_builder.rs\<close>): for the first run of a
  check the recorder, for each later run the checker built from what the recorder's
  \<open>finalize\<close> returned, downcast to the type the recorder is known to produce.
\<close>

definition full_recorder :: "'h hasher \<Rightarrow> 'h handler" where
  "full_recorder hs = RecordingEventHandler []"

fun full_checker :: "'h hasher \<Rightarrow> any \<Rightarrow> panic + 'h handler" where
  "full_checker hs (AnyEvents events) = Inr (ValidatingEventHandler events 0)"
| "full_checker hs _ = Inl UnwrapNone"

definition hash_recorder :: "'h hasher \<Rightarrow> 'h handler" where
  "hash_recorder hs = HashRecordingEventHandler (hash_default hs)"

fun hash_checker :: "'h hasher \<Rightarrow> any \<Rightarrow> panic + 'h handler" where
  "hash_checker hs (AnyHash expected) = Inr (HashValidatingEventHandler (hash_default hs) expected)"
| "hash_checker hs _ = Inl UnwrapNone"

section \<open>Feeding a whole run to a handler\<close>

definition observe ::
  "('e \<Rightarrow> 'k \<Rightarrow> 'p + 'k) \<Rightarrow> ('k \<Rightarrow> 'p + 'o) \<Rightarrow> 'k \<Rightarrow> 'e list \<Rightarrow> 'p + 'o" where
  "observe step finish k es = andThen (foldE step es k) finish"

definition events_digest :: "'h hasher \<Rightarrow> event list \<Rightarrow> u64" where
  "events_digest hs es = hash_finish hs (fold (hash_event hs) es (hash_default hs))"

lemma fold_recording:
  "foldE (handle_event hs) es (RecordingEventHandler r) = Inr (RecordingEventHandler (r @ es))"
  by (induction es arbitrary: r) auto

lemma fold_hash_recording:
  "foldE (handle_event hs) es (HashRecordingEventHandler h) =
     Inr (HashRecordingEventHandler (fold (hash_event hs) es h))"
  by (induction es arbitrary: h) auto

lemma fold_hash_validating:
  "foldE (handle_event hs) es (HashValidatingEventHandler h x) =
     Inr (HashValidatingEventHandler (fold (hash_event hs) es h) x)"
  by (induction es arbitrary: h) auto

text \<open>
  What a validating run should report, as a plain comparison of the two sequences that walks
  them in step: nothing when they are equal, else the first point at which they differ.
\<close>

fun first_difference :: "nat \<Rightarrow> event list \<Rightarrow> event list \<Rightarrow> panic option" where
  "first_difference i [] [] = None"
| "first_difference i [] (e # es) = Some (NoFurtherEvents e)"
| "first_difference i (p # ps) [] = Some (MissingEvents (i + length (p # ps)) i)"
| "first_difference i (p # ps) (e # es) =
     (if e = p then first_difference (i + 1) ps es else Some (ValidationFailed i p e))"

lemma first_difference_None: "first_difference i ps es = None \<longleftrightarrow> ps = es"
  by (induction i ps es rule: first_difference.induct) auto

lemma observe_validating_from:
  "observe (handle_event hs) (finalize hs) (ValidatingEventHandler (done @ ps) (length done)) es =
     (case first_difference (length done) ps es of None \<Rightarrow> Inr AnyUnit | Some p \<Rightarrow> Inl p)"
proof (induction "length done" ps es arbitrary: "done" rule: first_difference.induct)
  case (4 p ps e es)
  then show ?case
    using "4.hyps" [of "done @ [p]"] by (auto simp: observe_def nth_append)
qed (auto simp: observe_def)

section \<open>The determinism check as an interface\<close>

text \<open>
  A determinism check is a recorder and a checker over the same handlers. The contract: the
  recorder accepts every run and yields what the checker needs; the checker accepts exactly the
  runs that are the same, in the sense \<open>same\<close>, as the recorded one. The client runs the
  program once under the recorder and then any number of times under fresh checkers.
\<close>

definition check_runs ::
  "('e \<Rightarrow> 'k \<Rightarrow> 'p + 'k) \<Rightarrow> ('k \<Rightarrow> 'p + 'o) \<Rightarrow> 'k \<Rightarrow> ('o \<Rightarrow> 'p + 'k) \<Rightarrow> 'e list \<Rightarrow> 'e list list
    \<Rightarrow> 'p + unit" where
  "check_runs step finish recorder checker first rest =
     andThen (observe step finish recorder first) (\<lambda>o1.
     foldE (\<lambda>es _. andThen (checker o1) (\<lambda>k. andThen (observe step finish k es) (\<lambda>_. Inr ())))
       rest ())"

locale determinism_check =
  fixes step :: "'e \<Rightarrow> 'k \<Rightarrow> 'p + 'k"
    and finish :: "'k \<Rightarrow> 'p + 'o"
    and recorder :: 'k
    and checker :: "'o \<Rightarrow> 'p + 'k"
    and same :: "'e list \<Rightarrow> 'e list \<Rightarrow> bool"
  assumes recorder_total:
      "\<exists>o1 k. observe step finish recorder es = Inr o1 \<and> checker o1 = Inr k"
    and checker_exact:
      "observe step finish recorder es = Inr o1 \<Longrightarrow> checker o1 = Inr k \<Longrightarrow>
        (\<exists>u. observe step finish k es' = Inr u) \<longleftrightarrow> same es es'"
begin

lemma check_runs_accepts:
  "check_runs step finish recorder checker first rest = Inr () \<longleftrightarrow>
     (\<forall>es \<in> set rest. same first es)"
proof -
  obtain o1 k where o1: "observe step finish recorder first = Inr o1" and k: "checker o1 = Inr k"
    using recorder_total by blast
  let ?f = "\<lambda>es _. andThen (checker o1) (\<lambda>k. andThen (observe step finish k es) (\<lambda>_. Inr ()))"
  have "foldE ?f rest () = Inr () \<longleftrightarrow> (\<forall>es \<in> set rest. same first es)"
    using checker_exact [OF o1 k] by (induction rest) (auto simp: k)
  then show ?thesis by (simp add: check_runs_def o1)
qed

end

text \<open>A check that finds every difference: equal runs are the only ones it takes as the same.\<close>

locale exact_determinism_check = determinism_check +
  assumes same_eq: "same es es' \<longleftrightarrow> es = es'"
begin

lemma check_runs_exact:
  "check_runs step finish recorder checker first rest = Inr () \<longleftrightarrow> (\<forall>es \<in> set rest. es = first)"
  using check_runs_accepts same_eq by auto

end

interpretation full: exact_determinism_check "handle_event hs" "finalize hs" "full_recorder hs"
  "full_checker hs" "(=)"
  for hs :: "'h hasher"
proof
  fix es es' :: "event list" and o1 and k :: "'h handler"
  show "\<exists>o1 k. observe (handle_event hs) (finalize hs) (full_recorder hs) es = Inr o1 \<and>
      full_checker hs o1 = Inr k"
    by (simp add: observe_def full_recorder_def fold_recording)
  assume "observe (handle_event hs) (finalize hs) (full_recorder hs) es = Inr o1"
    and "full_checker hs o1 = Inr k"
  then have k: "k = ValidatingEventHandler es 0"
    by (auto simp: observe_def full_recorder_def fold_recording)
  show "(\<exists>u. observe (handle_event hs) (finalize hs) k es' = Inr u) \<longleftrightarrow> es = es'"
    using observe_validating_from [of hs "[]" es es'] first_difference_None [of 0 es es']
    by (auto simp: k split: option.splits)
qed simp

interpretation hashed: determinism_check "handle_event hs" "finalize hs" "hash_recorder hs"
  "hash_checker hs" "\<lambda>es es'. events_digest hs es = events_digest hs es'"
  for hs :: "'h hasher"
  by unfold_locales
    (auto simp: observe_def hash_recorder_def fold_hash_recording fold_hash_validating
      events_digest_def split: if_splits)

section \<open>Properties of the handlers\<close>

text \<open>
  C14: Replaying a run against a recorded one reports exactly what a direct comparison of the two
  event sequences finds: nothing when they are equal, otherwise the first index at which they
  differ with the expected and the actual event, the first event too many, or the number of
  events that are missing.
\<close>

theorem validating_reports_first_difference:
  "observe (handle_event hs) (finalize hs) (ValidatingEventHandler expected 0) actual =
     (case first_difference 0 expected actual of None \<Rightarrow> Inr AnyUnit | Some p \<Rightarrow> Inl p)"
  using observe_validating_from [of hs "[]" expected actual] by simp

text \<open>
  The full determinism check, the recording handler for the first run and a validating
  handler for each later run, passes exactly when every later run reported the same events as
  the first one.
\<close>

lemma full_check_exact:
  "check_runs (handle_event hs) (finalize hs) (full_recorder hs) (full_checker hs) first rest =
     Inr () \<longleftrightarrow> set rest \<subseteq> {first}"
  unfolding full.check_runs_exact by blast

text \<open>
  The hashing determinism check passes exactly when every later run has the same digest as
  the first: it accepts equal runs whatever the hasher does, and of different runs those alone
  whose digests collide.
\<close>

lemma hash_check_exact:
  "check_runs (handle_event hs) (finalize hs) (hash_recorder hs) (hash_checker hs) first rest =
     Inr () \<longleftrightarrow> events_digest hs ` set rest \<subseteq> {events_digest hs first}"
  unfolding hashed.check_runs_accepts image_subset_iff by (metis insert_iff singletonD)

end
