(* ===== verification/Context.thy ===== *)
theory Context
  imports Ids Events
begin

text \<open>
  \<open>src/lib.rs\<close>: the thread-local \<open>SimCx\<close> and the ways into it. \<open>SimCx\<close> is one state record
  that the later theories extend with the fields of \<open>SimCxl\<close>, \<open>Executor\<close>, \<open>TimeScheduler\<close>
  and \<open>ExecutorQueue\<close>. Its field \<open>context: RefCell<Option<SimCxl>>\<close> becomes \<open>cell\<close>, which says
  whether the option is \<open>None\<close>, is \<open>Some\<close> and free, or is mutably borrowed; the fields of
  \<open>SimCxl\<close> themselves are fields of the record, read and written only while the cell is borrowed.
\<close>

datatype cell_status = CellNone | CellFree | CellBorrowed

record 'h sim_cx = sim_cxu +
  cell :: cell_status
  event_handler :: "'h handler"

text \<open>
  \<open>SimCx::with_cx\<close> and \<open>SimCxl::with\<close>: \<open>borrow_mut\<close> panics when the cell is borrowed, and
  \<open>as_mut().unwrap()\<close> when it holds \<open>None\<close>. The borrow ends with the closure.
\<close>

definition with_cx ::
  "(('h, 'z) sim_cx_scheme \<Rightarrow> panic + 'a \<times> ('h, 'z) sim_cx_scheme) \<Rightarrow>
    ('h, 'z) sim_cx_scheme \<Rightarrow> panic + 'a \<times> ('h, 'z) sim_cx_scheme" where
  "with_cx f cx =
     (case cell cx of
        CellBorrowed \<Rightarrow> Inl BorrowMutError
      | CellNone \<Rightarrow> Inl UnwrapNone
      | CellFree \<Rightarrow>
          andThen (f (cx\<lparr>cell := CellBorrowed\<rparr>)) (\<lambda>(a, cx'). Inr (a, cx'\<lparr>cell := CellFree\<rparr>)))"

text \<open>
  \<open>is_in_simulation\<close>, \<open>SimCx::current_node\<close> and \<open>SimCx::node_scope\<close>. The scope guard restores
  the calling node when the closure returns. \<open>with_in_node\<close> is \<open>node_scope\<close> on the thread's
  own \<open>SimCx\<close>.
\<close>

definition is_in_simulation :: "('h, 'z) sim_cx_scheme \<Rightarrow> bool" where
  "is_in_simulation cx = once_set cx"

definition cx_current_node :: "('h, 'z) sim_cx_scheme \<Rightarrow> panic + node_id" where
  "cx_current_node cx = (if once_set cx then Inr (current_node cx) else Inl UnwrapNone)"

definition node_scope ::
  "node_id \<Rightarrow> (('h, 'z) sim_cx_scheme \<Rightarrow> panic + 'a \<times> ('h, 'z) sim_cx_scheme) \<Rightarrow>
    ('h, 'z) sim_cx_scheme \<Rightarrow> panic + 'a \<times> ('h, 'z) sim_cx_scheme" where
  "node_scope node f cx =
     (if \<not> once_set cx then Inl UnwrapNone
      else let calling_node = current_node cx in
        andThen (f (cx\<lparr>current_node := node\<rparr>))
          (\<lambda>(a, cx'). Inr (a, cx'\<lparr>current_node := calling_node\<rparr>)))"

text \<open>\<open>cxl.event_handler.handle_event(ev)\<close>, with the cell borrowed by the caller.\<close>

definition report_event ::
  "'h hasher \<Rightarrow> event \<Rightarrow> ('h, 'z) sim_cx_scheme \<Rightarrow> panic + ('h, 'z) sim_cx_scheme" where
  "report_event hs ev cx =
     andThen (handle_event hs ev (event_handler cx)) (\<lambda>eh. Inr (cx\<lparr>event_handler := eh\<rparr>))"

section \<open>Borrowing\<close>

lemma with_cx_Inr:
  "with_cx f cx = Inr (a, cx') \<longleftrightarrow>
     cell cx = CellFree \<and>
     (\<exists>cx1. f (cx\<lparr>cell := CellBorrowed\<rparr>) = Inr (a, cx1) \<and> cx' = cx1\<lparr>cell := CellFree\<rparr>)"
  by (auto simp: with_cx_def split: cell_status.splits)

lemma with_cx_Inl:
  "with_cx f cx = Inl p \<longleftrightarrow>
     cell cx = CellBorrowed \<and> p = BorrowMutError \<or>
     cell cx = CellNone \<and> p = UnwrapNone \<or>
     cell cx = CellFree \<and> f (cx\<lparr>cell := CellBorrowed\<rparr>) = Inl p"
  by (auto simp: with_cx_def andThen_eq_Inl split: cell_status.splits)

lemma node_scope_Inr:
  "node_scope node f cx = Inr (a, cx') \<longleftrightarrow>
     once_set cx \<and>
     (\<exists>cx1. f (cx\<lparr>current_node := node\<rparr>) = Inr (a, cx1) \<and>
        cx' = cx1\<lparr>current_node := current_node cx\<rparr>)"
  by (auto simp: node_scope_def Let_def)

lemma node_scope_Inl:
  "node_scope node f cx = Inl p \<longleftrightarrow>
     \<not> once_set cx \<and> p = UnwrapNone \<or>
     once_set cx \<and> f (cx\<lparr>current_node := node\<rparr>) = Inl p"
  by (auto simp: node_scope_def Let_def andThen_eq_Inl)

lemma report_event_Inr:
  "report_event hs ev cx = Inr cx' \<longleftrightarrow>
     (\<exists>eh. handle_event hs ev (event_handler cx) = Inr eh \<and> cx' = cx\<lparr>event_handler := eh\<rparr>)"
  by (auto simp: report_event_def)

lemma with_cx_not_reentrant:
  "with_cx (\<lambda>cx. with_cx g cx) cx =
     (case cell cx of CellNone \<Rightarrow> Inl UnwrapNone | _ \<Rightarrow> Inl BorrowMutError)"
  by (auto simp: with_cx_def split: cell_status.splits)

end
