(* ===== verification/Timers.thy ===== *)
theory Timers
  imports Context "HOL-Library.AList"
begin

text \<open>
  \<open>src/time.rs\<close>: the \<open>Sleep\<close> future and the \<open>TimeScheduler\<close>. A \<open>Sleep\<close> is a pinned cell that
  the future and the scheduler's queue share through \<open>PinRc\<close>; the cells live in a store,
  \<open>sleep_cells\<close>, indexed by their addresses, and a \<open>Sleep\<close> or a \<open>QueueEntry\<close> is an address
  (the code compares and hashes entries by address). The wakers stored in the cells have the
  type parameter \<open>'w\<close> and the function that wakes one is an argument, as \<open>Waker\<close> is a virtual
  table in the code.

  The queue is \<open>priority_queue::PriorityQueue\<close>, a third-party type: its values have the type
  parameter \<open>'q\<close> and its operations are the record \<open>pq_ops\<close>. The priorities are
  \<open>Reverse<Instant>\<close>, so the greatest priority is the least instant.
\<close>

section \<open>The priority queue\<close>

record 'q pq_ops =
  pq_new :: 'q
  pq_push :: "nat \<Rightarrow> instant \<Rightarrow> 'q \<Rightarrow> 'q"
  pq_remove :: "nat \<Rightarrow> 'q \<Rightarrow> 'q"
  pq_peek :: "'q \<Rightarrow> (nat \<times> instant) option"
  pq_pop_if :: "(nat \<Rightarrow> instant \<Rightarrow> bool) \<Rightarrow> 'q \<Rightarrow> ((nat \<times> instant) \<times> 'q) option"
  pq_len :: "'q \<Rightarrow> nat"

text \<open>
  The documented behaviour of the crate, over the finite map from items to priorities that a
  queue holds. Which of several items of the greatest priority is on top is left open.
\<close>

locale priority_queue =
  fixes pq :: "'q pq_ops"
    and contents :: "'q \<Rightarrow> nat \<rightharpoonup> instant"
  assumes contents_new: "contents (pq_new pq) = Map.empty"
    and contents_push: "contents (pq_push pq k t q) = (contents q)(k \<mapsto> t)"
    and contents_remove: "contents (pq_remove pq k q) = (contents q)(k := None)"
    and finite_contents: "finite (dom (contents q))"
    and len_contents: "pq_len pq q = card (dom (contents q))"
    and peek_None: "pq_peek pq q = None \<longleftrightarrow> contents q = Map.empty"
    and peek_top: "pq_peek pq q = Some (k, t) \<Longrightarrow>
        contents q k = Some t \<and> (\<forall>k' t'. contents q k' = Some t' \<longrightarrow> t \<le> t')"
    and pop_if_None: "pq_pop_if pq f q = None \<longleftrightarrow>
        (case pq_peek pq q of None \<Rightarrow> True | Some (k, t) \<Rightarrow> \<not> f k t)"
    and pop_if_Some: "pq_pop_if pq f q = Some ((k, t), q') \<Longrightarrow>
        pq_peek pq q = Some (k, t) \<and> f k t \<and> contents q' = (contents q)(k := None)"
begin

lemma pop_if_len:
  assumes "pq_pop_if pq f q = Some ((k, t), q')"
  shows "pq_len pq q = Suc (pq_len pq q')"
proof -
  have "contents q k = Some t" and q': "contents q' = (contents q)(k := None)"
    using pop_if_Some [OF assms] peek_top by blast+
  then have "dom (contents q) = insert k (dom (contents q'))" "k \<notin> dom (contents q')"
    by auto
  then show ?thesis
    using finite_contents [of q'] by (simp add: len_contents)
qed

end

text \<open>A reference instance, an association list searched for its least instant.\<close>

fun least_entry :: "(nat \<times> instant) list \<Rightarrow> (nat \<times> instant) option" where
  "least_entry [] = None"
| "least_entry ((k, t) # q) =
     (case least_entry q of
        None \<Rightarrow> Some (k, t)
      | Some (k', t') \<Rightarrow> if t' < t then Some (k', t') else Some (k, t))"

definition list_pq :: "(nat \<times> instant) list pq_ops" where
  "list_pq =
    \<lparr>pq_new = [],
     pq_push = (\<lambda>k t q. AList.update k t q),
     pq_remove = (\<lambda>k q. AList.delete k q),
     pq_peek = (\<lambda>q. least_entry (AList.clearjunk q)),
     pq_pop_if = (\<lambda>f q. case least_entry (AList.clearjunk q) of
        None \<Rightarrow> None
      | Some (k, t) \<Rightarrow> if f k t then Some ((k, t), AList.delete k q) else None),
     pq_len = (\<lambda>q. length (AList.clearjunk q))\<rparr>"

lemma least_entry_None [simp]: "least_entry q = None \<longleftrightarrow> q = []"
  by (induction q rule: least_entry.induct) (auto split: option.splits if_splits)

lemma least_entry_Some:
  "least_entry q = Some (k, t) \<Longrightarrow> (k, t) \<in> set q \<and> (\<forall>(k', t') \<in> set q. t \<le> t')"
  by (induction q arbitrary: k t rule: least_entry.induct)
    (fastforce split: option.splits if_splits)+

interpretation list_pq: priority_queue list_pq map_of
proof
  fix k t and q q' :: "(nat \<times> instant) list" and f
  show "map_of (pq_new list_pq) = Map.empty" by (simp add: list_pq_def)
  show "map_of (pq_push list_pq k t q) = (map_of q)(k \<mapsto> t)"
    by (simp add: list_pq_def update_conv')
  show "map_of (pq_remove list_pq k q) = (map_of q)(k := None)"
    by (simp add: list_pq_def delete_conv')
  show "finite (dom (map_of q))" by (rule finite_dom_map_of)
  have "card (dom (map_of (AList.clearjunk q))) = length (AList.clearjunk q)"
    using distinct_card [OF distinct_clearjunk [of q]] by (simp add: dom_map_of_conv_image_fst)
  then show "pq_len list_pq q = card (dom (map_of q))"
    by (simp add: list_pq_def map_of_clearjunk)
  have e: "AList.clearjunk q = [] \<longleftrightarrow> map_of q = Map.empty"
    by (metis map_of_clearjunk map_of_eq_empty_iff)
  then show "pq_peek list_pq q = None \<longleftrightarrow> map_of q = Map.empty"
    by (simp add: list_pq_def)
  show "map_of q k = Some t \<and> (\<forall>k' t'. map_of q k' = Some t' \<longrightarrow> t \<le> t')"
    if "pq_peek list_pq q = Some (k, t)"
  proof -
    have l: "least_entry (AList.clearjunk q) = Some (k, t)" using that by (simp add: list_pq_def)
    show ?thesis
      using least_entry_Some [OF l] distinct_clearjunk [of q]
      by (metis (no_types, lifting) case_prodD map_of_SomeD map_of_clearjunk map_of_is_SomeI)
  qed
  show "pq_pop_if list_pq f q = None \<longleftrightarrow>
      (case pq_peek list_pq q of None \<Rightarrow> True | Some (k, t) \<Rightarrow> \<not> f k t)"
    by (auto simp: list_pq_def split: option.splits)
  show "pq_peek list_pq q = Some (k, t) \<and> f k t \<and> map_of q' = (map_of q)(k := None)"
    if "pq_pop_if list_pq f q = Some ((k, t), q')"
    using that by (auto simp: list_pq_def delete_conv' split: option.splits if_splits)
qed

section \<open>State\<close>

datatype 'w time_future_state = Init instant | Waiting 'w | Done instant | Taken

record ('h, 'q, 'w) timer_cx = "'h sim_cx" +
  sleep_cells :: "nat \<rightharpoonup> 'w time_future_state"
  next_cell :: nat
  upcoming_events :: 'q
  now :: instant

datatype 'a poll = Ready 'a | Pending

section \<open>Sleep\<close>

text \<open>
  \<open>Instant::now()\<close> reads the simulated time in a simulation, through the intercepted
  \<open>clock_gettime\<close>, and the real clock, here an argument, outside of one.
\<close>

definition instant_now :: "instant \<Rightarrow> ('h, 'q, 'w, 'z) timer_cx_scheme \<Rightarrow> instant" where
  "instant_now real_clock cx = (if once_set cx then sim_time cx else real_clock)"

text \<open>\<open>Sleep::new\<close>, \<open>sleep_until\<close> and \<open>sleep\<close>: a new cell in state \<open>Init\<close>.\<close>

definition sleep_until ::
  "instant \<Rightarrow> ('h, 'q, 'w, 'z) timer_cx_scheme \<Rightarrow> nat \<times> ('h, 'q, 'w, 'z) timer_cx_scheme" where
  "sleep_until deadline cx =
     (next_cell cx,
      cx\<lparr>sleep_cells := (sleep_cells cx)(next_cell cx \<mapsto> Init deadline),
         next_cell := Suc (next_cell cx)\<rparr>)"

definition sleep ::
  "instant \<Rightarrow> duration \<Rightarrow> ('h, 'q, 'w, 'z) timer_cx_scheme \<Rightarrow>
    panic + nat \<times> ('h, 'q, 'w, 'z) timer_cx_scheme" where
  "sleep real_clock d cx =
     andThen (instant_add (instant_now real_clock cx) d) (\<lambda>deadline. Inr (sleep_until deadline cx))"

text \<open>
  \<open>Sleep::poll\<close>: the state is first replaced by \<open>Taken\<close>. The branch \<open>Init\<close> that finds the
  deadline passed returns without putting another state back.
\<close>

definition sleep_poll ::
  "'q pq_ops \<Rightarrow> nat \<Rightarrow> 'w \<Rightarrow> ('h, 'q, 'w, 'z) timer_cx_scheme \<Rightarrow>
    panic + instant poll \<times> ('h, 'q, 'w, 'z) timer_cx_scheme" where
  "sleep_poll pq k waker cx =
     (case sleep_cells cx k of
        None \<Rightarrow> Inl DanglingArc
      | Some st \<Rightarrow>
          let cx = cx\<lparr>sleep_cells := (sleep_cells cx)(k \<mapsto> Taken)\<rparr> in
          (case st of
             Init instant \<Rightarrow>
               with_cx (\<lambda>cx.
                 if now cx \<ge> instant then Inr (Ready instant, cx)
                 else Inr (Pending,
                   cx\<lparr>sleep_cells := (sleep_cells cx)(k \<mapsto> Waiting waker),
                      upcoming_events := pq_push pq k instant (upcoming_events cx)\<rparr>)) cx
           | Waiting _ \<Rightarrow>
               Inr (Pending, cx\<lparr>sleep_cells := (sleep_cells cx)(k \<mapsto> Waiting waker)\<rparr>)
           | Done t \<Rightarrow> Inr (Ready t, cx\<lparr>sleep_cells := (sleep_cells cx)(k \<mapsto> Done t)\<rparr>)
           | Taken \<Rightarrow> Inl Unreachable))"

text \<open>\<open>Sleep\<close>'s \<open>PinnedDrop\<close>: the queue entry goes, then the cell.\<close>

definition sleep_drop ::
  "'q pq_ops \<Rightarrow> nat \<Rightarrow> ('h, 'q, 'w, 'z) timer_cx_scheme \<Rightarrow>
    panic + ('h, 'q, 'w, 'z) timer_cx_scheme" where
  "sleep_drop pq k cx =
     andThen
       (with_cx (\<lambda>cx. Inr ((), cx\<lparr>upcoming_events := pq_remove pq k (upcoming_events cx)\<rparr>)) cx)
       (\<lambda>(_, cx). Inr (cx\<lparr>sleep_cells := (sleep_cells cx)(k := None)\<rparr>))"

section \<open>TimeScheduler\<close>

text \<open>
  The loop of \<open>wait_until_next_future_ready\<close>: pop every entry whose deadline has come, mark its
  cell \<open>Done\<close> and wake its waker. Each turn takes an entry out of the queue, so the bound of one
  turn more than the queue is long, which the caller passes, is never reached.
\<close>

fun wake_due ::
  "'q pq_ops \<Rightarrow>
    ('w \<Rightarrow> ('h, 'q, 'w, 'z) timer_cx_scheme \<Rightarrow> panic + ('h, 'q, 'w, 'z) timer_cx_scheme) \<Rightarrow>
    nat \<Rightarrow> ('h, 'q, 'w, 'z) timer_cx_scheme \<Rightarrow> panic + ('h, 'q, 'w, 'z) timer_cx_scheme" where
  "wake_due pq wake 0 cx = Inl OutOfFuel"
| "wake_due pq wake (Suc n) cx =
     (case pq_pop_if pq (\<lambda>_ t. t \<le> now cx) (upcoming_events cx) of
        None \<Rightarrow> Inr cx
      | Some ((k, t), q) \<Rightarrow>
          (case sleep_cells cx k of
             Some (Waiting waker) \<Rightarrow>
               andThen (wake waker (cx\<lparr>sleep_cells := (sleep_cells cx)(k \<mapsto> Done t),
                                      upcoming_events := q\<rparr>))
                 (wake_due pq wake n)
           | Some _ \<Rightarrow> Inl Unreachable
           | None \<Rightarrow> Inl DanglingArc))"

definition wait_until_next_future_ready ::
  "'q pq_ops \<Rightarrow> 'h hasher \<Rightarrow>
    ('w \<Rightarrow> ('h, 'q, 'w, 'z) timer_cx_scheme \<Rightarrow> panic + ('h, 'q, 'w, 'z) timer_cx_scheme) \<Rightarrow>
    ('h, 'q, 'w, 'z) timer_cx_scheme \<Rightarrow> panic + bool \<times> ('h, 'q, 'w, 'z) timer_cx_scheme" where
  "wait_until_next_future_ready pq hs wake cx =
     (case pq_peek pq (upcoming_events cx) of
        None \<Rightarrow> Inr (False, cx)
      | Some (_, next) \<Rightarrow>
          let dt = duration_since next (now cx) in
          andThen (report_event hs (TimeAdvanced dt) cx) (\<lambda>cx.
          andThen (duration_add (sim_time cx) dt) (\<lambda>t.
          let cx = cx\<lparr>sim_time := t, now := next\<rparr> in
          andThen (wake_due pq wake (Suc (pq_len pq (upcoming_events cx))) cx) (\<lambda>cx.
          Inr (True, cx)))))"

section \<open>The scheduler as a client of wakers\<close>

text \<open>
  What the scheduler relies on: waking leaves everything the scheduler keeps as it is, succeeds
  for the wakers that are alive, and keeps wakers alive; and whether a waker is alive does not
  depend on what the scheduler itself changes.
\<close>

definition same_timers ::
  "('h, 'q, 'w, 'z) timer_cx_scheme \<Rightarrow> ('h, 'q, 'w, 'z) timer_cx_scheme \<Rightarrow> bool" where
  "same_timers cx cx' \<longleftrightarrow>
     sleep_cells cx' = sleep_cells cx \<and> upcoming_events cx' = upcoming_events cx \<and>
     now cx' = now cx \<and> sim_time cx' = sim_time cx \<and> next_cell cx' = next_cell cx \<and>
     event_handler cx' = event_handler cx \<and> cell cx' = cell cx \<and> once_set cx' = once_set cx \<and>
     current_node cx' = current_node cx"

definition due ::
  "('q \<Rightarrow> nat \<rightharpoonup> instant) \<Rightarrow> ('h, 'q, 'w, 'z) timer_cx_scheme \<Rightarrow> nat \<Rightarrow> bool" where
  "due contents cx k \<longleftrightarrow> (\<exists>t. contents (upcoming_events cx) k = Some t \<and> t \<le> now cx)"

locale wakers = priority_queue pq contents
  for pq :: "'q pq_ops" and contents :: "'q \<Rightarrow> nat \<rightharpoonup> instant" +
  fixes wake :: "'w \<Rightarrow> ('h, 'q, 'w, 'z) timer_cx_scheme \<Rightarrow> panic + ('h, 'q, 'w, 'z) timer_cx_scheme"
    and alive :: "'w \<Rightarrow> ('h, 'q, 'w, 'z) timer_cx_scheme \<Rightarrow> bool"
  assumes wake_frame: "wake w cx = Inr cx' \<Longrightarrow> same_timers cx cx'"
    and wake_total: "alive w cx \<Longrightarrow> \<exists>cx'. wake w cx = Inr cx'"
    and wake_alive: "wake v cx = Inr cx' \<Longrightarrow> alive w cx \<Longrightarrow> alive w cx'"
    and alive_due: "alive w (cx\<lparr>sleep_cells := c, upcoming_events := q\<rparr>) \<longleftrightarrow> alive w cx"
    and alive_time: "alive w (cx\<lparr>sim_time := t, now := t'\<rparr>) \<longleftrightarrow> alive w cx"
    and alive_event: "alive w (cx\<lparr>event_handler := eh\<rparr>) \<longleftrightarrow> alive w cx"
begin

lemma no_pop_not_due:
  assumes "pq_pop_if pq (\<lambda>_ t. t \<le> now cx) (upcoming_events cx) = None"
  shows "\<not> due contents cx k"
proof (cases "pq_peek pq (upcoming_events cx)")
  case None
  then show ?thesis by (simp add: due_def peek_None)
next
  case (Some e)
  obtain k' t' where e: "e = (k', t')" by (cases e)
  then have "\<not> t' \<le> now cx" using assms Some by (simp add: pop_if_None)
  then show ?thesis using peek_top Some e by (fastforce simp: due_def)
qed

text \<open>One turn of the loop, and induction over the turns.\<close>

lemma wake_due_step:
  assumes "wake_due pq wake (Suc n) cx = Inr cx'"
    and "pq_pop_if pq (\<lambda>_ t. t \<le> now cx) (upcoming_events cx) = Some ((k, t), q)"
  obtains w cx1 where "sleep_cells cx k = Some (Waiting w)"
    and "wake w (cx\<lparr>sleep_cells := (sleep_cells cx)(k \<mapsto> Done t), upcoming_events := q\<rparr>) = Inr cx1"
    and "wake_due pq wake n cx1 = Inr cx'"
  using assms by (auto split: option.splits time_future_state.splits)

lemma wake_due_induct [consumes 1, case_names init turn]:
  assumes "wake_due pq wake n cx = Inr cx'" and "P cx"
    and "\<And>cx k t q w cx1. P cx \<Longrightarrow>
      pq_pop_if pq (\<lambda>_ t. t \<le> now cx) (upcoming_events cx) = Some ((k, t), q) \<Longrightarrow>
      sleep_cells cx k = Some (Waiting w) \<Longrightarrow>
      wake w (cx\<lparr>sleep_cells := (sleep_cells cx)(k \<mapsto> Done t), upcoming_events := q\<rparr>) = Inr cx1 \<Longrightarrow>
      P cx1"
  shows "P cx'"
  using assms(1,2)
proof (induction n arbitrary: cx)
  case (Suc n)
  show ?case
  proof (cases "pq_pop_if pq (\<lambda>_ t. t \<le> now cx) (upcoming_events cx)")
    case None
    then show ?thesis using Suc.prems by simp
  next
    case (Some e)
    obtain k t q where e: "e = ((k, t), q)" by (metis surj_pair)
    then show ?thesis
      using Suc.IH assms(3) [OF Suc.prems(2)] Some wake_due_step [OF Suc.prems(1)] by metis
  qed
qed simp

lemma pop_due:
  assumes "pq_pop_if pq (\<lambda>_ t. t \<le> now cx) (upcoming_events cx) = Some ((k, t), q)"
  shows "contents (upcoming_events cx) k = Some t" and "t \<le> now cx" and "due contents cx k"
    and "contents q = (contents (upcoming_events cx))(k := None)"
  using pop_if_Some [OF assms] peek_top by (auto simp: due_def)

lemma wake_due_effect:
  assumes "wake_due pq wake n cx = Inr cx'"
  shows "contents (upcoming_events cx') =
      (\<lambda>k. if due contents cx k then None else contents (upcoming_events cx) k)"
    and "sleep_cells cx' =
      (\<lambda>k. if due contents cx k then map_option Done (contents (upcoming_events cx) k) else sleep_cells cx k)"
    and "now cx' = now cx" "sim_time cx' = sim_time cx" "next_cell cx' = next_cell cx"
      "event_handler cx' = event_handler cx" "cell cx' = cell cx" "once_set cx' = once_set cx"
      "current_node cx' = current_node cx"
proof -
  let ?done = "\<lambda>c k. contents (upcoming_events cx) k \<noteq> None \<and> contents (upcoming_events c) k = None"
  let ?P = "\<lambda>c. (\<forall>k. contents (upcoming_events c) k = contents (upcoming_events cx) k \<or>
        contents (upcoming_events c) k = None \<and> due contents cx k) \<and>
      sleep_cells c = (\<lambda>k. if ?done c k then map_option Done (contents (upcoming_events cx) k)
        else sleep_cells cx k) \<and>
      now c = now cx \<and> sim_time c = sim_time cx \<and> next_cell c = next_cell cx \<and>
      event_handler c = event_handler cx \<and> cell c = cell cx \<and> once_set c = once_set cx \<and>
      current_node c = current_node cx"
  have P: "?P cx'"
    using assms
  proof (induction rule: wake_due_induct)
    case init
    show ?case by (auto simp: fun_eq_iff)
  next
    case (turn c k t q w c1)
    note pop = pop_due [OF turn(2)] and frame = wake_frame [OF turn(4), unfolded same_timers_def]
    have "now c = now cx"
      using turn(1) by blast
    have k: "contents (upcoming_events cx) k = Some t"
      using conjunct1 [OF turn(1), rule_format, of k] pop(1) by auto
    then have k2: "due contents cx k"
      using pop(2) \<open>now c = now cx\<close> by (simp add: due_def)
    have up: "contents (upcoming_events c1) = (contents (upcoming_events c))(k := None)"
      and cells: "sleep_cells c1 = (sleep_cells c)(k \<mapsto> Done t)"
      using frame pop(4) by simp_all
    have old: "sleep_cells c = (\<lambda>k. if ?done c k then map_option Done (contents (upcoming_events cx) k)
        else sleep_cells cx k)"
      using turn(1) by blast
    show ?case
    proof (intro conjI allI)
      fix j
      show "contents (upcoming_events c1) j = contents (upcoming_events cx) j \<or>
          contents (upcoming_events c1) j = None \<and> due contents cx j"
        using turn(1) k2 by (simp add: up)
      show "sleep_cells c1 = (\<lambda>k. if ?done c1 k then map_option Done (contents (upcoming_events cx) k)
          else sleep_cells cx k)"
        using k by (simp add: fun_eq_iff up cells old)
    qed (use turn(1) frame in simp_all)
  qed
  have "\<not> due contents cx' k" for k
    using assms
  proof (induction n arbitrary: cx)
    case (Suc n)
    show ?case
    proof (cases "pq_pop_if pq (\<lambda>_ t. t \<le> now cx) (upcoming_events cx)")
      case None
      then show ?thesis using Suc.prems no_pop_not_due [of cx k] by simp
    next
      case (Some e)
      obtain k t q where e: "e = ((k, t), q)" by (metis surj_pair)
      show ?thesis
        by (rule wake_due_step [OF Suc.prems Some [unfolded e]]) (rule Suc.IH)
    qed
  qed simp
  then have nd: "\<not> due contents cx' k" for k .
  have now: "now cx' = now cx" using P by blast
  have "contents (upcoming_events cx') k =
      (if due contents cx k then None else contents (upcoming_events cx) k)" for k
    using conjunct1 [OF P, rule_format, of k] nd [of k] now
    by (cases "due contents cx k") (auto simp: due_def)
  then show c: "contents (upcoming_events cx') =
      (\<lambda>k. if due contents cx k then None else contents (upcoming_events cx) k)" by auto
  show "sleep_cells cx' =
      (\<lambda>k. if due contents cx k then map_option Done (contents (upcoming_events cx) k) else sleep_cells cx k)"
    using conjunct1 [OF conjunct2 [OF P]] by (auto simp: c fun_eq_iff due_def)
  show "now cx' = now cx" "sim_time cx' = sim_time cx" "next_cell cx' = next_cell cx"
      "event_handler cx' = event_handler cx" "cell cx' = cell cx" "once_set cx' = once_set cx"
      "current_node cx' = current_node cx"
    using P by auto
qed

lemma wake_due_total:
  assumes "\<And>k. due contents cx k \<Longrightarrow> \<exists>w. sleep_cells cx k = Some (Waiting w) \<and> alive w cx"
    and "pq_len pq (upcoming_events cx) < n"
  shows "\<exists>cx'. wake_due pq wake n cx = Inr cx'"
  using assms
proof (induction n arbitrary: cx)
  case (Suc n)
  show ?case
  proof (cases "pq_pop_if pq (\<lambda>_ t. t \<le> now cx) (upcoming_events cx)")
    case None
    then show ?thesis by simp
  next
    case (Some e)
    obtain k t q where e: "e = ((k, t), q)" by (metis surj_pair)
    note pop = pop_due [OF Some [unfolded e]]
    obtain w where w: "sleep_cells cx k = Some (Waiting w)" "alive w cx"
      using Suc.prems(1) [OF pop(3)] by blast
    let ?c = "cx\<lparr>sleep_cells := (sleep_cells cx)(k \<mapsto> Done t), upcoming_events := q\<rparr>"
    obtain c1 where c1: "wake w ?c = Inr c1"
      using wake_total [of w ?c] w(2) by (auto simp: alive_due)
    note frame = wake_frame [OF c1, unfolded same_timers_def]
    have "\<exists>w. sleep_cells c1 k' = Some (Waiting w) \<and> alive w c1" if "due contents c1 k'" for k'
    proof -
      have k': "k' \<noteq> k" "due contents cx k'"
        using that frame pop(4) by (auto simp: due_def split: if_splits)
      obtain v where "sleep_cells cx k' = Some (Waiting v)" "alive v cx"
        using Suc.prems(1) [OF k'(2)] by blast
      then show ?thesis using k'(1) frame wake_alive [OF c1] alive_due by auto
    qed
    moreover have "pq_len pq (upcoming_events c1) < n"
      using pop_if_len [OF Some [unfolded e]] Suc.prems(2) frame by simp
    ultimately obtain cx' where "wake_due pq wake n c1 = Inr cx'" using Suc.IH by blast
    then show ?thesis using Some e w c1 by simp
  qed
qed simp

end

declare wake_due.simps(2) [simp del]

section \<open>The invariant of the timers\<close>

text \<open>
  The scheduler's clock is the simulated time; exactly the waiting sleeps are queued, and their
  deadlines lie in the future; every deadline is an instant; the deadlines of finished sleeps
  have passed; and cells are allocated below \<open>next_cell\<close>.
\<close>

fun cell_ok :: "instant \<Rightarrow> nat \<Rightarrow> nat \<Rightarrow> 'w time_future_state option \<Rightarrow> instant option \<Rightarrow> bool" where
  "cell_ok n nx k None e \<longleftrightarrow> e = None"
| "cell_ok n nx k (Some (Init t)) e \<longleftrightarrow> k < nx \<and> e = None \<and> t \<le> instant_max"
| "cell_ok n nx k (Some (Waiting w)) e \<longleftrightarrow> k < nx \<and> (\<exists>t. e = Some t \<and> n < t \<and> t \<le> instant_max)"
| "cell_ok n nx k (Some (Done t)) e \<longleftrightarrow> k < nx \<and> e = None \<and> t \<le> n"
| "cell_ok n nx k (Some Taken) e \<longleftrightarrow> k < nx \<and> e = None"

definition timers_inv ::
  "('q \<Rightarrow> nat \<rightharpoonup> instant) \<Rightarrow> ('h, 'q, 'w, 'z) timer_cx_scheme \<Rightarrow> bool" where
  "timers_inv contents cx \<longleftrightarrow>
     now cx = sim_time cx \<and> now cx \<le> instant_max \<and>
     (\<forall>k. cell_ok (now cx) (next_cell cx) k (sleep_cells cx k) (contents (upcoming_events cx) k))"

lemma timers_inv_update [simp]:
  "timers_inv contents (cx\<lparr>cell := c\<rparr>) = timers_inv contents cx"
  "timers_inv contents (cx\<lparr>event_handler := eh\<rparr>) = timers_inv contents cx"
  "timers_inv contents (cx\<lparr>current_node := n\<rparr>) = timers_inv contents cx"
  "timers_inv contents (cx\<lparr>pre_next_global_id := i\<rparr>) = timers_inv contents cx"
  by (simp_all add: timers_inv_def)

lemma timers_inv_same: "same_timers cx cx' \<Longrightarrow> timers_inv contents cx' = timers_inv contents cx"
  by (simp add: timers_inv_def same_timers_def)

lemma timers_inv_cell:
  "timers_inv contents cx \<Longrightarrow>
    cell_ok (now cx) (next_cell cx) k (sleep_cells cx k) (contents (upcoming_events cx) k)"
  unfolding timers_inv_def by blast

lemma cell_ok_Suc: "cell_ok n nx k st e \<Longrightarrow> cell_ok n (Suc nx) k st e"
  by (induction n nx k st e rule: cell_ok.induct) auto

lemma cell_ok_queued:
  "cell_ok n nx k st (Some t) \<Longrightarrow> (\<exists>w. st = Some (Waiting w)) \<and> n < t \<and> t \<le> instant_max \<and> k < nx"
  by (cases "(n, nx, k, st, Some t)" rule: cell_ok.cases) auto

text \<open>When one cell and the queue's entry for it change.\<close>

lemma timers_inv_change:
  assumes "timers_inv contents cx"
    and "cell_ok (now cx) (next_cell cx) k st e"
    and "sleep_cells cx' = (sleep_cells cx)(k := st)"
    and "contents (upcoming_events cx') = (contents (upcoming_events cx))(k := e)"
    and "now cx' = now cx" "sim_time cx' = sim_time cx" "next_cell cx' = next_cell cx"
  shows "timers_inv contents cx'"
  using assms by (auto simp: timers_inv_def)

lemma timers_inv_sleep_until:
  assumes "timers_inv contents cx" and "deadline \<le> instant_max"
    and "sleep_until deadline cx = (k, cx')"
  shows "timers_inv contents cx'"
proof -
  let ?c = "cx\<lparr>next_cell := Suc (next_cell cx)\<rparr>"
  have "timers_inv contents ?c"
    using assms(1) cell_ok_Suc by (fastforce simp: timers_inv_def)
  moreover have "cell_ok (now cx) (next_cell cx) k (sleep_cells cx k) (contents (upcoming_events cx) k)"
    by (rule timers_inv_cell [OF assms(1)])
  then have "contents (upcoming_events cx) k = None"
    using assms(3)
    by (cases "contents (upcoming_events cx) k") (auto simp: sleep_until_def dest: cell_ok_queued)
  ultimately show ?thesis
    using assms(2,3)
    by (elim timers_inv_change [where k = k and st = "Some (Init deadline)" and e = None])
      (auto simp: sleep_until_def fun_upd_idem)
qed

context priority_queue
begin

lemma timers_inv_sleep_drop:
  assumes "timers_inv contents cx" and "sleep_drop pq k cx = Inr cx'"
  shows "timers_inv contents cx'"
  using assms
  by (elim timers_inv_change [where k = k and st = None and e = None])
    (auto simp: sleep_drop_def with_cx_Inr contents_remove)

lemma timers_inv_sleep_poll:
  assumes "timers_inv contents cx" and "sleep_poll pq k w cx = Inr (r, cx')"
  shows "timers_inv contents cx'"
proof -
  obtain st where st: "sleep_cells cx k = Some st"
    using assms(2) by (auto simp: sleep_poll_def split: option.splits)
  note ok = timers_inv_cell [OF assms(1), of k, unfolded st]
  show ?thesis
  proof (cases st)
    case (Init t)
    show ?thesis
    proof (cases "now cx \<ge> t")
      case True
      with assms(2) st Init ok show ?thesis
        by (intro timers_inv_change [OF assms(1), where k = k and st = "Some Taken" and e = None])
          (auto simp: sleep_poll_def with_cx_Inr Let_def fun_upd_idem)
    next
      case False
      with assms(2) st Init ok show ?thesis
        by (intro timers_inv_change [OF assms(1), where k = k and st = "Some (Waiting w)"
              and e = "Some t"])
          (auto simp: sleep_poll_def with_cx_Inr Let_def contents_push)
    qed
  next
    case (Waiting v)
    with assms(2) st ok show ?thesis
      by (intro timers_inv_change [OF assms(1), where k = k and st = "Some (Waiting w)"
            and e = "contents (upcoming_events cx) k"])
        (auto simp: sleep_poll_def Let_def)
  next
    case (Done t)
    with assms(2) st ok show ?thesis
      by (intro timers_inv_change [OF assms(1), where k = k and st = "Some (Done t)"
            and e = None])
        (auto simp: sleep_poll_def Let_def fun_upd_idem)
  next
    case Taken
    with assms(2) st show ?thesis by (simp add: sleep_poll_def Let_def)
  qed
qed

end

section \<open>Advancing time\<close>

context wakers
begin

text \<open>The outcome of \<open>wait_until_next_future_ready\<close> when something is queued.\<close>

lemma wait_until_cases:
  assumes "wait_until_next_future_ready pq hs wake cx = Inr (b, cx')"
  obtains (nothing) "contents (upcoming_events cx) = Map.empty" "b = False" "cx' = cx"
  | (advance) k m eh cx1 where "pq_peek pq (upcoming_events cx) = Some (k, m)" "b = True"
      "handle_event hs (TimeAdvanced (m - now cx)) (event_handler cx) = Inr eh"
      "sim_time cx + (m - now cx) \<le> duration_max"
      "cx1 = cx\<lparr>event_handler := eh, sim_time := sim_time cx + (m - now cx), now := m\<rparr>"
      "wake_due pq wake (Suc (pq_len pq (upcoming_events cx))) cx1 = Inr cx'"
proof (cases "pq_peek pq (upcoming_events cx)")
  case None
  then have "contents (upcoming_events cx) = Map.empty" by (simp only: peek_None)
  moreover have "b = False" "cx' = cx"
    using assms None by (auto simp: wait_until_next_future_ready_def)
  ultimately show ?thesis by (rule nothing)
next
  case (Some e)
  then obtain k t where e: "pq_peek pq (upcoming_events cx) = Some (k, t)" by (cases e) auto
  show ?thesis
    using assms e
    by (auto simp: wait_until_next_future_ready_def Let_def report_event_Inr duration_add_def
        duration_since_def split: if_splits intro!: advance)
qed

lemma wait_until_effect:
  assumes inv: "timers_inv contents cx"
    and wait: "wait_until_next_future_ready pq hs wake cx = Inr (True, cx')"
  obtains k m where "contents (upcoming_events cx) k = Some m"
    and "\<And>k' t. contents (upcoming_events cx) k' = Some t \<Longrightarrow> m \<le> t"
    and "now cx < m" "now cx' = m" "sim_time cx' = m"
    and "sleep_cells cx' = (\<lambda>k. if contents (upcoming_events cx) k = Some m then Some (Done m)
      else sleep_cells cx k)"
    and "contents (upcoming_events cx') =
      (\<lambda>k. if contents (upcoming_events cx) k = Some m then None
        else contents (upcoming_events cx) k)"
    and "next_cell cx' = next_cell cx"
  using wait
proof (cases rule: wait_until_cases)
  case (advance k m eh cx1)
  note top = peek_top [OF advance(1)]
  have m: "now cx < m" "m \<le> instant_max"
    using timers_inv_cell [OF inv, of k] top by (auto dest: cell_ok_queued)
  have now: "sim_time cx = now cx" using inv by (simp add: timers_inv_def)
  have due: "due contents cx1 k' \<longleftrightarrow> contents (upcoming_events cx) k' = Some m" for k'
    using top by (fastforce simp: due_def advance(5))
  note eff = wake_due_effect [OF advance(6)]
  show ?thesis
  proof (rule that [of k m])
    show "sleep_cells cx' = (\<lambda>k. if contents (upcoming_events cx) k = Some m then Some (Done m)
      else sleep_cells cx k)"
      using due by (auto simp: eff(2) advance(5))
    show "contents (upcoming_events cx') = (\<lambda>k. if contents (upcoming_events cx) k = Some m
      then None else contents (upcoming_events cx) k)"
      using due by (auto simp: eff(1) advance(5))
  qed (use top m now eff advance(5) in auto)
qed simp_all

lemma timers_inv_wait_until:
  assumes inv: "timers_inv contents cx"
    and wait: "wait_until_next_future_ready pq hs wake cx = Inr (b, cx')"
  shows "timers_inv contents cx'"
proof (cases b)
  case False
  with wait have "cx' = cx" by (auto elim: wait_until_cases)
  with inv show ?thesis by simp
next
  case True
  with wait obtain k m where c: "contents (upcoming_events cx) k = Some m"
    and least: "\<And>k' t. contents (upcoming_events cx) k' = Some t \<Longrightarrow> m \<le> t"
    and m: "now cx < m" "now cx' = m" "sim_time cx' = m"
    and cells: "sleep_cells cx' = (\<lambda>k. if contents (upcoming_events cx) k = Some m
      then Some (Done m) else sleep_cells cx k)"
    and cont: "contents (upcoming_events cx') =
      (\<lambda>k. if contents (upcoming_events cx) k = Some m then None
        else contents (upcoming_events cx) k)"
    and nx: "next_cell cx' = next_cell cx"
    by (auto elim: wait_until_effect [OF inv])
  have "cell_ok m (next_cell cx) k' (sleep_cells cx' k') (contents (upcoming_events cx') k')" for k'
  proof -
    have ok: "cell_ok (now cx) (next_cell cx) k' (sleep_cells cx k')
        (contents (upcoming_events cx) k')"
      by (rule timers_inv_cell [OF inv])
    show ?thesis
    proof (cases "contents (upcoming_events cx) k' = Some m")
      case True
      then show ?thesis using cell_ok_queued [OF ok [unfolded True]] by (simp add: cells cont)
    next
      case False
      then show ?thesis
        using ok m(1) least [of k']
        by (cases "(now cx, next_cell cx, k', sleep_cells cx k', contents (upcoming_events cx) k')"
            rule: cell_ok.cases)
          (auto simp: cells cont le_less)
    qed
  qed
  moreover have "m \<le> instant_max"
    using cell_ok_queued [OF timers_inv_cell [OF inv, of k, unfolded c]] by simp
  ultimately show ?thesis using m nx by (simp add: timers_inv_def)
qed

text \<open>It cannot panic but by the event handler.\<close>

lemma wait_until_outcome:
  assumes inv: "timers_inv contents cx"
    and alive: "\<And>k w. sleep_cells cx k = Some (Waiting w) \<Longrightarrow> alive w cx"
  shows "(\<exists>b cx'. wait_until_next_future_ready pq hs wake cx = Inr (b, cx')) \<or>
    (\<exists>d p. handle_event hs (TimeAdvanced d) (event_handler cx) = Inl p \<and>
       wait_until_next_future_ready pq hs wake cx = Inl p)"
proof (cases "pq_peek pq (upcoming_events cx)")
  case None
  then show ?thesis by (auto simp: wait_until_next_future_ready_def)
next
  case (Some e)
  then obtain k m where e: "pq_peek pq (upcoming_events cx) = Some (k, m)" by (cases e) auto
  note top = peek_top [OF e]
  have m: "now cx < m" "m \<le> instant_max" "sim_time cx = now cx"
    using timers_inv_cell [OF inv, of k] top inv by (auto simp: timers_inv_def dest: cell_ok_queued)
  show ?thesis
  proof (cases "handle_event hs (TimeAdvanced (m - now cx)) (event_handler cx)")
  case (Inl p)
  then show ?thesis
    using e by (auto simp: wait_until_next_future_ready_def Let_def report_event_def duration_since_def)
  next
  case (Inr eh)
  let ?c = "cx\<lparr>event_handler := eh\<rparr>"
  let ?c1 = "?c\<lparr>sim_time := m, now := m\<rparr>"
  have al: "alive w ?c1 = alive w cx" for w by (simp only: alive_time alive_event)
  have "\<exists>w. sleep_cells ?c1 k' = Some (Waiting w) \<and> alive w ?c1" if "due contents ?c1 k'" for k'
  proof -
    from that obtain t where "contents (upcoming_events cx) k' = Some t" by (auto simp: due_def)
    then obtain w where "sleep_cells cx k' = Some (Waiting w)"
      using cell_ok_queued timers_inv_cell [OF inv, of k'] by metis
    then show ?thesis using alive al by auto
  qed
  then obtain cx' where "wake_due pq wake (Suc (pq_len pq (upcoming_events cx))) ?c1 = Inr cx'"
    using wake_due_total [of ?c1 "Suc (pq_len pq (upcoming_events cx))"] by auto
  then show ?thesis
    using e Inr m instant_max_le_duration_max
    by (auto simp: wait_until_next_future_ready_def Let_def report_event_def duration_add_def
        duration_since_def)
  qed
qed

end

section \<open>Properties of sleeps\<close>

text \<open>The deadline that a sleep stands for, wherever it is kept.\<close>

definition deadline_of ::
  "('q \<Rightarrow> nat \<rightharpoonup> instant) \<Rightarrow> ('h, 'q, 'w, 'z) timer_cx_scheme \<Rightarrow> nat \<Rightarrow> instant option" where
  "deadline_of contents cx k =
     (case sleep_cells cx k of
        Some (Init t) \<Rightarrow> Some t
      | Some (Waiting _) \<Rightarrow> contents (upcoming_events cx) k
      | Some (Done t) \<Rightarrow> Some t
      | _ \<Rightarrow> None)"

text \<open>A scheduler with a new sleep, a waiting one and a finished one, at time 10.\<close>

definition example_timers :: "(nat, (nat \<times> instant) list, nat) timer_cx" where
  "example_timers =
     \<lparr>once_set = True, current_node = NodeId 1, pre_next_global_id = 0, sim_time = 10,
      cell = CellFree, event_handler = NoopEventHandler,
      sleep_cells = [0 \<mapsto> Init 9, 1 \<mapsto> Waiting 7, 2 \<mapsto> Done 8], next_cell = 3,
      upcoming_events = [(1, 20)], now = 10\<rparr>"

lemma example_timers_inv: "timers_inv map_of example_timers"
  by (auto simp: timers_inv_def example_timers_def instant_max_def)

lemma sleep_poll_deadline:
  assumes "priority_queue pq contents" and "timers_inv contents cx" and "cell cx = CellFree"
    and "deadline_of contents cx k = Some t"
  shows "\<exists>cx'. sleep_poll pq k w cx = Inr (if t \<le> sim_time cx then Ready t else Pending, cx') \<and>
    (sim_time cx < t \<longrightarrow> sleep_cells cx' k = Some (Waiting w) \<and>
       contents (upcoming_events cx') = (contents (upcoming_events cx))(k \<mapsto> t))"
proof -
  have now: "now cx = sim_time cx" using assms(2) by (simp add: timers_inv_def)
  obtain st where st: "sleep_cells cx k = Some st"
    using assms(4) by (auto simp: deadline_of_def split: option.splits)
  note ok = timers_inv_cell [OF assms(2), of k, unfolded st]
  show ?thesis
    using assms(3,4) st ok now
    by (cases st)
      (auto simp: deadline_of_def sleep_poll_def Let_def with_cx_def
        priority_queue.contents_push [OF assms(1)] fun_upd_idem)
qed

text \<open>
  C16: Polling a sleep returns its deadline if the simulated time has reached it, and otherwise
  leaves it pending with the same deadline, to be woken: in whatever state the sleep is, new,
  waiting or done, and with whatever waker.
\<close>

theorem sleep_ready_iff_deadline_passed:
  assumes "priority_queue pq contents" and "timers_inv contents cx" and "cell cx = CellFree"
    and "deadline_of contents cx k = Some t"
  shows "\<exists>cx'. sleep_poll pq k w cx = Inr (if t \<le> sim_time cx then Ready t else Pending, cx') \<and>
    (sim_time cx < t \<longrightarrow> sleep_cells cx' k = Some (Waiting w) \<and>
       contents (upcoming_events cx') = (contents (upcoming_events cx))(k \<mapsto> t))"
  by (rule sleep_poll_deadline [OF assms])

theorem sleep_ready_iff_deadline_passed_witness:
  "\<exists>cx'. sleep_poll list_pq 1 5 example_timers = Inr (Pending, cx') \<and>
     sleep_cells cx' 1 = Some (Waiting 5)"
  using sleep_ready_iff_deadline_passed
    [OF list_pq.priority_queue_axioms example_timers_inv, of 1 20 5]
  by (auto simp: example_timers_def deadline_of_def)

text \<open>
  A sleep whose deadline has passed when it is first polled is left in the state \<open>Taken\<close>, so
  polling it again is a panic, although polling a sleep again that had to wait is fine.
\<close>

lemma elapsed_sleep_repoll_panics:
  assumes "cell cx = CellFree" and "sleep_cells cx k = Some (Init t)" and "t \<le> now cx"
  shows "(\<exists>cx'. sleep_poll pq k w cx = Inr (Ready t, cx') \<and> sleep_poll pq k w' cx' = Inl Unreachable) \<and>
    (\<forall>j t'. sleep_cells cx j = Some (Done t') \<longrightarrow>
      sleep_poll pq j w cx = Inr (Ready t', cx\<lparr>sleep_cells := (sleep_cells cx)(j \<mapsto> Done t')\<rparr>))"
  using assms by (simp add: sleep_poll_def Let_def with_cx_def)

lemma elapsed_sleep_repoll_panics_example:
  "\<exists>cx'. sleep_poll list_pq 0 5 example_timers = Inr (Ready 9, cx') \<and>
     sleep_poll list_pq 0 6 cx' = Inl Unreachable"
  using elapsed_sleep_repoll_panics [of example_timers 0 9 list_pq 5 6]
  by (simp add: example_timers_def)

text \<open>
  Dropping a sleep takes its entry out of the scheduler's queue and nothing else, so a
  dropped sleep neither wakes anybody nor holds up the end of the simulation; with the context
  borrowed, the drop panics.
\<close>

lemma dropped_sleep_is_forgotten:
  assumes "priority_queue pq contents" and "cell cx = CellFree"
  shows "\<exists>cx'. sleep_drop pq k cx = Inr cx' \<and> deadline_of contents cx' k = None \<and>
    contents (upcoming_events cx') = (contents (upcoming_events cx))(k := None) \<and>
    sleep_cells cx' = (sleep_cells cx)(k := None) \<and>
    sleep_drop pq k (cx\<lparr>cell := CellBorrowed\<rparr>) = Inl BorrowMutError"
  using assms(2)
  by (auto simp: sleep_drop_def with_cx_def deadline_of_def
      priority_queue.contents_remove [OF assms(1)])

lemma dropped_sleep_is_forgotten_example:
  "\<exists>cx'. sleep_drop list_pq 1 example_timers = Inr cx' \<and>
     map_of (upcoming_events cx') = (map_of [(1, 20)])(1 := None)"
  using dropped_sleep_is_forgotten [OF list_pq.priority_queue_axioms, of example_timers 1]
  by (auto simp: example_timers_def)

end
