(* ===== verification/Wakers.thy ===== *)
theory Wakers
  imports Timers
begin

text \<open>
  The part of \<open>src/executor.rs\<close> that can be reached without borrowing the context: the state of a
  task that is shared through \<open>Arc<TaskShared>\<close> between its map entry, its future, its abort
  handles and its wakers, the ready queue, and waking. The \<open>Arc\<close>s live in a store, \<open>arcs\<close>; one is
  allocated per task, so the task's id serves as its address.
\<close>

section \<open>Task states\<close>

definition TASK_COMPLETE_READY :: nat where [simp]: "TASK_COMPLETE_READY = 0"
definition TASK_COMPLETE :: nat where [simp]: "TASK_COMPLETE = 1"
definition TASK_ABORTED_READY :: nat where [simp]: "TASK_ABORTED_READY = 2"
definition TASK_ABORTED :: nat where [simp]: "TASK_ABORTED = 3"
definition TASK_READY :: nat where [simp]: "TASK_READY = 4"
definition TASK_WAITING :: nat where [simp]: "TASK_WAITING = 5"
definition TASK_END :: nat where [simp]: "TASK_END = 6"

record task_shared =
  sh_state :: nat
  sh_id :: id
  sh_node :: node_id

text \<open>\<open>queue: RefCell<Option<ExecutorQueue>>\<close>; each borrow of it ends with its statement.\<close>

record ('h, 'q) task_cx = "('h, 'q, id) timer_cx" +
  arcs :: "id \<rightharpoonup> task_shared"
  queue :: "id list option"

text \<open>\<open>state.store(v, Relaxed)\<close> on an allocated \<open>TaskShared\<close>.\<close>

definition store_state ::
  "id \<Rightarrow> nat \<Rightarrow> ('h, 'q, 'z) task_cx_scheme \<Rightarrow> ('h, 'q, 'z) task_cx_scheme" where
  "store_state p v cx = cx\<lparr>arcs := (arcs cx)(p := map_option (\<lambda>sh. sh\<lparr>sh_state := v\<rparr>) (arcs cx p))\<rparr>"

text \<open>\<open>WakeRef::wake_by_ref\<close>: only a waiting task becomes ready and is queued.\<close>

definition wake_by_ref ::
  "id \<Rightarrow> ('h, 'q, 'z) task_cx_scheme \<Rightarrow> panic + ('h, 'q, 'z) task_cx_scheme" where
  "wake_by_ref p cx =
     (case queue cx of
        None \<Rightarrow> Inl UnwrapNone
      | Some q \<Rightarrow>
          (case arcs cx p of
             None \<Rightarrow> Inl DanglingArc
           | Some sh \<Rightarrow>
               if sh_state sh \<in> {TASK_COMPLETE, TASK_COMPLETE_READY, TASK_ABORTED,
                    TASK_ABORTED_READY, TASK_READY}
               then Inr cx
               else if sh_state sh = TASK_WAITING
               then Inr ((store_state p TASK_READY cx)\<lparr>queue := Some (q @ [sh_id sh])\<rparr>)
               else Inl Unreachable))"

section \<open>Waking, as the scheduler relies on it\<close>

definition waker_alive :: "id \<Rightarrow> ('h, 'q, 'z) task_cx_scheme \<Rightarrow> bool" where
  "waker_alive p cx \<longleftrightarrow>
     queue cx \<noteq> None \<and> (\<exists>sh. arcs cx p = Some sh \<and> sh_state sh < TASK_END)"

lemma store_state_simps [simp]:
  "sleep_cells (store_state p v cx) = sleep_cells cx"
  "upcoming_events (store_state p v cx) = upcoming_events cx"
  "now (store_state p v cx) = now cx"
  "sim_time (store_state p v cx) = sim_time cx"
  "next_cell (store_state p v cx) = next_cell cx"
  "event_handler (store_state p v cx) = event_handler cx"
  "cell (store_state p v cx) = cell cx"
  "once_set (store_state p v cx) = once_set cx"
  "current_node (store_state p v cx) = current_node cx"
  "pre_next_global_id (store_state p v cx) = pre_next_global_id cx"
  "queue (store_state p v cx) = queue cx"
  "arcs (store_state p v cx) =
     (arcs cx)(p := map_option (\<lambda>sh. sh\<lparr>sh_state := v\<rparr>) (arcs cx p))"
  by (simp_all add: store_state_def)

lemma waker_alive_update [simp]:
  "waker_alive p (cx\<lparr>sleep_cells := c\<rparr>) = waker_alive p cx"
  "waker_alive p (cx\<lparr>upcoming_events := e\<rparr>) = waker_alive p cx"
  "waker_alive p (cx\<lparr>sim_time := t\<rparr>) = waker_alive p cx"
  "waker_alive p (cx\<lparr>now := t\<rparr>) = waker_alive p cx"
  "waker_alive p (cx\<lparr>event_handler := eh\<rparr>) = waker_alive p cx"
  by (simp_all add: waker_alive_def)

text \<open>The cases of a wake that returns.\<close>

lemma wake_by_ref_cases:
  assumes "wake_by_ref p cx = Inr cx'"
  obtains (ignored) sh where "arcs cx p = Some sh" "sh_state sh < TASK_WAITING" "cx' = cx"
  | (woken) q sh where "queue cx = Some q" "arcs cx p = Some sh" "sh_state sh = TASK_WAITING"
      "cx' = (store_state p TASK_READY cx)\<lparr>queue := Some (q @ [sh_id sh])\<rparr>"
  using assms by (auto simp: wake_by_ref_def split: option.splits if_splits)

lemma wake_by_ref_frame: "wake_by_ref p cx = Inr cx' \<Longrightarrow> same_timers cx cx'"
  by (auto elim!: wake_by_ref_cases simp: same_timers_def)

lemma wake_by_ref_total: "waker_alive p cx \<Longrightarrow> \<exists>cx'. wake_by_ref p cx = Inr cx'"
  by (auto simp: wake_by_ref_def waker_alive_def)

lemma wake_by_ref_alive: "wake_by_ref v cx = Inr cx' \<Longrightarrow> waker_alive p cx \<Longrightarrow> waker_alive p cx'"
  by (auto elim!: wake_by_ref_cases simp: waker_alive_def)

lemma waker_wake_by_ref:
  assumes "priority_queue pq contents"
  shows "wakers pq contents wake_by_ref waker_alive"
  using assms
  by (intro wakers.intro wakers_axioms.intro)
    (auto intro: wake_by_ref_frame wake_by_ref_total wake_by_ref_alive)

interpretation list_waker: wakers list_pq map_of wake_by_ref waker_alive
  by (rule waker_wake_by_ref) (rule list_pq.priority_queue_axioms)

section \<open>Properties of waking and of time\<close>

text \<open>
  At time 10, two tasks sleep until 20 and one until 30; the first is waiting, the second was made
  ready by something else in the meantime.
\<close>

definition example_sleepers :: "(nat, (nat \<times> instant) list) task_cx" where
  "example_sleepers =
     \<lparr>once_set = True, current_node = NodeId 1, pre_next_global_id = 3, sim_time = 10,
      cell = CellBorrowed, event_handler = RecordingEventHandler [],
      sleep_cells = [0 \<mapsto> Waiting (Id 1), 1 \<mapsto> Waiting (Id 2), 2 \<mapsto> Waiting (Id 3)], next_cell = 3,
      upcoming_events = [(0, 20), (1, 20), (2, 30)], now = 10,
      arcs = [Id 1 \<mapsto> \<lparr>sh_state = TASK_WAITING, sh_id = Id 1, sh_node = NodeId 1\<rparr>,
              Id 2 \<mapsto> \<lparr>sh_state = TASK_READY, sh_id = Id 2, sh_node = NodeId 1\<rparr>,
              Id 3 \<mapsto> \<lparr>sh_state = TASK_WAITING, sh_id = Id 3, sh_node = NodeId 1\<rparr>],
      queue = Some [Id 2]\<rparr>"

lemma example_sleepers_inv: "timers_inv map_of example_sleepers"
  by (auto simp: timers_inv_def example_sleepers_def instant_max_def)

definition example_hasher :: "nat hasher" where
  "example_hasher = \<lparr>hash_default = 0, hash_event = (\<lambda>_ n. n + 1), hash_finish = of_nat\<rparr>"

lemma example_sleepers_wait:
  obtains cx' where
    "wait_until_next_future_ready list_pq example_hasher wake_by_ref example_sleepers = Inr (True, cx')"
    "queue cx' = Some [Id 2, Id 1]"
proof -
  let ?w = "wait_until_next_future_ready list_pq example_hasher wake_by_ref example_sleepers"
  have "case ?w of Inr (b, cx') \<Rightarrow> b \<and> queue cx' = Some [Id 2, Id 1] | Inl _ \<Rightarrow> False"
    by code_simp
  then show ?thesis using that by (auto split: sum.splits)
qed

text \<open>
  Waking a task is idempotent: a second wake of the same task changes nothing, so a task is
  queued once however often it is woken before it runs.
\<close>

lemma wake_is_idempotent:
  assumes "wake_by_ref p cx = Inr cx'"
  shows "wake_by_ref p cx' = Inr cx'"
  using assms
proof (cases rule: wake_by_ref_cases)
  case (ignored sh)
  then show ?thesis using assms by simp
next
  case (woken q sh)
  then show ?thesis by (simp add: wake_by_ref_def)
qed

lemma wake_is_idempotent_example:
  "\<exists>cx'. wake_by_ref (Id 1) example_sleepers = Inr cx' \<and> wake_by_ref (Id 1) cx' = Inr cx'"
proof -
  obtain cx' where "wake_by_ref (Id 1) example_sleepers = Inr cx'"
    by (simp add: wake_by_ref_def example_sleepers_def)
  from wake_is_idempotent [OF this] this show ?thesis by blast
qed

text \<open>
  C10: When the scheduler advances time, it advances to the earliest deadline of all sleeping
  futures, which lies in the future: the simulated time and the scheduler's clock become that
  instant, exactly the sleeps with that deadline are done and leave the queue, and every other
  sleep stays as it was.
\<close>

theorem time_advances_to_next_deadline:
  assumes "priority_queue pq contents" and "timers_inv contents cx"
    and "wait_until_next_future_ready pq hs wake_by_ref cx = Inr (True, cx')"
  shows "\<exists>k m. contents (upcoming_events cx) k = Some m \<and>
    (\<forall>k' t. contents (upcoming_events cx) k' = Some t \<longrightarrow> m \<le> t) \<and>
    sim_time cx < m \<and> sim_time cx' = m \<and> now cx' = m \<and>
    (\<forall>k'. if contents (upcoming_events cx) k' = Some m
       then sleep_cells cx' k' = Some (Done m) \<and> contents (upcoming_events cx') k' = None
       else sleep_cells cx' k' = sleep_cells cx k' \<and>
         contents (upcoming_events cx') k' = contents (upcoming_events cx) k')"
proof -
  have time: "now cx = sim_time cx" using assms(2) by (simp add: timers_inv_def)
  show ?thesis
    by (rule wakers.wait_until_effect [OF waker_wake_by_ref [OF assms(1)] assms(2,3)])
      (auto simp: time)
qed

theorem time_advances_to_next_deadline_witness:
  "\<exists>cx' k m. wait_until_next_future_ready list_pq example_hasher wake_by_ref example_sleepers = Inr (True, cx') \<and>
     map_of [(0 :: nat, 20), (1, 20), (2, 30 :: nat)] k = Some m \<and> sim_time cx' = m"
proof -
  obtain cx' where w:
    "wait_until_next_future_ready list_pq example_hasher wake_by_ref example_sleepers = Inr (True, cx')"
    by (rule example_sleepers_wait)
  have "upcoming_events example_sleepers = [(0, 20), (1, 20), (2, 30)]"
    by (simp add: example_sleepers_def)
  moreover obtain k m where "map_of (upcoming_events example_sleepers) k = Some m" "sim_time cx' = m"
    using time_advances_to_next_deadline [OF list_pq.priority_queue_axioms example_sleepers_inv w]
    by blast
  ultimately show ?thesis using w by metis
qed

text \<open>
  C11: Advancing time cannot fail: with live wakers, the assertions of the scheduler hold, the
  clock does not overflow, and the loop that wakes the due sleeps ends within its bound. A panic
  can come only from the event handler rejecting the event that announces the new time.
\<close>

theorem time_advance_never_panics:
  assumes "priority_queue pq contents" and "timers_inv contents cx"
    and "\<And>k p. sleep_cells cx k = Some (Waiting p) \<Longrightarrow> waker_alive p cx"
    and "wait_until_next_future_ready pq hs wake_by_ref cx = Inl p"
  shows "\<exists>d. handle_event hs (TimeAdvanced d) (event_handler cx) = Inl p"
proof -
  have "(\<exists>b cx'. wait_until_next_future_ready pq hs wake_by_ref cx = Inr (b, cx')) \<or>
    (\<exists>d p. handle_event hs (TimeAdvanced d) (event_handler cx) = Inl p \<and>
       wait_until_next_future_ready pq hs wake_by_ref cx = Inl p)"
    by (rule wakers.wait_until_outcome [OF waker_wake_by_ref [OF assms(1)] assms(2)])
      (rule assms(3))
  then show ?thesis using assms(4) by auto
qed

theorem time_advance_never_panics_witness:
  "\<exists>d. handle_event example_hasher (TimeAdvanced d) (ValidatingEventHandler [] 0) =
     Inl (NoFurtherEvents (TimeAdvanced 10))"
proof -
  let ?cx = "example_sleepers\<lparr>event_handler := ValidatingEventHandler [] 0\<rparr>"
  have "timers_inv map_of ?cx" using example_sleepers_inv by simp
  moreover have "waker_alive p ?cx" if "sleep_cells ?cx k = Some (Waiting p)" for k p
    using that by (auto simp: example_sleepers_def waker_alive_def split: if_splits)
  moreover have "wait_until_next_future_ready list_pq example_hasher wake_by_ref ?cx =
      Inl (NoFurtherEvents (TimeAdvanced 10))"
    by (simp add: wait_until_next_future_ready_def list_pq_def example_sleepers_def
        report_event_def duration_since_def Let_def)
  ultimately show ?thesis
    using time_advance_never_panics [OF list_pq.priority_queue_axioms, of ?cx] by simp
qed

lemma no_longer_waiting:
  assumes "wake_by_ref w cx = Inr cx'"
    and "\<exists>sh. arcs cx p = Some sh \<and> sh_state sh \<noteq> TASK_WAITING"
  shows "\<exists>sh. arcs cx' p = Some sh \<and> sh_state sh \<noteq> TASK_WAITING"
  using assms by (auto elim!: wake_by_ref_cases)

lemma woken_not_waiting:
  assumes "wake_by_ref w cx = Inr cx'"
  shows "\<exists>sh. arcs cx' w = Some sh \<and> sh_state sh \<noteq> TASK_WAITING"
  using assms by (cases rule: wake_by_ref_cases) auto

text \<open>
  C8: No wakeup is lost: when time has advanced, no task that waited for a sleep with the new
  time as its deadline is in the waiting state any more. Each is ready (or was aborted or
  completed before).
\<close>

theorem no_lost_wakeup:
  assumes "priority_queue pq contents" and "timers_inv contents cx"
    and "wait_until_next_future_ready pq hs wake_by_ref cx = Inr (True, cx')"
    and "contents (upcoming_events cx) k = Some (sim_time cx')" and "sleep_cells cx k = Some (Waiting p)"
  shows "\<exists>sh. arcs cx' p = Some sh \<and> sh_state sh \<noteq> TASK_WAITING"
proof -
  note wk = waker_wake_by_ref [OF assms(1)]
  obtain cx1 where start: "sleep_cells cx1 = sleep_cells cx" "upcoming_events cx1 = upcoming_events cx"
    and due: "wake_due pq wake_by_ref (Suc (pq_len pq (upcoming_events cx))) cx1 = Inr cx'"
  proof (rule wakers.wait_until_cases [OF wk assms(3)])
    fix k m eh cx1
    assume "cx1 = cx\<lparr>event_handler := eh, sim_time := sim_time cx + (m - now cx), now := m\<rparr>"
      and "wake_due pq wake_by_ref (Suc (pq_len pq (upcoming_events cx))) cx1 = Inr cx'"
    then show thesis by (intro that) simp_all
  qed simp
  let ?ok = "\<lambda>c. \<exists>sh. arcs c p = Some sh \<and> sh_state sh \<noteq> TASK_WAITING"
  have "sleep_cells cx' k = Some (Waiting p) \<or> ?ok cx'"
  proof (rule wakers.wake_due_induct [OF wk due, where P = "\<lambda>c. sleep_cells c k = Some (Waiting p) \<or> ?ok c"])
    show "sleep_cells cx1 k = Some (Waiting p) \<or> ?ok cx1" using assms(5) start by simp
  next
    fix c k' t q w c1
    assume P: "sleep_cells c k = Some (Waiting p) \<or> ?ok c"
      and k': "sleep_cells c k' = Some (Waiting w)"
      and wake: "wake_by_ref w (c\<lparr>sleep_cells := (sleep_cells c)(k' \<mapsto> Done t), upcoming_events := q\<rparr>) = Inr c1"
    show "sleep_cells c1 k = Some (Waiting p) \<or> ?ok c1"
    proof (cases "?ok c")
      case True
      then show ?thesis using no_longer_waiting [OF wake, of p] by simp
    next
      case False
      then have c: "sleep_cells c k = Some (Waiting p)" using P by blast
      show ?thesis
        using woken_not_waiting [OF wake] wake_by_ref_frame [OF wake] c k'
        by (cases "k' = k") (auto simp: same_timers_def)
    qed
  qed
  moreover have "\<exists>k m. contents (upcoming_events cx) k = Some m \<and> sim_time cx' = m \<and>
      (\<forall>k'. contents (upcoming_events cx) k' = Some m \<longrightarrow> sleep_cells cx' k' = Some (Done m))"
    by (rule wakers.wait_until_effect [OF wk assms(2,3)]) auto
  ultimately show ?thesis using assms(4) by auto
qed

theorem no_lost_wakeup_witness:
  "\<exists>cx' sh. wait_until_next_future_ready list_pq example_hasher wake_by_ref example_sleepers = Inr (True, cx') \<and>
     arcs cx' (Id 1) = Some sh \<and> sh_state sh \<noteq> TASK_WAITING"
proof -
  obtain cx' where w:
    "wait_until_next_future_ready list_pq example_hasher wake_by_ref example_sleepers = Inr (True, cx')"
    "queue cx' = Some [Id 2, Id 1]"
    by (rule example_sleepers_wait)
  have "case wait_until_next_future_ready list_pq example_hasher wake_by_ref example_sleepers of
      Inr (b, c) \<Rightarrow> sim_time c = 20 | Inl _ \<Rightarrow> False"
    by code_simp
  then have "map_of (upcoming_events example_sleepers) 0 = Some (sim_time cx')"
    "sleep_cells example_sleepers 0 = Some (Waiting (Id 1))"
    using w by (simp_all add: example_sleepers_def)
  from no_lost_wakeup [OF list_pq.priority_queue_axioms example_sleepers_inv w(1) this] w(1)
  show ?thesis by blast
qed

end
