(* ===== verification/World.thy ===== *)
theory World
  imports Wakers
begin

text \<open>
  The whole state of a simulation thread: the fields of \<open>SimCxl\<close> (\<open>src/lib.rs\<close>) and \<open>Executor\<close>
  (\<open>src/executor.rs\<close>) that the earlier theories do not need, and, in \<open>ext\<close>, everything that code
  outside of the crate keeps (the heap of the simulated program, the channels of the \<open>futures\<close>
  crate). Its type parameters: \<open>'h\<close> the hasher, \<open>'q\<close> the priority queue, \<open>'f\<close> the futures and \<open>'s\<close>
  the simulators of the simulated program, \<open>'x\<close> the state of outside code.
\<close>

datatype node_run_level = Running | Stopped | FinalStopped

text \<open>The set of a node's tasks is a list without duplicates.\<close>

record node_data =
  run_level :: node_run_level
  node_tasks :: "id list"

text \<open>
  \<open>Task<F>\<close>: the shared state, by its address, the sending half of the one-shot channel for the
  result, by a number that the channel library chose, and the future.
\<close>

record 'f task =
  tk_shared :: id
  tk_snd :: "nat option"
  tk_fut :: 'f

record 'f task_entry =
  te_shared :: id
  te_task :: "'f task option"

type_synonym type_id = string

record ('h, 'q, 'f, 's, 'x) sim = "('h, 'q) task_cx" +
  tasks :: "id \<rightharpoonup> 'f task_entry"
  final_stopped :: bool
  nodes :: "node_data list"
  simulators_by_type :: "type_id \<rightharpoonup> nat"
  simulators :: "'s option list"
  ext :: 'x

text \<open>
  What the crate calls and does not define. \<open>poll_future\<close> polls a future with the waker of a task,
  \<open>drop_future\<close> and \<open>drop_simulator\<close> run destructors, the three \<open>on_\<close> functions are the
  methods of \<open>trait Simulator\<close>: code of the simulated program, which may call back into the crate
  and panic. The \<open>oneshot_\<close> functions are those of \<open>futures::channel::oneshot\<close>, \<open>set_order\<close> is the
  iteration order of a \<open>HashSet\<close>, and \<open>debug_build\<close> tells whether the build has debug assertions
  and overflow checks. \<open>'v\<close> is the type of the results of futures.
\<close>

record ('h, 'q, 'f, 's, 'x, 'v) env =
  debug_build :: bool
  env_hasher :: "'h hasher"
  env_pq :: "'q pq_ops"
  set_order :: "id list \<Rightarrow> id list"
  oneshot_channel :: "'x \<Rightarrow> nat \<times> 'x"
  oneshot_send :: "nat \<Rightarrow> 'v \<Rightarrow> ('h, 'q, 'f, 's, 'x) sim \<Rightarrow> panic + ('h, 'q, 'f, 's, 'x) sim"
  oneshot_drop_sender :: "nat \<Rightarrow> ('h, 'q, 'f, 's, 'x) sim \<Rightarrow> panic + ('h, 'q, 'f, 's, 'x) sim"
  oneshot_poll :: "nat \<Rightarrow> id \<Rightarrow> ('h, 'q, 'f, 's, 'x) sim \<Rightarrow>
    panic + 'v option poll \<times> ('h, 'q, 'f, 's, 'x) sim"
  poll_future :: "id \<Rightarrow> 'f \<Rightarrow> ('h, 'q, 'f, 's, 'x) sim \<Rightarrow>
    panic + ('f \<times> 'v poll) \<times> ('h, 'q, 'f, 's, 'x) sim"
  drop_future :: "'f \<Rightarrow> ('h, 'q, 'f, 's, 'x) sim \<Rightarrow> panic + ('h, 'q, 'f, 's, 'x) sim"
  on_create_node :: "'s \<Rightarrow> ('h, 'q, 'f, 's, 'x) sim \<Rightarrow> panic + 's \<times> ('h, 'q, 'f, 's, 'x) sim"
  on_stop_node :: "'s \<Rightarrow> ('h, 'q, 'f, 's, 'x) sim \<Rightarrow> panic + 's \<times> ('h, 'q, 'f, 's, 'x) sim"
  on_start_node :: "'s \<Rightarrow> ('h, 'q, 'f, 's, 'x) sim \<Rightarrow> panic + 's \<times> ('h, 'q, 'f, 's, 'x) sim"
  drop_simulator :: "'s \<Rightarrow> ('h, 'q, 'f, 's, 'x) sim \<Rightarrow> panic + ('h, 'q, 'f, 's, 'x) sim"

text \<open>\<open>cxl.event_handler.handle_event(ev)\<close> with the hasher of the environment.\<close>

abbreviation report ::
  "('h, 'q, 'f, 's, 'x, 'v) env \<Rightarrow> event \<Rightarrow> ('h, 'q, 'f, 's, 'x) sim \<Rightarrow>
    panic + ('h, 'q, 'f, 's, 'x) sim" where
  "report e \<equiv> report_event (env_hasher e)"

text \<open>Access to a node's record by its id: \<open>nodes[node.to_index()]\<close>.\<close>

definition node_at :: "node_id \<Rightarrow> ('h, 'q, 'f, 's, 'x) sim \<Rightarrow> panic + node_data" where
  "node_at n cx =
     (if to_index n < length (nodes cx) then Inr (nodes cx ! to_index n) else Inl IndexOutOfBounds)"

definition set_node :: "node_id \<Rightarrow> node_data \<Rightarrow> ('h, 'q, 'f, 's, 'x) sim \<Rightarrow> ('h, 'q, 'f, 's, 'x) sim"
where
  "set_node n d cx = cx\<lparr>nodes := (nodes cx)[to_index n := d]\<rparr>"

end
