(* ===== verification/Executor.thy ===== *)
theory Executor
  imports World
begin

text \<open>
  \<open>src/executor.rs\<close>: spawning, polling, aborting and retiring tasks, and the main loop. A function
  that the code runs on a borrowed \<open>SimCxl\<close> is a function on the state that its callers wrap in
  \<open>with_cx\<close>.
\<close>

section \<open>Queue, executor and nodes\<close>

definition none_ready :: "('h, 'q, 'f, 's, 'x) sim \<Rightarrow> panic + bool" where
  "none_ready cx = andThen (unwrap (queue cx)) (\<lambda>q. Inr (q = []))"

definition node_count :: "('h, 'q, 'f, 's, 'x) sim \<Rightarrow> nat" where
  "node_count cx = length (nodes cx)"

text \<open>
  \<open>ExecutorQueue::executor\<close>: the executor of a new simulation, with the initial node running.
  \<open>TimeScheduler::new\<close> starts its clock at \<open>Instant::now()\<close>.
\<close>

definition fresh_executor ::
  "('h, 'q, 'f, 's, 'x, 'v) env \<Rightarrow> instant \<Rightarrow> ('h, 'q, 'f, 's, 'x) sim \<Rightarrow> ('h, 'q, 'f, 's, 'x) sim"
where
  "fresh_executor e real_clock cx =
     cx\<lparr>final_stopped := False, tasks := Map.empty,
        nodes := [\<lparr>run_level = Running, node_tasks = []\<rparr>],
        upcoming_events := pq_new (env_pq e), now := instant_now real_clock cx\<rparr>"

definition push_new_node :: "('h, 'q, 'f, 's, 'x) sim \<Rightarrow> panic + node_id \<times> ('h, 'q, 'f, 's, 'x) sim" where
  "push_new_node cx =
     andThen (from_index (node_count cx)) (\<lambda>n.
     if final_stopped cx then Inl AssertFailed
     else Inr (n, cx\<lparr>nodes := nodes cx @ [\<lparr>run_level = Running, node_tasks = []\<rparr>]\<rparr>))"

section \<open>Spawning\<close>

text \<open>
  A task handle is the receiving half of the result channel, which has the channel's number, and
  the abort handle, a pointer to the shared state.
\<close>

record task_handle =
  handle_result :: nat
  handle_abort :: id

definition insert_task :: "id \<Rightarrow> node_data \<Rightarrow> node_data" where
  "insert_task i d = d\<lparr>node_tasks := List.insert i (node_tasks d)\<rparr>"

definition executor_spawn ::
  "('h, 'q, 'f, 's, 'x, 'v) env \<Rightarrow> node_id \<Rightarrow> 'f \<Rightarrow> ('h, 'q, 'f, 's, 'x) sim \<Rightarrow>
    panic + task_handle \<times> ('h, 'q, 'f, 's, 'x) sim" where
  "executor_spawn e node fut cx =
     andThen (node_at node cx) (\<lambda>d.
     case run_level d of
       Stopped \<Rightarrow> Inl (NodeIsStopped node)
     | FinalStopped \<Rightarrow> Inl (NodeIsStopped node)
     | Running \<Rightarrow>
         let (chan, x) = oneshot_channel e (ext cx) in
         andThen (new_id (debug_build e) (cx\<lparr>ext := x\<rparr>)) (\<lambda>(i, cx).
         let sh = \<lparr>sh_state = TASK_WAITING, sh_id = i, sh_node = node\<rparr>;
             task = \<lparr>tk_shared = i, tk_snd = Some chan, tk_fut = fut\<rparr>;
             entry = \<lparr>te_shared = i, te_task = Some task\<rparr>;
             cx = cx\<lparr>arcs := (arcs cx)(i \<mapsto> sh), tasks := (tasks cx)(i \<mapsto> entry)\<rparr>
         in andThen (node_at node cx) (\<lambda>d.
            andThen (wake_by_ref i (set_node node (insert_task i d) cx)) (\<lambda>cx.
            Inr (\<lparr>handle_result = chan, handle_abort = i\<rparr>, cx)))))"

definition spawn_task_on_node ::
  "('h, 'q, 'f, 's, 'x, 'v) env \<Rightarrow> node_id \<Rightarrow> 'f \<Rightarrow> ('h, 'q, 'f, 's, 'x) sim \<Rightarrow>
    panic + task_handle \<times> ('h, 'q, 'f, 's, 'x) sim" where
  "spawn_task_on_node e node fut =
     with_cx (\<lambda>cx. andThen (report e TaskSpawned cx) (executor_spawn e node fut))"

text \<open>\<open>spawn\<close> and \<open>NodeId::spawn\<close>, whose handle is detached, that is, dropped.\<close>

definition spawn ::
  "('h, 'q, 'f, 's, 'x, 'v) env \<Rightarrow> 'f \<Rightarrow> ('h, 'q, 'f, 's, 'x) sim \<Rightarrow>
    panic + task_handle \<times> ('h, 'q, 'f, 's, 'x) sim" where
  "spawn e fut cx = andThen (cx_current_node cx) (\<lambda>n. spawn_task_on_node e n fut cx)"

section \<open>Dropping and retiring tasks\<close>

text \<open>
  Dropping a \<open>Task\<close> drops its fields in order: the shared state, where nothing happens beyond a
  reference count, the sender if it was not used, the future.
\<close>

definition drop_task ::
  "('h, 'q, 'f, 's, 'x, 'v) env \<Rightarrow> 'f task \<Rightarrow> ('h, 'q, 'f, 's, 'x) sim \<Rightarrow>
    panic + ('h, 'q, 'f, 's, 'x) sim" where
  "drop_task e t cx =
     andThen (case tk_snd t of None \<Rightarrow> Inr cx | Some chan \<Rightarrow> oneshot_drop_sender e chan cx)
       (drop_future e (tk_fut t))"

fun drop_task_option ::
  "('h, 'q, 'f, 's, 'x, 'v) env \<Rightarrow> 'f task option \<Rightarrow> ('h, 'q, 'f, 's, 'x) sim \<Rightarrow>
    panic + ('h, 'q, 'f, 's, 'x) sim" where
  "drop_task_option e None cx = Inr cx"
| "drop_task_option e (Some t) cx = drop_task e t cx"

definition remove_task_entry ::
  "('h, 'q, 'f, 's, 'x, 'v) env \<Rightarrow> id \<Rightarrow> ('h, 'q, 'f, 's, 'x) sim \<Rightarrow>
    panic + ('h, 'q, 'f, 's, 'x) sim" where
  "remove_task_entry e i cx =
     andThen (unwrap (tasks cx i)) (\<lambda>te.
     case arcs cx (te_shared te) of
       None \<Rightarrow> Inl DanglingArc
     | Some sh \<Rightarrow>
         let cx = cx\<lparr>tasks := (tasks cx)(i := None)\<rparr> in
         if debug_build e \<and> sh_id sh \<noteq> i then Inl AssertFailed
         else if te_task te \<noteq> None then Inl AssertFailed
         else andThen (node_at (sh_node sh) cx) (\<lambda>d.
           if debug_build e \<and> i \<notin> set (node_tasks d) then Inl AssertFailed
           else Inr (set_node (sh_node sh) (d\<lparr>node_tasks := remove1 i (node_tasks d)\<rparr>) cx)))"

section \<open>Aborting\<close>

text \<open>\<open>TaskEntry.task.take()\<close> on the entry of task \<open>i\<close>.\<close>

definition take_task ::
  "id \<Rightarrow> 'f task_entry \<Rightarrow> ('h, 'q, 'f, 's, 'x) sim \<Rightarrow> ('h, 'q, 'f, 's, 'x) sim" where
  "take_task i te cx = cx\<lparr>tasks := (tasks cx)(i \<mapsto> te\<lparr>te_task := None\<rparr>)\<rparr>"

definition abort_local ::
  "id \<Rightarrow> ('h, 'q, 'f, 's, 'x) sim \<Rightarrow> panic + 'f task option \<times> ('h, 'q, 'f, 's, 'x) sim" where
  "abort_local i cx =
     andThen (unwrap (queue cx)) (\<lambda>q.
     case tasks cx i of
       None \<Rightarrow> Inr (None, cx)
     | Some te \<Rightarrow>
         (case arcs cx (te_shared te) of
            None \<Rightarrow> Inl DanglingArc
          | Some sh \<Rightarrow>
              if sh_state sh \<in> {TASK_ABORTED, TASK_ABORTED_READY, TASK_COMPLETE, TASK_COMPLETE_READY}
              then Inr (None, cx)
              else if sh_state sh = TASK_READY
              then Inr (te_task te, take_task i te (store_state (te_shared te) TASK_ABORTED_READY cx))
              else if sh_state sh = TASK_WAITING
              then Inr (te_task te,
                take_task i te ((store_state (te_shared te) TASK_ABORTED_READY cx)
                  \<lparr>queue := Some (q @ [i])\<rparr>))
              else Inl Unreachable))"

text \<open>
  \<open>AbortHandle::abort_inner\<close>, behind \<open>AbortHandle::abort\<close>, \<open>TaskHandle::abort\<close> and the drop of an
  \<open>AbortGuard\<close>: in the scope of the task's node, mark the task, then, with the borrow released,
  drop what was in its entry. The arguments of \<open>abort_local\<close> are evaluated from the left, so the
  queue is unwrapped before the context is borrowed.
\<close>

definition abort_inner ::
  "('h, 'q, 'f, 's, 'x, 'v) env \<Rightarrow> id \<Rightarrow> ('h, 'q, 'f, 's, 'x) sim \<Rightarrow>
    panic + unit \<times> ('h, 'q, 'f, 's, 'x) sim" where
  "abort_inner e p cx =
     (case arcs cx p of
        None \<Rightarrow> Inl DanglingArc
      | Some sh \<Rightarrow>
          node_scope (sh_node sh) (\<lambda>cx.
            andThen (unwrap (queue cx)) (\<lambda>_.
            andThen (with_cx (abort_local (sh_id sh)) cx) (\<lambda>(t, cx).
            andThen (drop_task_option e t cx) (\<lambda>cx. Inr ((), cx))))) cx)"

definition task_handle_abort ::
  "('h, 'q, 'f, 's, 'x, 'v) env \<Rightarrow> task_handle \<Rightarrow> ('h, 'q, 'f, 's, 'x) sim \<Rightarrow>
    panic + unit \<times> ('h, 'q, 'f, 's, 'x) sim" where
  "task_handle_abort e h = abort_inner e (handle_abort h)"

datatype abort_guard = AbortGuard id

definition abort_on_drop :: "id \<Rightarrow> abort_guard" where
  "abort_on_drop p = AbortGuard p"

fun abort_guard_drop ::
  "('h, 'q, 'f, 's, 'x, 'v) env \<Rightarrow> abort_guard \<Rightarrow> ('h, 'q, 'f, 's, 'x) sim \<Rightarrow>
    panic + unit \<times> ('h, 'q, 'f, 's, 'x) sim" where
  "abort_guard_drop e (AbortGuard p) = abort_inner e p"

section \<open>Awaiting a task\<close>

text \<open>
  \<open>TaskHandle::poll\<close>: the result of the receiver, where a channel closed without a result is the
  error \<open>TaskAborted\<close>.
\<close>

datatype task_aborted = TaskAborted

fun map_result :: "'v option poll \<Rightarrow> (task_aborted + 'v) poll" where
  "map_result (Ready (Some v)) = Ready (Inr v)"
| "map_result (Ready None) = Ready (Inl TaskAborted)"
| "map_result Pending = Pending"

definition task_handle_poll ::
  "('h, 'q, 'f, 's, 'x, 'v) env \<Rightarrow> task_handle \<Rightarrow> id \<Rightarrow> ('h, 'q, 'f, 's, 'x) sim \<Rightarrow>
    panic + (task_aborted + 'v) poll \<times> ('h, 'q, 'f, 's, 'x) sim" where
  "task_handle_poll e h waker cx =
     andThen (oneshot_poll e (handle_result h) waker cx) (\<lambda>(r, cx). Inr (map_result r, cx))"

section \<open>Running a task\<close>

text \<open>\<open>TaskDyn::run\<close>: poll the future with the task's own waker and send the result, if any.\<close>

definition task_run ::
  "('h, 'q, 'f, 's, 'x, 'v) env \<Rightarrow> 'f task \<Rightarrow> ('h, 'q, 'f, 's, 'x) sim \<Rightarrow>
    panic + ('f task \<times> unit poll) \<times> ('h, 'q, 'f, 's, 'x) sim" where
  "task_run e t cx =
     andThen (poll_future e (tk_shared t) (tk_fut t) cx) (\<lambda>((fut, r), cx).
     case r of
       Ready v \<Rightarrow>
         andThen (unwrap (tk_snd t)) (\<lambda>chan.
         andThen (oneshot_send e chan v cx) (\<lambda>cx.
         Inr ((t\<lparr>tk_snd := None, tk_fut := fut\<rparr>, Ready ()), cx)))
     | Pending \<Rightarrow> Inr ((t\<lparr>tk_fut := fut\<rparr>, Pending), cx))"

text \<open>
  What the loop does with the result, all of it with the context borrowed: the drops of the task
  at the end of both branches included.
\<close>

definition finish_poll ::
  "('h, 'q, 'f, 's, 'x, 'v) env \<Rightarrow> id \<Rightarrow> 'f task \<Rightarrow> unit poll \<Rightarrow> ('h, 'q, 'f, 's, 'x) sim \<Rightarrow>
    panic + unit \<times> ('h, 'q, 'f, 's, 'x) sim" where
  "finish_poll e i t r cx =
     (case arcs cx (tk_shared t) of
        None \<Rightarrow> Inl DanglingArc
      | Some sh \<Rightarrow>
          (case r of
             Pending \<Rightarrow>
               if sh_state sh = TASK_ABORTED_READY
               then andThen (drop_task e t cx) (\<lambda>cx. Inr ((), cx))
               else if sh_state sh \<in> {TASK_WAITING, TASK_READY}
               then andThen (unwrap (tasks cx i)) (\<lambda>te.
                 if te_task te \<noteq> None then Inl AssertFailed
                 else Inr ((), cx\<lparr>tasks := (tasks cx)(i \<mapsto> te\<lparr>te_task := Some t\<rparr>)\<rparr>))
               else Inl Unreachable
           | Ready _ \<Rightarrow>
               andThen
                 (if sh_state sh = TASK_WAITING
                  then remove_task_entry e i (store_state (tk_shared t) TASK_COMPLETE cx)
                  else if sh_state sh \<in> {TASK_READY, TASK_ABORTED_READY}
                  then Inr (store_state (tk_shared t) TASK_COMPLETE_READY cx)
                  else Inl Unreachable)
                 (\<lambda>cx. andThen (drop_task e t cx) (\<lambda>cx. Inr ((), cx)))))"

definition poll_task ::
  "('h, 'q, 'f, 's, 'x, 'v) env \<Rightarrow> 'f task \<Rightarrow> ('h, 'q, 'f, 's, 'x) sim \<Rightarrow>
    panic + unit \<times> ('h, 'q, 'f, 's, 'x) sim" where
  "poll_task e t cx =
     (case arcs cx (tk_shared t) of
        None \<Rightarrow> Inl DanglingArc
      | Some sh \<Rightarrow>
          node_scope (sh_node sh) (\<lambda>cx.
            andThen (task_run e t cx) (\<lambda>((t, r), cx).
            with_cx (finish_poll e (sh_id sh) t r) cx)) cx)"

section \<open>The main loop\<close>

text \<open>
  The inner loop of \<open>run_current_context\<close>, by recursion on the ready queue: entries of finished
  tasks are retired, the first ready task is taken out of its entry to be polled.
\<close>

fun next_ready ::
  "('h, 'q, 'f, 's, 'x, 'v) env \<Rightarrow> id list \<Rightarrow> ('h, 'q, 'f, 's, 'x) sim \<Rightarrow>
    panic + 'f task option \<times> ('h, 'q, 'f, 's, 'x) sim" where
  "next_ready e [] cx = Inr (None, cx)"
| "next_ready e (i # q) cx =
     (let cx = cx\<lparr>queue := Some q\<rparr> in
      andThen (unwrap (tasks cx i)) (\<lambda>te.
      case arcs cx (te_shared te) of
        None \<Rightarrow> Inl DanglingArc
      | Some sh \<Rightarrow>
          if sh_state sh = TASK_READY
          then andThen (unwrap (te_task te)) (\<lambda>t.
            andThen (report e (TaskRun (sh_id sh)) (take_task i te cx)) (\<lambda>cx.
            Inr (Some t, store_state (te_shared te) TASK_WAITING cx)))
          else if sh_state sh \<in> {TASK_COMPLETE_READY, TASK_ABORTED_READY}
          then andThen
            (remove_task_entry e (sh_id sh)
              (store_state (te_shared te)
                (if sh_state sh = TASK_COMPLETE_READY then TASK_COMPLETE else TASK_ABORTED) cx))
            (next_ready e q)
          else Inl Unreachable))"

definition next_task ::
  "('h, 'q, 'f, 's, 'x, 'v) env \<Rightarrow> ('h, 'q, 'f, 's, 'x) sim \<Rightarrow>
    panic + 'f task option \<times> ('h, 'q, 'f, 's, 'x) sim" where
  "next_task e cx =
     (if final_stopped cx then Inr (None, cx)
      else andThen (unwrap (queue cx)) (\<lambda>q. next_ready e q cx))"

text \<open>
  One turn of the outer loop: \<open>True\<close> when the loop goes on, \<open>False\<close> when it ends because no task
  is ready and no sleep is pending.
\<close>

definition loop_turn ::
  "('h, 'q, 'f, 's, 'x, 'v) env \<Rightarrow> ('h, 'q, 'f, 's, 'x) sim \<Rightarrow>
    panic + bool \<times> ('h, 'q, 'f, 's, 'x) sim" where
  "loop_turn e cx =
     andThen (with_cx (next_task e) cx) (\<lambda>(t, cx).
     case t of
       None \<Rightarrow> with_cx (wait_until_next_future_ready (env_pq e) (env_hasher e) wake_by_ref) cx
     | Some t \<Rightarrow> andThen (poll_task e t cx) (\<lambda>(_, cx). Inr (True, cx)))"

text \<open>The loop itself may run forever: \<open>None\<close> is "does not return".\<close>

partial_function (option) run_current_context ::
  "('h, 'q, 'f, 's, 'x, 'v) env \<Rightarrow> ('h, 'q, 'f, 's, 'x) sim \<Rightarrow>
    (panic + ('h, 'q, 'f, 's, 'x) sim) option" where
  "run_current_context e cx =
     (case loop_turn e cx of
        Inl p \<Rightarrow> Some (Inl p)
      | Inr (go_on, cx') \<Rightarrow> if go_on then run_current_context e cx' else Some (Inr cx'))"

declare run_current_context.simps [code]

end
