(* ===== verification/Simulators.thy ===== *)
theory Simulators
  imports Executor
begin

text \<open>
  \<open>src/simulator.rs\<close>: the registry of simulators. The vector holds \<open>None\<close> where a simulator is
  taken out, which is what its exclusive lock is. A \<open>TypeId\<close> is a string.
\<close>

definition add_simulator ::
  "type_id \<Rightarrow> 's \<Rightarrow> ('h, 'q, 'f, 's, 'x) sim \<Rightarrow> panic + unit \<times> ('h, 'q, 'f, 's, 'x) sim" where
  "add_simulator ty s =
     with_cx (\<lambda>cx.
       if \<not> (node_count cx = 1 \<and> \<not> final_stopped cx) then Inl AssertFailed
       else if simulators_by_type cx ty \<noteq> None then Inl AssertFailed
       else Inr ((), cx\<lparr>simulators_by_type := (simulators_by_type cx)(ty \<mapsto> length (simulators cx)),
                        simulators := simulators cx @ [Some s]\<rparr>))"

text \<open>
  \<open>with_simulator_option\<close>: take the simulator out of the vector, run the closure on it with the
  context free, and put it back.
\<close>

definition take_simulator ::
  "type_id \<Rightarrow> ('h, 'q, 'f, 's, 'x) sim \<Rightarrow> panic + (nat \<times> 's) option \<times> ('h, 'q, 'f, 's, 'x) sim"
where
  "take_simulator ty =
     with_cx (\<lambda>cx.
       case simulators_by_type cx ty of
         None \<Rightarrow> Inr (None, cx)
       | Some index \<Rightarrow>
           if length (simulators cx) \<le> index then Inl IndexOutOfBounds
           else (case simulators cx ! index of
               None \<Rightarrow> Inl SimulatorBorrowed
             | Some s \<Rightarrow>
                 Inr (Some (index, s), cx\<lparr>simulators := (simulators cx)[index := None]\<rparr>)))"

definition put_back_simulator ::
  "nat \<Rightarrow> 's \<Rightarrow> ('h, 'q, 'f, 's, 'x) sim \<Rightarrow> panic + unit \<times> ('h, 'q, 'f, 's, 'x) sim" where
  "put_back_simulator index s =
     with_cx (\<lambda>cx.
       if length (simulators cx) \<le> index then Inl IndexOutOfBounds
       else if simulators cx ! index \<noteq> None then Inl AssertFailed
       else Inr ((), cx\<lparr>simulators := (simulators cx)[index := Some s]\<rparr>))"

definition with_simulator_option ::
  "type_id \<Rightarrow>
    ('s option \<Rightarrow> ('h, 'q, 'f, 's, 'x) sim \<Rightarrow> panic + ('a \<times> 's option) \<times> ('h, 'q, 'f, 's, 'x) sim) \<Rightarrow>
    ('h, 'q, 'f, 's, 'x) sim \<Rightarrow> panic + 'a \<times> ('h, 'q, 'f, 's, 'x) sim" where
  "with_simulator_option ty f cx =
     andThen (take_simulator ty cx) (\<lambda>(taken, cx).
     case taken of
       None \<Rightarrow> andThen (f None cx) (\<lambda>((a, _), cx). Inr (a, cx))
     | Some (index, s) \<Rightarrow>
         andThen (f (Some s) cx) (\<lambda>((a, s'), cx).
         andThen (put_back_simulator index (case s' of None \<Rightarrow> s | Some s' \<Rightarrow> s') cx) (\<lambda>(_, cx).
         Inr (a, cx))))"

text \<open>\<open>SimulatorHandle::get\<close>, and \<open>SimulatorHandle::with\<close>, which unwraps the option.\<close>

definition simulator_get ::
  "type_id \<Rightarrow> ('h, 'q, 'f, 's, 'x) sim \<Rightarrow> panic + unit \<times> ('h, 'q, 'f, 's, 'x) sim" where
  "simulator_get ty =
     with_cx (\<lambda>cx. if simulators_by_type cx ty = None then Inl SimulatorMissing else Inr ((), cx))"

definition simulator_with ::
  "type_id \<Rightarrow> ('s \<Rightarrow> ('h, 'q, 'f, 's, 'x) sim \<Rightarrow> panic + ('a \<times> 's) \<times> ('h, 'q, 'f, 's, 'x) sim) \<Rightarrow>
    ('h, 'q, 'f, 's, 'x) sim \<Rightarrow> panic + 'a \<times> ('h, 'q, 'f, 's, 'x) sim" where
  "simulator_with ty f =
     with_simulator_option ty (\<lambda>x cx.
       andThen (unwrap x) (\<lambda>s. andThen (f s cx) (\<lambda>((a, s'), cx). Inr ((a, Some s'), cx))))"

definition with_simulator ::
  "type_id \<Rightarrow> ('s \<Rightarrow> ('h, 'q, 'f, 's, 'x) sim \<Rightarrow> panic + ('a \<times> 's) \<times> ('h, 'q, 'f, 's, 'x) sim) \<Rightarrow>
    ('h, 'q, 'f, 's, 'x) sim \<Rightarrow> panic + 'a \<times> ('h, 'q, 'f, 's, 'x) sim" where
  "with_simulator ty f cx = andThen (simulator_get ty cx) (\<lambda>(_, cx). simulator_with ty f cx)"

text \<open>
  \<open>for_all_simulators\<close>: the local \<open>simulator\<close> of the code is swapped with each slot in turn, the
  callback runs on it with the context free, and it is swapped back.
\<close>

definition swap_simulator ::
  "nat \<Rightarrow> 's option \<Rightarrow> ('h, 'q, 'f, 's, 'x) sim \<Rightarrow> panic + 's option \<times> ('h, 'q, 'f, 's, 'x) sim"
where
  "swap_simulator index s =
     with_cx (\<lambda>cx.
       if length (simulators cx) \<le> index then Inl IndexOutOfBounds
       else Inr (simulators cx ! index, cx\<lparr>simulators := (simulators cx)[index := s]\<rparr>))"

definition visit_simulator ::
  "('s \<Rightarrow> ('h, 'q, 'f, 's, 'x) sim \<Rightarrow> panic + 's \<times> ('h, 'q, 'f, 's, 'x) sim) \<Rightarrow> nat \<Rightarrow>
    's option \<times> ('h, 'q, 'f, 's, 'x) sim \<Rightarrow> panic + 's option \<times> ('h, 'q, 'f, 's, 'x) sim" where
  "visit_simulator f index = (\<lambda>(held, cx).
     andThen (swap_simulator index held cx) (\<lambda>(held, cx).
     case held of
       None \<Rightarrow> Inl SimulatorBorrowed
     | Some s \<Rightarrow>
         andThen (f s cx) (\<lambda>(s', cx). swap_simulator index (Some s') cx)))"

definition for_all_simulators ::
  "bool \<Rightarrow> ('s \<Rightarrow> ('h, 'q, 'f, 's, 'x) sim \<Rightarrow> panic + 's \<times> ('h, 'q, 'f, 's, 'x) sim) \<Rightarrow>
    ('h, 'q, 'f, 's, 'x) sim \<Rightarrow> panic + unit \<times> ('h, 'q, 'f, 's, 'x) sim" where
  "for_all_simulators forward f cx =
     andThen (with_cx (\<lambda>cx. Inr (length (simulators cx), cx)) cx) (\<lambda>(len, cx).
     andThen
       (foldE (visit_simulator f) (map (\<lambda>i. if forward then i else len - 1 - i) [0..<len]) (None, cx))
       (\<lambda>(_, cx).
     with_cx (\<lambda>cx. if length (simulators cx) = len then Inr ((), cx) else Inl AssertFailed) cx))"

end
