(* ===== verification/Nodes.thy ===== *)
theory Nodes
  imports Simulators
begin

text \<open>
  The life cycle of nodes: \<open>NodeId\<close> of \<open>src/node_id.rs\<close> and \<open>stop_node\<close>, \<open>start_node\<close>,
  \<open>stop_simulation\<close> of \<open>src/executor.rs\<close>.
\<close>

text \<open>\<open>NodeId::create_node\<close>.\<close>

definition create_node ::
  "('h, 'q, 'f, 's, 'x, 'v) env \<Rightarrow> ('h, 'q, 'f, 's, 'x) sim \<Rightarrow>
    panic + node_id \<times> ('h, 'q, 'f, 's, 'x) sim" where
  "create_node e cx =
     andThen
       (with_cx (\<lambda>cx.
         andThen (push_new_node cx) (\<lambda>(n, cx).
         andThen (report e (NodeSpawned n) cx) (\<lambda>cx. Inr (n, cx)))) cx) (\<lambda>(n, cx).
     andThen (node_scope n (for_all_simulators True (on_create_node e)) cx) (\<lambda>(_, cx).
     Inr (n, cx)))"

text \<open>\<open>NodeId::all\<close>: the ids of the nodes there are when it is called.\<close>

definition all_nodes :: "('h, 'q, 'f, 's, 'x) sim \<Rightarrow> panic + node_id list \<times> ('h, 'q, 'f, 's, 'x) sim"
where
  "all_nodes cx =
     andThen (with_cx (\<lambda>cx. Inr (node_count cx, cx)) cx) (\<lambda>(n, cx).
     andThen (mapE from_index [0..<n]) (\<lambda>ids. Inr (ids, cx)))"

text \<open>The first closure of \<open>stop_node\<close> and of \<open>start_node\<close>: was the node running?\<close>

definition mark_stopped ::
  "node_id \<Rightarrow> bool \<Rightarrow> ('h, 'q, 'f, 's, 'x) sim \<Rightarrow> panic + bool \<times> ('h, 'q, 'f, 's, 'x) sim" where
  "mark_stopped node is_final cx =
     andThen (node_at node cx) (\<lambda>d.
     case run_level d of
       Running \<Rightarrow>
         Inr (True, set_node node (d\<lparr>run_level := (if is_final then FinalStopped else Stopped)\<rparr>) cx)
     | _ \<Rightarrow>
         Inr (False, if is_final then set_node node (d\<lparr>run_level := FinalStopped\<rparr>) cx else cx))"

definition mark_started ::
  "node_id \<Rightarrow> ('h, 'q, 'f, 's, 'x) sim \<Rightarrow> panic + bool \<times> ('h, 'q, 'f, 's, 'x) sim" where
  "mark_started node cx =
     andThen (node_at node cx) (\<lambda>d.
     case run_level d of
       Running \<Rightarrow> Inr (True, cx)
     | FinalStopped \<Rightarrow> Inl StartWhileShuttingDown
     | Stopped \<Rightarrow> Inr (False, set_node node (d\<lparr>run_level := Running\<rparr>) cx))"

text \<open>Abort one task of the list, dropping it with the context free.\<close>

definition abort_and_drop ::
  "('h, 'q, 'f, 's, 'x, 'v) env \<Rightarrow> id \<Rightarrow> ('h, 'q, 'f, 's, 'x) sim \<Rightarrow>
    panic + ('h, 'q, 'f, 's, 'x) sim" where
  "abort_and_drop e i cx =
     andThen (with_cx (abort_local i) cx) (\<lambda>(t, cx). drop_task_option e t cx)"

definition stop_node ::
  "('h, 'q, 'f, 's, 'x, 'v) env \<Rightarrow> node_id \<Rightarrow> bool \<Rightarrow> ('h, 'q, 'f, 's, 'x) sim \<Rightarrow>
    panic + unit \<times> ('h, 'q, 'f, 's, 'x) sim" where
  "stop_node e node is_final =
     node_scope node (\<lambda>cx.
       andThen (with_cx (mark_stopped node is_final) cx) (\<lambda>(was_running, cx).
       if \<not> was_running then Inr ((), cx)
       else
         andThen
           (with_cx (\<lambda>cx. andThen (node_at node cx) (\<lambda>d. Inr (set_order e (node_tasks d), cx))) cx)
           (\<lambda>(task_ids, cx).
         andThen (foldE (abort_and_drop e) task_ids cx) (\<lambda>cx.
         for_all_simulators False (on_stop_node e) cx))))"

definition start_node ::
  "('h, 'q, 'f, 's, 'x, 'v) env \<Rightarrow> node_id \<Rightarrow> ('h, 'q, 'f, 's, 'x) sim \<Rightarrow>
    panic + unit \<times> ('h, 'q, 'f, 's, 'x) sim" where
  "start_node e node =
     node_scope node (\<lambda>cx.
       andThen (with_cx (mark_started node) cx) (\<lambda>(was_running, cx).
       if was_running then Inr ((), cx)
       else for_all_simulators False (on_start_node e) cx))"

definition stop_simulation ::
  "('h, 'q, 'f, 's, 'x, 'v) env \<Rightarrow> ('h, 'q, 'f, 's, 'x) sim \<Rightarrow>
    panic + unit \<times> ('h, 'q, 'f, 's, 'x) sim" where
  "stop_simulation e cx =
     andThen (with_cx (\<lambda>cx. Inr ((), cx\<lparr>final_stopped := True\<rparr>)) cx) (\<lambda>(_, cx).
     andThen (all_nodes cx) (\<lambda>(ids, cx).
     andThen (foldE (\<lambda>n cx. andThen (stop_node e n True cx) (\<lambda>(_, cx). Inr cx)) ids cx) (\<lambda>cx.
     Inr ((), cx))))"

text \<open>The methods of \<open>NodeId\<close> for these; \<open>spawn\<close> detaches the handle.\<close>

definition node_spawn ::
  "('h, 'q, 'f, 's, 'x, 'v) env \<Rightarrow> node_id \<Rightarrow> 'f \<Rightarrow> ('h, 'q, 'f, 's, 'x) sim \<Rightarrow>
    panic + unit \<times> ('h, 'q, 'f, 's, 'x) sim" where
  "node_spawn e n fut cx = andThen (spawn_task_on_node e n fut cx) (\<lambda>(_, cx). Inr ((), cx))"

definition node_stop ::
  "('h, 'q, 'f, 's, 'x, 'v) env \<Rightarrow> node_id \<Rightarrow> ('h, 'q, 'f, 's, 'x) sim \<Rightarrow>
    panic + unit \<times> ('h, 'q, 'f, 's, 'x) sim" where
  "node_stop e n = stop_node e n False"

definition node_start ::
  "('h, 'q, 'f, 's, 'x, 'v) env \<Rightarrow> node_id \<Rightarrow> ('h, 'q, 'f, 's, 'x) sim \<Rightarrow>
    panic + unit \<times> ('h, 'q, 'f, 's, 'x) sim" where
  "node_start e n = start_node e n"

end
