(* ===== verification/TaskInvariant.thy ===== *)
theory TaskInvariant
  imports Nodes
begin

text \<open>
  The invariant that ties the ready queue, the task map, the shared task states and the nodes'
  task sets together, and its preservation by the executor's operations. \<open>run\<close> is the task
  whose future is being polled, if any: its map entry is empty while the main loop holds it.
\<close>

section \<open>The invariant\<close>

abbreviation ready :: "('h, 'q, 'z) task_cx_scheme \<Rightarrow> id list" where
  "ready cx \<equiv> the (queue cx)"

text \<open>
  An entry of the task map: a ready task is queued and a waiting one is not, and either is in
  its entry unless it is running; an aborted or completed task that still has an entry is
  queued, so that the main loop will retire it, and its future is gone.
\<close>

definition entry_ok :: "id option \<Rightarrow> id list \<Rightarrow> id \<Rightarrow> 'f task_entry \<Rightarrow> nat \<Rightarrow> bool" where
  "entry_ok run q i te st \<longleftrightarrow>
     (st = TASK_READY \<and> i \<in> set q \<or> st = TASK_WAITING \<and> i \<notin> set q) \<and>
       (te_task te = None \<longleftrightarrow> run = Some i) \<and>
       (\<forall>t. te_task te = Some t \<longrightarrow> tk_shared t = i \<and> tk_snd t \<noteq> None)
   \<or> st = TASK_ABORTED_READY \<and> i \<in> set q \<and> te_task te = None
   \<or> st = TASK_COMPLETE_READY \<and> i \<in> set q \<and> te_task te = None \<and> run \<noteq> Some i"

definition task_ok :: "id option \<Rightarrow> ('h, 'q, 'f, 's, 'x) sim \<Rightarrow> id \<Rightarrow> bool" where
  "task_ok run cx i \<longleftrightarrow>
     (case tasks cx i of
        None \<Rightarrow> i \<notin> set (ready cx) \<and> run \<noteq> Some i \<and>
          (\<forall>sh. arcs cx i = Some sh \<longrightarrow> sh_id sh = i \<and> sh_state sh \<in> {TASK_COMPLETE, TASK_ABORTED})
      | Some te \<Rightarrow> te_shared te = i \<and>
          (\<exists>sh. arcs cx i = Some sh \<and> sh_id sh = i \<and> to_index (sh_node sh) < length (nodes cx) \<and>
             entry_ok run (ready cx) i te (sh_state sh)))"

text \<open>Task \<open>i\<close> is in the set of the node with index \<open>k\<close> exactly when it has an entry and runs there.\<close>

definition node_ok :: "('h, 'q, 'f, 's, 'x) sim \<Rightarrow> nat \<Rightarrow> id \<Rightarrow> bool" where
  "node_ok cx k i \<longleftrightarrow>
     (i \<in> set (node_tasks (nodes cx ! k)) \<longleftrightarrow>
       tasks cx i \<noteq> None \<and> (\<exists>sh. arcs cx i = Some sh \<and> to_index (sh_node sh) = k))"

definition exec_inv :: "id option \<Rightarrow> ('h, 'q, 'f, 's, 'x) sim \<Rightarrow> bool" where
  "exec_inv run cx \<longleftrightarrow>
     once_set cx \<and> queue cx \<noteq> None \<and> distinct (ready cx) \<and>
     (\<forall>i. task_ok run cx i) \<and>
     (\<forall>k < length (nodes cx). distinct (node_tasks (nodes cx ! k)) \<and> (\<forall>i. node_ok cx k i)) \<and>
     (\<forall>i. arcs cx i \<noteq> None \<longrightarrow> unat (id_val i) \<le> unat (pre_next_global_id cx)) \<and>
     (\<forall>k p. sleep_cells cx k = Some (Waiting p) \<longrightarrow> arcs cx p \<noteq> None)"

text \<open>Reading it.\<close>

lemma exec_invD:
  assumes "exec_inv run cx"
  shows "once_set cx" and "\<exists>q. queue cx = Some q" and "distinct (ready cx)" and "task_ok run cx i"
    and "k < length (nodes cx) \<Longrightarrow> distinct (node_tasks (nodes cx ! k))"
    and "k < length (nodes cx) \<Longrightarrow> node_ok cx k i"
    and "arcs cx i = Some sh \<Longrightarrow> unat (id_val i) \<le> unat (pre_next_global_id cx)"
    and "sleep_cells cx c = Some (Waiting p) \<Longrightarrow> \<exists>sh. arcs cx p = Some sh"
  using assms by (auto simp: exec_inv_def)

lemma task_ok_entry:
  assumes "task_ok run cx i" and "tasks cx i = Some te"
  obtains sh where "te_shared te = i" "arcs cx i = Some sh" "sh_id sh = i"
    "to_index (sh_node sh) < length (nodes cx)" "entry_ok run (ready cx) i te (sh_state sh)"
  using assms by (auto simp: task_ok_def)

lemma task_ok_no_entry:
  assumes "task_ok run cx i" and "tasks cx i = None"
  shows "i \<notin> set (ready cx)" and "run \<noteq> Some i"
    and "arcs cx i = Some sh \<Longrightarrow> sh_state sh = TASK_COMPLETE \<or> sh_state sh = TASK_ABORTED"
  using assms by (auto simp: task_ok_def)

lemma task_ok_id: "task_ok run cx i \<Longrightarrow> arcs cx i = Some sh \<Longrightarrow> sh_id sh = i"
  by (auto simp: task_ok_def split: option.splits)

lemma entry_ok_states:
  "entry_ok run q i te st \<Longrightarrow> st \<in> {TASK_READY, TASK_WAITING, TASK_ABORTED_READY, TASK_COMPLETE_READY}"
  by (auto simp: entry_ok_def)

lemma waker_alive_exec_inv:
  assumes "exec_inv run cx" and "arcs cx p = Some sh"
  shows "waker_alive p cx"
proof -
  have "sh_state sh < TASK_END"
  proof (cases "tasks cx p")
    case None
    then show ?thesis
      using task_ok_no_entry(3) [OF exec_invD(4) [OF assms(1)] None assms(2)] by auto
  next
    case (Some te)
    obtain sh' where "arcs cx p = Some sh'" "entry_ok run (ready cx) p te (sh_state sh')"
      by (rule task_ok_entry [OF exec_invD(4) [OF assms(1)] Some])
    then show ?thesis using assms(2) entry_ok_states [of run "ready cx" p te "sh_state sh'"] by auto
  qed
  then show ?thesis using assms exec_invD(2) by (fastforce simp: waker_alive_def)
qed

section \<open>Preservation, in general\<close>

text \<open>A step that leaves the executor's fields alone.\<close>

lemma exec_inv_frame:
  assumes "exec_inv run cx"
    and "once_set cx' = once_set cx" "queue cx' = queue cx" "tasks cx' = tasks cx"
      "arcs cx' = arcs cx" "nodes cx' = nodes cx"
    and "unat (pre_next_global_id cx) \<le> unat (pre_next_global_id cx')"
    and "\<And>k p. sleep_cells cx' k = Some (Waiting p) \<Longrightarrow>
      sleep_cells cx k = Some (Waiting p) \<or> arcs cx p \<noteq> None"
  shows "exec_inv run cx'"
proof -
  have "task_ok run cx' = task_ok run cx" "node_ok cx' = node_ok cx"
    using assms(2-6) by (simp_all add: fun_eq_iff task_ok_def node_ok_def cong: option.case_cong)
  moreover have "arcs cx' i \<noteq> None \<Longrightarrow> unat (id_val i) \<le> unat (pre_next_global_id cx')" for i
    using assms(1,5,7) by (fastforce simp: exec_inv_def)
  moreover have "sleep_cells cx' k = Some (Waiting p) \<Longrightarrow> arcs cx' p \<noteq> None" for k p
    using assms(1,5) assms(8) [of k p] by (fastforce simp: exec_inv_def)
  ultimately show ?thesis
    using assms(1-6) unfolding exec_inv_def by auto
qed

lemma exec_inv_updates [simp]:
  "exec_inv run (cx\<lparr>cell := c\<rparr>) = exec_inv run cx"
  "exec_inv run (cx\<lparr>event_handler := eh\<rparr>) = exec_inv run cx"
  "exec_inv run (cx\<lparr>current_node := n\<rparr>) = exec_inv run cx"
  "exec_inv run (cx\<lparr>ext := x\<rparr>) = exec_inv run cx"
  "exec_inv run (cx\<lparr>simulators := s\<rparr>) = exec_inv run cx"
  "exec_inv run (cx\<lparr>simulators_by_type := st\<rparr>) = exec_inv run cx"
  "exec_inv run (cx\<lparr>final_stopped := b\<rparr>) = exec_inv run cx"
  by (simp_all add: exec_inv_def task_ok_def node_ok_def cong: option.case_cong)

text \<open>A step that changes what belongs to one task.\<close>

lemma exec_inv_change:
  assumes inv: "exec_inv run cx"
    and self: "once_set cx'" "queue cx' \<noteq> None" "distinct (ready cx')"
      "length (nodes cx') = length (nodes cx)" "task_ok run' cx' i"
    and others: "\<And>j. j \<noteq> i \<Longrightarrow> tasks cx' j = tasks cx j \<and> arcs cx' j = arcs cx j \<and>
        (j \<in> set (ready cx') \<longleftrightarrow> j \<in> set (ready cx)) \<and> (run' = Some j \<longleftrightarrow> run = Some j)"
    and sets: "\<And>k j. k < length (nodes cx) \<Longrightarrow> j \<noteq> i \<Longrightarrow>
        j \<in> set (node_tasks (nodes cx' ! k)) \<longleftrightarrow> j \<in> set (node_tasks (nodes cx ! k))"
    and set_i: "\<And>k. k < length (nodes cx) \<Longrightarrow>
        distinct (node_tasks (nodes cx' ! k)) \<and> node_ok cx' k i"
    and ids: "arcs cx' i \<noteq> None \<Longrightarrow> unat (id_val i) \<le> unat (pre_next_global_id cx')"
      "unat (pre_next_global_id cx) \<le> unat (pre_next_global_id cx')"
    and cells: "sleep_cells cx' = sleep_cells cx" "arcs cx i \<noteq> None \<Longrightarrow> arcs cx' i \<noteq> None"
  shows "exec_inv run' cx'"
proof -
  have ok: "task_ok run' cx' j" for j
  proof (cases "j = i")
    case False
    then show ?thesis
      using exec_invD(4) [OF inv, of j] others [OF False] self(4)
      by (auto simp: task_ok_def entry_ok_def split: option.splits)
  qed (use self in simp)
  have nok: "node_ok cx' k j" if "k < length (nodes cx)" for k j
  proof (cases "j = i")
    case False
    then show ?thesis
      using exec_invD(6) [OF inv that, of j] others [OF False] sets [OF that False]
      by (auto simp: node_ok_def)
  qed (use set_i that in simp)
  have "unat (id_val j) \<le> unat (pre_next_global_id cx')" if "arcs cx' j \<noteq> None" for j
    using that ids others [of j] exec_invD(7) [OF inv, of j]
    by (cases "j = i") fastforce+
  moreover have "arcs cx' p \<noteq> None" if "sleep_cells cx' k = Some (Waiting p)" for k p
    using that exec_invD(8) [OF inv, of k p] others [of p] cells by (cases "p = i") auto
  ultimately show ?thesis
    using self ok nok set_i unfolding exec_inv_def by auto
qed

section \<open>Preservation by the operations\<close>

lemma node_at_Inr:
  "node_at n cx = Inr d \<longleftrightarrow> to_index n < length (nodes cx) \<and> d = nodes cx ! to_index n"
  by (auto simp: node_at_def)

lemma set_node_simps [simp]:
  "nodes (set_node n d cx) = (nodes cx)[to_index n := d]"
  "tasks (set_node n d cx) = tasks cx"
  "arcs (set_node n d cx) = arcs cx"
  "queue (set_node n d cx) = queue cx"
  "once_set (set_node n d cx) = once_set cx"
  "pre_next_global_id (set_node n d cx) = pre_next_global_id cx"
  "sleep_cells (set_node n d cx) = sleep_cells cx"
  "upcoming_events (set_node n d cx) = upcoming_events cx"
  "next_cell (set_node n d cx) = next_cell cx"
  "now (set_node n d cx) = now cx"
  "sim_time (set_node n d cx) = sim_time cx"
  "event_handler (set_node n d cx) = event_handler cx"
  "cell (set_node n d cx) = cell cx"
  "current_node (set_node n d cx) = current_node cx"
  "final_stopped (set_node n d cx) = final_stopped cx"
  "simulators (set_node n d cx) = simulators cx"
  "simulators_by_type (set_node n d cx) = simulators_by_type cx"
  "ext (set_node n d cx) = ext cx"
  by (simp_all add: set_node_def)

lemma store_state_sim_simps [simp]:
  "tasks (store_state p v cx) = tasks cx"
  "nodes (store_state p v cx) = nodes cx"
  "final_stopped (store_state p v cx) = final_stopped cx"
  "simulators (store_state p v cx) = simulators cx"
  "simulators_by_type (store_state p v cx) = simulators_by_type cx"
  "ext (store_state p v cx) = ext cx"
  by (simp_all add: store_state_def)

lemma take_task_simps [simp]:
  "tasks (take_task i te cx) = (tasks cx)(i \<mapsto> te\<lparr>te_task := None\<rparr>)"
  "nodes (take_task i te cx) = nodes cx"
  "arcs (take_task i te cx) = arcs cx"
  "queue (take_task i te cx) = queue cx"
  "once_set (take_task i te cx) = once_set cx"
  "pre_next_global_id (take_task i te cx) = pre_next_global_id cx"
  "sleep_cells (take_task i te cx) = sleep_cells cx"
  "upcoming_events (take_task i te cx) = upcoming_events cx"
  "next_cell (take_task i te cx) = next_cell cx"
  "now (take_task i te cx) = now cx"
  "sim_time (take_task i te cx) = sim_time cx"
  "event_handler (take_task i te cx) = event_handler cx"
  "cell (take_task i te cx) = cell cx"
  "current_node (take_task i te cx) = current_node cx"
  "final_stopped (take_task i te cx) = final_stopped cx"
  "simulators (take_task i te cx) = simulators cx"
  "simulators_by_type (take_task i te cx) = simulators_by_type cx"
  "ext (take_task i te cx) = ext cx"
  by (simp_all add: take_task_def)

text \<open>Changes of one task that keep its entry and its node.\<close>

lemma exec_inv_change_entry:
  assumes inv: "exec_inv run cx" and te: "tasks cx i = Some te"
    and self: "once_set cx'" "queue cx' \<noteq> None" "distinct (ready cx')" "nodes cx' = nodes cx"
    and i: "tasks cx' i = Some te'" "te_shared te' = i" "arcs cx i = Some sh"
      "arcs cx' i = Some (sh\<lparr>sh_state := st\<rparr>)" "entry_ok run' (ready cx') i te' st"
    and others: "\<And>j. j \<noteq> i \<Longrightarrow> tasks cx' j = tasks cx j \<and> arcs cx' j = arcs cx j \<and>
        (j \<in> set (ready cx') \<longleftrightarrow> j \<in> set (ready cx)) \<and> (run' = Some j \<longleftrightarrow> run = Some j)"
    and rest: "pre_next_global_id cx' = pre_next_global_id cx" "sleep_cells cx' = sleep_cells cx"
  shows "exec_inv run' cx'"
proof -
  obtain sh' where sh': "te_shared te = i" "arcs cx i = Some sh'" "sh_id sh' = i"
    "to_index (sh_node sh') < length (nodes cx)"
    by (rule task_ok_entry [OF exec_invD(4) [OF inv] te])
  show ?thesis
  proof (rule exec_inv_change [OF inv, where cx' = cx' and run' = run' and i = i])
    show "task_ok run' cx' i"
      using i sh' self(4) by (auto simp: task_ok_def)
    show "distinct (node_tasks (nodes cx' ! k)) \<and> node_ok cx' k i"
      if "k < length (nodes cx)" for k
      using exec_invD(5) [OF inv that] exec_invD(6) [OF inv that, of i] i te self(4)
      by (auto simp: node_ok_def)
  qed (use self others rest i exec_invD(7) [OF inv] in auto)
qed

lemma exec_inv_wake:
  assumes inv: "exec_inv run cx" and "wake_by_ref p cx = Inr cx'"
  shows "exec_inv run cx'"
  using assms(2)
proof (cases rule: wake_by_ref_cases)
  case (ignored sh)
  then show ?thesis using inv by simp
next
  case (woken q sh)
  have "tasks cx p \<noteq> None"
    using task_ok_no_entry(3) [OF exec_invD(4) [OF inv] _ woken(2)] woken(3) by auto
  then obtain te where te: "tasks cx p = Some te" by blast
  obtain sh' where sh': "te_shared te = p" "arcs cx p = Some sh'" "sh_id sh' = p"
    "entry_ok run (ready cx) p te (sh_state sh')"
    by (rule task_ok_entry [OF exec_invD(4) [OF inv] te])
  have p: "p \<notin> set q" using sh'(2,4) woken(1-3) by (auto simp: entry_ok_def)
  have e: "entry_ok run (q @ [p]) p te TASK_READY"
    using sh'(2,4) woken(1-3) by (auto simp: entry_ok_def)
  show ?thesis
    by (rule exec_inv_change_entry [OF inv te, where te' = te and st = TASK_READY and sh = sh])
      (use woken sh' p e exec_invD(1,3) [OF inv] te in auto)
qed

lemma abort_local_cases:
  assumes "abort_local i cx = Inr (t, cx')"
  obtains (ignored) "t = None" "cx' = cx"
  | (was_ready) te sh where "tasks cx i = Some te" "arcs cx (te_shared te) = Some sh"
      "sh_state sh = TASK_READY" "t = te_task te"
      "cx' = take_task i te (store_state (te_shared te) TASK_ABORTED_READY cx)"
  | (was_waiting) te sh q where "tasks cx i = Some te" "arcs cx (te_shared te) = Some sh"
      "sh_state sh = TASK_WAITING" "t = te_task te" "queue cx = Some q"
      "cx' = take_task i te ((store_state (te_shared te) TASK_ABORTED_READY cx)\<lparr>queue := Some (q @ [i])\<rparr>)"
proof -
  obtain q where q: "queue cx = Some q" using assms by (auto simp: abort_local_def)
  show ?thesis
  proof (cases "tasks cx i")
    case None
    then show ?thesis using assms q ignored by (auto simp: abort_local_def)
  next
    case (Some te)
    show ?thesis
    proof (cases "arcs cx (te_shared te)")
      case None
      then show ?thesis using assms q Some by (simp add: abort_local_def)
    next
      case a: (Some sh)
      show ?thesis
        using assms q Some a ignored was_ready [OF Some a] was_waiting [OF Some a]
        by (auto simp: abort_local_def split: if_splits)
    qed
  qed
qed

lemma exec_inv_abort_local:
  assumes inv: "exec_inv run cx" and "abort_local i cx = Inr (t, cx')"
  shows "exec_inv run cx'"
  using assms(2)
proof (cases rule: abort_local_cases)
  case ignored
  then show ?thesis using inv by simp
next
  case (was_ready te sh)
  obtain sh' where sh': "te_shared te = i" "arcs cx i = Some sh'" "sh_id sh' = i"
    "entry_ok run (ready cx) i te (sh_state sh')"
    by (rule task_ok_entry [OF exec_invD(4) [OF inv] was_ready(1)])
  have e: "entry_ok run (ready cx) i (te\<lparr>te_task := None\<rparr>) TASK_ABORTED_READY"
    using sh' was_ready by (auto simp: entry_ok_def)
  show ?thesis
    by (rule exec_inv_change_entry [OF inv was_ready(1), where te' = "te\<lparr>te_task := None\<rparr>"
          and st = TASK_ABORTED_READY and sh = sh])
      (use was_ready sh' e exec_invD(1-3) [OF inv] in auto)
next
  case (was_waiting te sh q)
  obtain sh' where sh': "te_shared te = i" "arcs cx i = Some sh'" "sh_id sh' = i"
    "entry_ok run (ready cx) i te (sh_state sh')"
    by (rule task_ok_entry [OF exec_invD(4) [OF inv] was_waiting(1)])
  have e: "entry_ok run (q @ [i]) i (te\<lparr>te_task := None\<rparr>) TASK_ABORTED_READY"
    by (auto simp: entry_ok_def)
  have "i \<notin> set q" using sh' was_waiting by (auto simp: entry_ok_def)
  then show ?thesis
    by (intro exec_inv_change_entry [OF inv was_waiting(1), where te' = "te\<lparr>te_task := None\<rparr>"
          and st = TASK_ABORTED_READY and sh = sh])
      (use was_waiting sh' e exec_invD(1-3) [OF inv] in auto)
qed

text \<open>Spawning: the state just before the wake of the new task satisfies the invariant.\<close>

lemma executor_spawn_cases:
  assumes "executor_spawn e node fut cx = Inr (h, cx')"
  obtains chan x i cx1 d where "to_index node < length (nodes cx)"
    "d = nodes cx ! to_index node" "run_level d = Running"
    "oneshot_channel e (ext cx) = (chan, x)"
    "new_id (debug_build e) (cx\<lparr>ext := x\<rparr>) = Inr (i, cx1)"
    "h = \<lparr>handle_result = chan, handle_abort = i\<rparr>"
    "wake_by_ref i (set_node node (insert_task i d)
      (cx1\<lparr>arcs := (arcs cx1)(i \<mapsto> \<lparr>sh_state = TASK_WAITING, sh_id = i, sh_node = node\<rparr>),
           tasks := (tasks cx1)(i \<mapsto> \<lparr>te_shared = i,
             te_task = Some \<lparr>tk_shared = i, tk_snd = Some chan, tk_fut = fut\<rparr>\<rparr>)\<rparr>)) = Inr cx'"
proof -
  obtain chan x where chan: "oneshot_channel e (ext cx) = (chan, x)"
    by (cases "oneshot_channel e (ext cx)")
  let ?d = "nodes cx ! to_index node"
  have node: "to_index node < length (nodes cx)" "run_level ?d = Running"
    using assms by (auto simp: executor_spawn_def node_at_Inr split: node_run_level.splits)
  then obtain i cx1 where new: "new_id (debug_build e) (cx\<lparr>ext := x\<rparr>) = Inr (i, cx1)"
    using assms chan by (auto simp: executor_spawn_def node_at_Inr Let_def)
  have "nodes cx1 = nodes cx" by (simp add: new_id_wrapping(2) [OF new])
  with node that [OF node(1) refl node(2) chan new] new chan assms show ?thesis
    by (auto simp: executor_spawn_def node_at_Inr Let_def)
qed

lemma fresh_task:
  assumes inv: "exec_inv run cx" and "unat (pre_next_global_id cx) < unat (id_val i)"
  shows "arcs cx i = None" and "tasks cx i = None" and "i \<notin> set (ready cx)"
    and "run \<noteq> Some i" and "k < length (nodes cx) \<Longrightarrow> i \<notin> set (node_tasks (nodes cx ! k))"
proof -
  show a: "arcs cx i = None"
    using exec_invD(7) [OF inv, of i] assms(2) by (cases "arcs cx i") auto
  show t: "tasks cx i = None"
    using exec_invD(4) [OF inv, of i] a by (auto simp: task_ok_def split: option.splits)
  show "i \<notin> set (ready cx)" "run \<noteq> Some i"
    using task_ok_no_entry(1,2) [OF exec_invD(4) [OF inv] t] by auto
  show "k < length (nodes cx) \<Longrightarrow> i \<notin> set (node_tasks (nodes cx ! k))"
    using exec_invD(6) [OF inv, of k i] a by (auto simp: node_ok_def)
qed

lemma exec_inv_spawn:
  assumes inv: "exec_inv run cx" and "executor_spawn e node fut cx = Inr (h, cx')"
  shows "exec_inv run cx'"
  using assms(2)
proof (cases rule: executor_spawn_cases)
  case (1 chan x i cx1 d)
  note new = new_id_wrapping [OF 1(5)]
  have cx1: "cx1 = cx\<lparr>ext := x, pre_next_global_id := id_val i\<rparr>" using new(2) by simp
  have lt: "unat (pre_next_global_id cx) < unat (id_val i)" using new(1) by simp
  note fresh = fresh_task [OF inv lt]
  let ?sh = "\<lparr>sh_state = TASK_WAITING, sh_id = i, sh_node = node\<rparr>"
  let ?te = "\<lparr>te_shared = i, te_task = Some \<lparr>tk_shared = i, tk_snd = Some chan, tk_fut = fut\<rparr>\<rparr>"
  let ?c = "set_node node (insert_task i d)
      (cx1\<lparr>arcs := (arcs cx1)(i \<mapsto> ?sh), tasks := (tasks cx1)(i \<mapsto> ?te)\<rparr>)"
  have "exec_inv run ?c"
  proof (rule exec_inv_change [OF inv, where cx' = ?c and run' = run and i = i])
    show "task_ok run ?c i"
      using 1(1) fresh by (auto simp: task_ok_def entry_ok_def cx1)
    show "distinct (node_tasks (nodes ?c ! k)) \<and> node_ok ?c k i"
      if "k < length (nodes cx)" for k
      using exec_invD(5) [OF inv that] fresh(5) [OF that] 1(1,2) that
      by (auto simp: node_ok_def cx1 insert_task_def nth_list_update List.insert_def)
    show "j \<in> set (node_tasks (nodes ?c ! k)) \<longleftrightarrow> j \<in> set (node_tasks (nodes cx ! k))"
      if "k < length (nodes cx)" "j \<noteq> i" for k j
      using that 1(1,2) by (auto simp: cx1 insert_task_def nth_list_update)
  qed (use exec_invD(1-3) [OF inv] lt in \<open>auto simp: cx1\<close>)
  then show ?thesis using 1(7) by (rule exec_inv_wake)
qed

lemma exec_inv_nodes:
  assumes inv: "exec_inv run cx"
    and "once_set cx' = once_set cx" "queue cx' = queue cx" "tasks cx' = tasks cx"
      "arcs cx' = arcs cx" "sleep_cells cx' = sleep_cells cx"
      "pre_next_global_id cx' = pre_next_global_id cx"
    and "length (nodes cx') = length (nodes cx)"
    and "\<And>k. k < length (nodes cx) \<Longrightarrow> node_tasks (nodes cx' ! k) = node_tasks (nodes cx ! k)"
  shows "exec_inv run cx'"
proof -
  have "task_ok run cx' i = task_ok run cx i" for i
    using assms(3,4,5,8) by (simp add: task_ok_def cong: option.case_cong)
  moreover have "node_ok cx' k i = node_ok cx k i" if "k < length (nodes cx)" for k i
    using assms(4,5) assms(9) [OF that] by (simp add: node_ok_def)
  ultimately show ?thesis
    using assms unfolding exec_inv_def by auto
qed

lemma exec_inv_push_new_node:
  assumes inv: "exec_inv run cx" and "push_new_node cx = Inr (n, cx')"
  shows "exec_inv run cx'"
proof -
  have cx': "cx' = cx\<lparr>nodes := nodes cx @ [\<lparr>run_level = Running, node_tasks = []\<rparr>]\<rparr>"
    using assms(2) by (auto simp: push_new_node_def split: if_splits)
  have t: "task_ok run cx' i" for i
    using exec_invD(4) [OF inv, of i]
    by (auto simp: task_ok_def cx' split: option.splits intro: less_SucI)
  have "to_index (sh_node sh) < length (nodes cx)" if "tasks cx i = Some te" "arcs cx i = Some sh"
    for i te sh
    using task_ok_entry [OF exec_invD(4) [OF inv] that(1)] that(2) by (metis option.inject)
  then have "node_ok cx' k i" if "k < length (nodes cx')" for k i
    using exec_invD(6) [OF inv, of k i] that
    by (fastforce simp: node_ok_def cx' nth_append less_Suc_eq)
  moreover have "distinct (node_tasks (nodes cx' ! k))" if "k < length (nodes cx')" for k
    using exec_invD(5) [OF inv, of k] that by (auto simp: cx' nth_append less_Suc_eq)
  ultimately show ?thesis
    using inv t unfolding exec_inv_def cx' by auto
qed

lemma exec_inv_mark_stopped:
  assumes "exec_inv run cx" and "mark_stopped node final cx = Inr (b, cx')"
  shows "exec_inv run cx'"
  by (rule exec_inv_nodes [OF assms(1)])
    (use assms(2) in \<open>auto simp: mark_stopped_def node_at_Inr nth_list_update
      split: node_run_level.splits if_splits\<close>)

lemma exec_inv_mark_started:
  assumes "exec_inv run cx" and "mark_started node cx = Inr (b, cx')"
  shows "exec_inv run cx'"
  by (rule exec_inv_nodes [OF assms(1)])
    (use assms(2) in \<open>auto simp: mark_started_def node_at_Inr nth_list_update
      split: node_run_level.splits if_splits\<close>)

end
