(* ===== verification/Kernel.thy ===== *)
theory Kernel
  imports TaskInvariant
begin

text \<open>
  Code of the simulated program acts on the runtime through the crate's functions only. This
  theory names the atomic changes those functions make to the state, so that a run of outside
  code is a sequence of such steps, shows that each keeps the invariant, and shows that the
  compound operations (aborting, stopping a node, visiting simulators) are made of them.
\<close>

section \<open>The atomic steps of outside code\<close>

inductive ustep ::
  "('h, 'q, 'f, 's, 'x, 'v) env \<Rightarrow> ('h, 'q, 'f, 's, 'x) sim \<Rightarrow> ('h, 'q, 'f, 's, 'x) sim \<Rightarrow> bool"
  for e :: "('h, 'q, 'f, 's, 'x, 'v) env"
where
  u_ext: "ustep e cx (cx\<lparr>ext := x\<rparr>)"
| u_scope: "ustep e cx (cx\<lparr>current_node := n\<rparr>)"
| u_id: "new_id (debug_build e) cx = Inr (i, cx') \<Longrightarrow> ustep e cx cx'"
| u_id_range: "new_id_range (debug_build e) len cx = Inr (r, cx') \<Longrightarrow>
    unat (pre_next_global_id cx) + unat len < 2 ^ 64 \<Longrightarrow> ustep e cx cx'"
| u_wake: "wake_by_ref p cx = Inr cx' \<Longrightarrow> ustep e cx cx'"
| u_sleep: "deadline \<le> instant_max \<Longrightarrow> sleep_until deadline cx = (k, cx') \<Longrightarrow> ustep e cx cx'"
| u_sleep_poll: "arcs cx p \<noteq> None \<Longrightarrow> sleep_poll (env_pq e) k p cx = Inr (r, cx') \<Longrightarrow> ustep e cx cx'"
| u_sleep_drop: "sleep_drop (env_pq e) k cx = Inr cx' \<Longrightarrow> ustep e cx cx'"
| u_abort: "with_cx (abort_local i) cx = Inr (t, cx') \<Longrightarrow> ustep e cx cx'"
| u_spawn: "spawn_task_on_node e n fut cx = Inr (h, cx') \<Longrightarrow> ustep e cx cx'"
| u_push_node: "with_cx (\<lambda>cx. andThen (push_new_node cx) (\<lambda>(n, cx).
      andThen (report e (NodeSpawned n) cx) (\<lambda>cx. Inr (n, cx)))) cx = Inr (n, cx') \<Longrightarrow> ustep e cx cx'"
| u_stop: "with_cx (mark_stopped n final) cx = Inr (b, cx') \<Longrightarrow> ustep e cx cx'"
| u_start: "with_cx (mark_started n) cx = Inr (b, cx') \<Longrightarrow> ustep e cx cx'"
| u_final: "with_cx (\<lambda>cx. Inr ((), cx\<lparr>final_stopped := True\<rparr>)) cx = Inr (u, cx') \<Longrightarrow> ustep e cx cx'"
| u_simulators: "cell cx = CellFree \<Longrightarrow> ustep e cx (cx\<lparr>simulators := s, simulators_by_type := st\<rparr>)"

abbreviation usteps ::
  "('h, 'q, 'f, 's, 'x, 'v) env \<Rightarrow> ('h, 'q, 'f, 's, 'x) sim \<Rightarrow> ('h, 'q, 'f, 's, 'x) sim \<Rightarrow> bool" where
  "usteps e \<equiv> (ustep e)\<^sup>*\<^sup>*"

section \<open>What outside code may do\<close>

text \<open>
  A call of outside code that returns has made only such steps and has left the node scope it was
  called in, since the only way to change the current node is \<open>node_scope\<close>, which restores it.
\<close>

definition outside_call ::
  "('h, 'q, 'f, 's, 'x, 'v) env \<Rightarrow> ('h, 'q, 'f, 's, 'x) sim \<Rightarrow> ('h, 'q, 'f, 's, 'x) sim \<Rightarrow> bool" where
  "outside_call e cx cx' \<longleftrightarrow> usteps e cx cx' \<and> current_node cx' = current_node cx"

text \<open>
  The contract of the outside code, as an interface: the futures and simulators of the program
  and the channel library act through the crate only, the priority queue and the iteration order
  of sets behave as documented.
\<close>

locale outside_code = priority_queue "env_pq e" contents
  for e :: "('h, 'q, 'f, 's, 'x, 'v) env" and contents :: "'q \<Rightarrow> nat \<rightharpoonup> instant" +
  assumes poll_call: "poll_future e p f cx = Inr (r, cx') \<Longrightarrow> arcs cx p \<noteq> None \<Longrightarrow> outside_call e cx cx'"
    and drop_call: "drop_future e f cx = Inr cx' \<Longrightarrow> outside_call e cx cx'"
    and send_call: "oneshot_send e c v cx = Inr cx' \<Longrightarrow> outside_call e cx cx'"
    and drop_sender_call: "oneshot_drop_sender e c cx = Inr cx' \<Longrightarrow> outside_call e cx cx'"
    and create_call: "on_create_node e s cx = Inr (s', cx') \<Longrightarrow> outside_call e cx cx'"
    and stop_call: "on_stop_node e s cx = Inr (s', cx') \<Longrightarrow> outside_call e cx cx'"
    and start_call: "on_start_node e s cx = Inr (s', cx') \<Longrightarrow> outside_call e cx cx'"
    and drop_simulator_call: "drop_simulator e s cx = Inr cx' \<Longrightarrow> outside_call e cx cx'"
    and set_order_perm: "distinct xs \<Longrightarrow> distinct (set_order e xs) \<and> set (set_order e xs) = set xs"

section \<open>The steps keep the invariants\<close>

definition sim_inv ::
  "('q \<Rightarrow> nat \<rightharpoonup> instant) \<Rightarrow> id option \<Rightarrow> ('h, 'q, 'f, 's, 'x) sim \<Rightarrow> bool" where
  "sim_inv contents run cx \<longleftrightarrow> exec_inv run cx \<and> timers_inv contents cx"

lemma executor_spawn_same:
  "executor_spawn e n fut cx = Inr (h, cx') \<Longrightarrow> same_timers cx cx'"
proof (erule executor_spawn_cases)
  fix chan x i cx1 d
  assume new: "new_id (debug_build e) (cx\<lparr>ext := x\<rparr>) = Inr (i, cx1)"
    and w: "wake_by_ref i (set_node n (insert_task i d)
      (cx1\<lparr>arcs := (arcs cx1)(i \<mapsto> \<lparr>sh_state = TASK_WAITING, sh_id = i, sh_node = n\<rparr>),
           tasks := (tasks cx1)(i \<mapsto> \<lparr>te_shared = i,
             te_task = Some \<lparr>tk_shared = i, tk_snd = Some chan, tk_fut = fut\<rparr>\<rparr>)\<rparr>)) = Inr cx'"
  have "cx1 = cx\<lparr>ext := x, pre_next_global_id := id_val i\<rparr>"
    using new_id_wrapping(2) [OF new] by simp
  then show "same_timers cx cx'"
    using wake_by_ref_frame [OF w] by (simp add: same_timers_def)
qed

lemma abort_local_same: "abort_local i cx = Inr (t, cx') \<Longrightarrow> same_timers cx cx'"
  by (erule abort_local_cases) (auto simp: same_timers_def)

lemma push_new_node_same: "push_new_node cx = Inr (n, cx') \<Longrightarrow> same_timers cx cx'"
  by (auto simp: push_new_node_def same_timers_def split: if_splits)

lemma mark_stopped_same: "mark_stopped n final cx = Inr (b, cx') \<Longrightarrow> same_timers cx cx'"
  by (auto simp: mark_stopped_def node_at_Inr same_timers_def split: node_run_level.splits if_splits)

lemma mark_started_same: "mark_started n cx = Inr (b, cx') \<Longrightarrow> same_timers cx cx'"
  by (auto simp: mark_started_def node_at_Inr same_timers_def split: node_run_level.splits if_splits)

lemma timers_inv_ext [simp]:
  "timers_inv contents (cx\<lparr>ext := x\<rparr>) = timers_inv contents cx"
  "timers_inv contents (cx\<lparr>simulators := s\<rparr>) = timers_inv contents cx"
  "timers_inv contents (cx\<lparr>simulators_by_type := st\<rparr>) = timers_inv contents cx"
  "timers_inv contents (cx\<lparr>final_stopped := b\<rparr>) = timers_inv contents cx"
  by (simp_all add: timers_inv_def)

lemma cell_same [simp]:
  fixes cx :: "('h, 'q, 'f, 's, 'x) sim"
  shows "cell cx = c \<Longrightarrow> cx\<lparr>cell := c\<rparr> = cx"
    "cell cx = c \<Longrightarrow> cx\<lparr>simulators := s, cell := c\<rparr> = cx\<lparr>simulators := s\<rparr>"
  by (rule sim.equality; simp)+

text \<open>A closure run by \<open>with_cx\<close> that keeps an invariant which does not look at the cell.\<close>

lemma with_cx_inv:
  assumes "with_cx f cx = Inr (a, cx')" and "P cx"
    and step: "\<And>cx a cx'. P cx \<Longrightarrow> f cx = Inr (a, cx') \<Longrightarrow> P cx'"
    and cell: "\<And>cx c. P (cx\<lparr>cell := c\<rparr>) = P cx"
  shows "P cx'"
proof -
  obtain cx1 where "f (cx\<lparr>cell := CellBorrowed\<rparr>) = Inr (a, cx1)" "cx' = cx1\<lparr>cell := CellFree\<rparr>"
    using assms(1) by (auto simp: with_cx_Inr)
  then show ?thesis
    using step [of "cx\<lparr>cell := CellBorrowed\<rparr>"] assms(2) by (simp add: cell)
qed

lemma with_cx_cell:
  "with_cx f cx = Inr (a, cx') \<Longrightarrow> cell cx = CellFree \<and> cell cx' = CellFree"
  by (auto simp: with_cx_Inr)

lemma sim_inv_updates [simp]:
  "sim_inv contents run (cx\<lparr>cell := c\<rparr>) = sim_inv contents run cx"
  "sim_inv contents run (cx\<lparr>event_handler := eh\<rparr>) = sim_inv contents run cx"
  "sim_inv contents run (cx\<lparr>current_node := n\<rparr>) = sim_inv contents run cx"
  "sim_inv contents run (cx\<lparr>ext := x\<rparr>) = sim_inv contents run cx"
  "sim_inv contents run (cx\<lparr>simulators := s\<rparr>) = sim_inv contents run cx"
  "sim_inv contents run (cx\<lparr>simulators_by_type := st\<rparr>) = sim_inv contents run cx"
  "sim_inv contents run (cx\<lparr>final_stopped := b\<rparr>) = sim_inv contents run cx"
  by (simp_all add: sim_inv_def)

lemma sim_inv_same:
  "exec_inv run cx' \<Longrightarrow> same_timers cx cx' \<Longrightarrow> sim_inv contents run cx \<Longrightarrow> sim_inv contents run cx'"
  by (simp add: sim_inv_def timers_inv_same)

lemma exec_inv_ids:
  assumes "exec_inv run cx" and "unat (pre_next_global_id cx) \<le> unat n"
  shows "exec_inv run (cx\<lparr>pre_next_global_id := n\<rparr>)"
  by (rule exec_inv_frame [OF assms(1)]) (use assms(2) in auto)

lemma sleep_poll_cell:
  "sleep_poll pq k p cx = Inr (r, cx') \<Longrightarrow> cell cx' = cell cx"
  by (auto simp: sleep_poll_def Let_def with_cx_Inr split: option.splits time_future_state.splits)

lemma sleep_poll_frame:
  fixes cx :: "('h, 'q, 'f, 's, 'x) sim"
  assumes "sleep_poll pq k p cx = Inr (r, cx')"
  shows "once_set cx' = once_set cx" "queue cx' = queue cx" "tasks cx' = tasks cx"
    "arcs cx' = arcs cx" "nodes cx' = nodes cx" "pre_next_global_id cx' = pre_next_global_id cx"
    "j \<noteq> k \<Longrightarrow> sleep_cells cx' j = sleep_cells cx j"
    "sleep_cells cx' k = Some (Waiting q) \<Longrightarrow> q = p"
  using assms
  by (auto simp: sleep_poll_def Let_def with_cx_Inr
      split: option.splits time_future_state.splits if_splits)

lemma sleep_drop_frame:
  fixes cx :: "('h, 'q, 'f, 's, 'x) sim"
  assumes "sleep_drop pq k cx = Inr cx'"
  shows "once_set cx' = once_set cx" "queue cx' = queue cx" "tasks cx' = tasks cx"
    "arcs cx' = arcs cx" "nodes cx' = nodes cx" "pre_next_global_id cx' = pre_next_global_id cx"
    "sleep_cells cx' = (sleep_cells cx)(k := None)" "cell cx = CellFree" "cell cx' = CellFree"
  using assms by (auto simp: sleep_drop_def with_cx_Inr)

text \<open>What outside code cannot undo, whatever it does.\<close>

definition state_step :: "nat \<Rightarrow> nat \<Rightarrow> bool" where
  "state_step a b \<longleftrightarrow> a = b \<or> a \<in> {TASK_WAITING, TASK_READY} \<and> b \<in> {TASK_READY, TASK_ABORTED_READY}"

definition later :: "('h, 'q, 'f, 's, 'x) sim \<Rightarrow> ('h, 'q, 'f, 's, 'x) sim \<Rightarrow> bool" where
  "later cx cx' \<longleftrightarrow>
     cell cx' = cell cx \<and> once_set cx' = once_set cx \<and> sim_time cx' = sim_time cx \<and> now cx' = now cx \<and>
     (final_stopped cx \<longrightarrow> final_stopped cx') \<and>
     (\<forall>q. queue cx = Some q \<longrightarrow> (\<exists>l. queue cx' = Some (q @ l))) \<and>
     (\<forall>p sh. arcs cx p = Some sh \<longrightarrow> (\<exists>st. state_step (sh_state sh) st \<and>
        arcs cx' p = Some (sh\<lparr>sh_state := st\<rparr>))) \<and>
     (\<forall>i te. tasks cx i = Some te \<longrightarrow>
        tasks cx' i = Some te \<or> tasks cx' i = Some (te\<lparr>te_task := None\<rparr>)) \<and>
     length (nodes cx) \<le> length (nodes cx') \<and>
     (final_stopped cx \<longrightarrow> length (nodes cx') = length (nodes cx)) \<and>
     (\<forall>k < length (nodes cx). run_level (nodes cx ! k) = FinalStopped \<longrightarrow>
        nodes cx' ! k = nodes cx ! k)"

lemma state_step_refl [simp]: "state_step a a"
  by (simp add: state_step_def)

lemma state_step_trans: "state_step a b \<Longrightarrow> state_step b c \<Longrightarrow> state_step a c"
  by (auto simp: state_step_def)

lemma task_shared_same [simp]: "sh\<lparr>sh_state := sh_state sh\<rparr> = sh"
  by (cases sh) simp

lemma state_step_stay [simp]: "\<exists>st. state_step (sh_state sh) st \<and> sh = sh\<lparr>sh_state := st\<rparr>"
  by (rule exI [of _ "sh_state sh"]) simp

lemma later_refl [simp]: "later cx cx"
  unfolding later_def by auto

lemma laterD:
  assumes "later cx cx'"
  shows "cell cx' = cell cx" "once_set cx' = once_set cx" "sim_time cx' = sim_time cx"
    "now cx' = now cx" "final_stopped cx \<Longrightarrow> final_stopped cx'"
    "queue cx = Some q \<Longrightarrow> \<exists>l. queue cx' = Some (q @ l)"
    "arcs cx p = Some sh \<Longrightarrow>
      \<exists>st. state_step (sh_state sh) st \<and> arcs cx' p = Some (sh\<lparr>sh_state := st\<rparr>)"
    "tasks cx i = Some te \<Longrightarrow> tasks cx' i = Some te \<or> tasks cx' i = Some (te\<lparr>te_task := None\<rparr>)"
    "length (nodes cx) \<le> length (nodes cx')"
    "k < length (nodes cx) \<Longrightarrow> run_level (nodes cx ! k) = FinalStopped \<Longrightarrow>
      nodes cx' ! k = nodes cx ! k"
    "final_stopped cx \<Longrightarrow> length (nodes cx') = length (nodes cx)"
  using assms unfolding later_def by blast+

lemma later_trans:
  assumes ab: "later a b" and bc: "later b c"
  shows "later a c"
proof -
  have q: "\<exists>l. queue c = Some (q @ l)" if q: "queue a = Some q" for q
  proof -
    obtain l where "queue b = Some (q @ l)" using laterD(6) [OF ab q] by blast
    then show ?thesis using laterD(6) [OF bc] by fastforce
  qed
  have s: "\<exists>st. state_step (sh_state sh) st \<and> arcs c p = Some (sh\<lparr>sh_state := st\<rparr>)"
    if sh: "arcs a p = Some sh" for p sh
  proof -
    obtain st where st: "state_step (sh_state sh) st" "arcs b p = Some (sh\<lparr>sh_state := st\<rparr>)"
      using laterD(7) [OF ab sh] by blast
    obtain st' where "state_step st st'" "arcs c p = Some (sh\<lparr>sh_state := st\<rparr>\<lparr>sh_state := st'\<rparr>)"
      using laterD(7) [OF bc st(2)] by auto
    then show ?thesis using st(1) state_step_trans by fastforce
  qed
  have t: "tasks c i = Some te \<or> tasks c i = Some (te\<lparr>te_task := None\<rparr>)"
    if te: "tasks a i = Some te" for i te
    using laterD(8) [OF ab te] laterD(8) [OF bc] by fastforce
  have n: "nodes c ! k = nodes a ! k"
    if "k < length (nodes a)" "run_level (nodes a ! k) = FinalStopped" for k
    using laterD(10) [OF ab that] laterD(10) [OF bc, of k] laterD(9) [OF ab] that by simp
  show ?thesis
    unfolding later_def
    using laterD(1-5,9,11) [OF ab] laterD(1-5,9,11) [OF bc] q s t n by simp
qed

text \<open>The parts of \<open>later\<close> that a step leaves alone.\<close>

lemma later_frame:
  assumes "cell cx' = cell cx" "once_set cx' = once_set cx" "sim_time cx' = sim_time cx"
    "now cx' = now cx" "queue cx' = queue cx" "arcs cx' = arcs cx" "tasks cx' = tasks cx"
    "nodes cx' = nodes cx" "final_stopped cx \<Longrightarrow> final_stopped cx'"
  shows "later cx cx'"
  using later_refl [of cx] assms unfolding later_def by simp

lemma later_with_cx:
  assumes "with_cx f cx = Inr (a, cx')"
    and "\<And>cx1. f (cx\<lparr>cell := CellBorrowed\<rparr>) = Inr (a, cx1) \<Longrightarrow> later (cx\<lparr>cell := CellBorrowed\<rparr>) cx1"
  shows "later cx cx'"
proof -
  obtain cx1 where f: "cell cx = CellFree" "f (cx\<lparr>cell := CellBorrowed\<rparr>) = Inr (a, cx1)"
    and cx': "cx' = cx1\<lparr>cell := CellFree\<rparr>"
    using assms(1) by (auto simp: with_cx_Inr)
  show ?thesis
    using assms(2) [OF f(2)] f(1) unfolding later_def cx' by simp
qed

lemma sleep_poll_rest:
  fixes cx :: "('h, 'q, 'f, 's, 'x) sim"
  assumes "sleep_poll pq k p cx = Inr (r, cx')"
  shows "final_stopped cx' = final_stopped cx" "now cx' = now cx" "sim_time cx' = sim_time cx"
    "current_node cx' = current_node cx" "simulators cx' = simulators cx"
    "simulators_by_type cx' = simulators_by_type cx" "ext cx' = ext cx"
    "event_handler cx' = event_handler cx"
  using assms
  by (auto simp: sleep_poll_def Let_def with_cx_Inr
      split: option.splits time_future_state.splits if_splits)

lemma sleep_drop_rest:
  fixes cx :: "('h, 'q, 'f, 's, 'x) sim"
  assumes "sleep_drop pq k cx = Inr cx'"
  shows "final_stopped cx' = final_stopped cx" "now cx' = now cx" "sim_time cx' = sim_time cx"
    "current_node cx' = current_node cx" "simulators cx' = simulators cx"
    "simulators_by_type cx' = simulators_by_type cx" "ext cx' = ext cx"
    "event_handler cx' = event_handler cx"
  using assms by (auto simp: sleep_drop_def with_cx_Inr)

section \<open>Every step is a later state and keeps the invariants\<close>

lemma later_wake: "wake_by_ref p cx = Inr cx' \<Longrightarrow> later cx cx'"
proof (erule wake_by_ref_cases)
  fix q sh
  assume "queue cx = Some q" "arcs cx p = Some sh" "sh_state sh = TASK_WAITING"
    "cx' = (store_state p TASK_READY cx)\<lparr>queue := Some (q @ [sh_id sh])\<rparr>"
  then show "later cx cx'"
    using later_refl [of cx] by (fastforce simp: later_def state_step_def)
qed simp

lemma later_abort_local: "abort_local i cx = Inr (t, cx') \<Longrightarrow> later cx cx'"
proof (erule abort_local_cases)
  fix te sh
  assume "tasks cx i = Some te" "arcs cx (te_shared te) = Some sh" "sh_state sh = TASK_READY"
    "cx' = take_task i te (store_state (te_shared te) TASK_ABORTED_READY cx)"
  then show "later cx cx'"
    using later_refl [of cx] by (fastforce simp: later_def state_step_def)
next
  fix te sh q
  assume "tasks cx i = Some te" "arcs cx (te_shared te) = Some sh" "sh_state sh = TASK_WAITING"
    "queue cx = Some q" "cx' = take_task i te
      ((store_state (te_shared te) TASK_ABORTED_READY cx)\<lparr>queue := Some (q @ [i])\<rparr>)"
  then show "later cx cx'"
    using later_refl [of cx] by (fastforce simp: later_def state_step_def)
qed simp

lemma later_spawn:
  assumes inv: "exec_inv run cx" and "executor_spawn e node fut cx = Inr (h, cx')"
  shows "later cx cx'"
  using assms(2)
proof (cases rule: executor_spawn_cases)
  case (1 chan x i cx1 d)
  note new = new_id_wrapping [OF 1(5)]
  have cx1: "cx1 = cx\<lparr>ext := x, pre_next_global_id := id_val i\<rparr>" using new(2) by simp
  have lt: "unat (pre_next_global_id cx) < unat (id_val i)" using new(1) by simp
  note fresh = fresh_task [OF inv lt]
  let ?c = "set_node node (insert_task i d)
      (cx1\<lparr>arcs := (arcs cx1)(i \<mapsto> \<lparr>sh_state = TASK_WAITING, sh_id = i, sh_node = node\<rparr>),
           tasks := (tasks cx1)(i \<mapsto> \<lparr>te_shared = i,
             te_task = Some \<lparr>tk_shared = i, tk_snd = Some chan, tk_fut = fut\<rparr>\<rparr>)\<rparr>)"
  have a: "p \<noteq> i" if "arcs cx p = Some sh" for p sh using fresh(1) that by auto
  have t: "j \<noteq> i" if "tasks cx j = Some te" for j te using fresh(2) that by auto
  have n: "nodes ?c ! k = nodes cx ! k"
    if "k < length (nodes cx)" "run_level (nodes cx ! k) = FinalStopped" for k
    using that 1(1-3) by (auto simp: cx1 nth_list_update)
  have "later cx ?c"
    using later_refl [of cx] n a t unfolding later_def by (simp add: cx1)
  then show ?thesis using later_wake [OF 1(7)] later_trans by blast
qed

lemma later_push_new_node: "push_new_node cx = Inr (n, cx') \<Longrightarrow> later cx cx'"
  using later_refl [of cx]
  by (auto simp: push_new_node_def later_def nth_append split: if_splits)

lemma later_mark_stopped: "mark_stopped n final cx = Inr (b, cx') \<Longrightarrow> later cx cx'"
  using later_refl [of cx]
  by (auto simp: mark_stopped_def node_at_Inr later_def nth_list_update
      split: node_run_level.splits if_splits)

lemma later_mark_started: "mark_started n cx = Inr (b, cx') \<Longrightarrow> later cx cx'"
  using later_refl [of cx]
  by (auto simp: mark_started_def node_at_Inr later_def nth_list_update
      split: node_run_level.splits if_splits)

lemma later_event: "later (cx\<lparr>event_handler := eh\<rparr>) cx' = later cx cx'"
  by (simp add: later_def)

text \<open>The invariant and what cannot be undone, of a closure that \<open>with_cx\<close> runs.\<close>

lemma with_cx_step:
  assumes "with_cx f cx = Inr (a, cx')" and "sim_inv contents run cx"
    and step: "\<And>c a c'. sim_inv contents run c \<Longrightarrow> f c = Inr (a, c') \<Longrightarrow>
      sim_inv contents run c' \<and> later c c'"
  shows "sim_inv contents run cx' \<and> later cx cx'"
proof -
  obtain cx1 where f: "cell cx = CellFree" "f (cx\<lparr>cell := CellBorrowed\<rparr>) = Inr (a, cx1)"
    and cx': "cx' = cx1\<lparr>cell := CellFree\<rparr>"
    using assms(1) by (auto simp: with_cx_Inr)
  have "sim_inv contents run cx1 \<and> later (cx\<lparr>cell := CellBorrowed\<rparr>) cx1"
    by (rule step [OF _ f(2)]) (simp add: assms(2))
  then show ?thesis using later_with_cx [OF assms(1)] f(2) cx' by simp
qed

lemma spawn_closure:
  assumes "sim_inv contents run cx"
    and "andThen (report e TaskSpawned cx) (executor_spawn e n fut) = Inr (h, cx')"
  shows "sim_inv contents run cx' \<and> later cx cx'"
proof -
  obtain eh where "executor_spawn e n fut (cx\<lparr>event_handler := eh\<rparr>) = Inr (h, cx')"
    using assms(2) by (auto simp: report_event_Inr)
  moreover have "sim_inv contents run (cx\<lparr>event_handler := eh\<rparr>)" using assms(1) by simp
  ultimately show ?thesis
    using exec_inv_spawn executor_spawn_same sim_inv_same later_spawn later_event
    unfolding sim_inv_def by metis
qed

lemma push_node_closure:
  assumes "sim_inv contents run cx"
    and "andThen (push_new_node cx) (\<lambda>(n, cx).
      andThen (report e (NodeSpawned n) cx) (\<lambda>cx. Inr (n, cx))) = Inr (m, cx')"
  shows "sim_inv contents run cx' \<and> later cx cx'"
proof -
  obtain cx1 eh where c: "push_new_node cx = Inr (m, cx1)" "cx' = cx1\<lparr>event_handler := eh\<rparr>"
    using assms(2) by (auto simp: report_event_Inr)
  have "sim_inv contents run cx1"
    by (rule sim_inv_same [OF exec_inv_push_new_node [OF _ c(1)] push_new_node_same [OF c(1)] assms(1)])
      (use assms(1) in \<open>simp add: sim_inv_def\<close>)
  then show ?thesis
    using later_push_new_node [OF c(1)] c(2) by (simp add: later_def)
qed

context outside_code
begin

lemma ustep_inv:
  assumes "ustep e cx cx'" and inv: "sim_inv contents run cx"
  shows "sim_inv contents run cx' \<and> later cx cx'"
proof -
  note i = inv [unfolded sim_inv_def] and D = sim_inv_def
  show ?thesis
    using assms(1)
  proof cases
    case (u_ext x)
    then show ?thesis using inv by (simp add: later_frame)
  next
    case (u_scope n)
    then show ?thesis using inv by (simp add: later_frame)
  next
    case (u_id j)
    note new = new_id_wrapping [OF u_id(1)]
    show ?thesis
      using i new by (auto simp: D exec_inv_ids new(2) intro!: later_frame)
  next
    case (u_id_range len r)
    note new = new_id_range_checked [OF new_id_range_unwrapped [OF u_id_range]]
    show ?thesis
      using i new by (auto simp: D exec_inv_ids intro!: later_frame)
  next
    case (u_wake p)
    then show ?thesis
      using i exec_inv_wake later_wake wake_by_ref_frame timers_inv_same unfolding D by metis
  next
    case (u_sleep deadline k)
    have "exec_inv run cx'"
      by (rule exec_inv_frame [OF conjunct1 [OF i]])
        (use u_sleep(2) in \<open>auto simp: sleep_until_def split: if_splits\<close>)
    moreover have "later cx cx'"
      by (rule later_frame) (use u_sleep(2) in \<open>auto simp: sleep_until_def\<close>)
    ultimately show ?thesis
      using i timers_inv_sleep_until [OF _ u_sleep] by (simp add: D)
  next
    case (u_sleep_poll p k r)
    note fr = sleep_poll_frame [OF u_sleep_poll(2)]
    have "sleep_cells cx' j = Some (Waiting q) \<Longrightarrow>
        sleep_cells cx j = Some (Waiting q) \<or> arcs cx q \<noteq> None" for j q
      using fr(7,8) u_sleep_poll(1) by (cases "j = k") auto
    then have "exec_inv run cx'"
      by (intro exec_inv_frame [OF conjunct1 [OF i]]) (use fr in auto)
    moreover have "later cx cx'"
      using sleep_poll_cell [OF u_sleep_poll(2)] sleep_poll_rest [OF u_sleep_poll(2)] fr(1-6)
      by (intro later_frame) auto
    ultimately show ?thesis
      using i timers_inv_sleep_poll [OF _ u_sleep_poll(2)] by (simp add: D)
  next
    case (u_sleep_drop k)
    note fr = sleep_drop_frame [OF u_sleep_drop]
    have "exec_inv run cx'"
      by (rule exec_inv_frame [OF conjunct1 [OF i]]) (use fr in \<open>auto split: if_splits\<close>)
    moreover have "later cx cx'"
      using sleep_drop_rest [OF u_sleep_drop] fr by (intro later_frame) auto
    ultimately show ?thesis
      using i timers_inv_sleep_drop [OF _ u_sleep_drop] by (simp add: D)
  next
    case (u_abort j t)
    show ?thesis
      by (rule with_cx_step [OF u_abort inv])
        (use exec_inv_abort_local abort_local_same later_abort_local sim_inv_same D in metis)
  next
    case (u_spawn n fut h)
    show ?thesis
      by (rule with_cx_step [OF u_spawn [unfolded spawn_task_on_node_def] inv])
        (rule spawn_closure)
  next
    case (u_push_node n)
    show ?thesis
      by (rule with_cx_step [OF u_push_node inv]) (rule push_node_closure)
  next
    case (u_stop n final b)
    show ?thesis
      by (rule with_cx_step [OF u_stop inv])
        (use exec_inv_mark_stopped mark_stopped_same later_mark_stopped sim_inv_same D in metis)
  next
    case (u_start n b)
    show ?thesis
      by (rule with_cx_step [OF u_start inv])
        (use exec_inv_mark_started mark_started_same later_mark_started sim_inv_same D in metis)
  next
    case (u_final u)
    show ?thesis
      by (rule with_cx_step [OF u_final inv]) (auto intro: later_frame)
  next
    case (u_simulators s st)
    then show ?thesis using inv by (simp add: later_frame)
  qed
qed

lemma usteps_inv:
  assumes "usteps e cx cx'" and "sim_inv contents run cx"
  shows "sim_inv contents run cx' \<and> later cx cx'"
  using assms
proof (induction rule: rtranclp_induct)
  case (step b c)
  then show ?case using ustep_inv later_trans by blast
qed simp

lemma outside_call_inv:
  assumes "outside_call e cx cx'" and "sim_inv contents run cx"
  shows "sim_inv contents run cx'" and "later cx cx'" and "current_node cx' = current_node cx"
  using assms usteps_inv unfolding outside_call_def by blast+

end

end
