(* ===== verification/Compound.thy ===== *)
theory Compound
  imports Kernel
begin

text \<open>
  The crate's compound operations (dropping a task, aborting, visiting the simulators, creating,
  stopping and starting nodes, stopping the simulation) are runs of the atomic steps when the
  code of the simulated program that they call is. So outside code may call them as well, and
  everything that is proved of \<open>outside_call\<close> holds of them.
\<close>

section \<open>Spawning, in full\<close>

text \<open>The state after a spawn, spelled out.\<close>

lemma spawned_state:
  fixes cx :: "('h, 'q, 'f, 's, 'x) sim"
  assumes free: "cell cx = CellFree"
  shows "(store_state i TASK_READY (set_node node (insert_task i d)
        (cx\<lparr>cell := CellBorrowed, event_handler := eh, ext := x, pre_next_global_id := n,
           arcs := (arcs cx)(i \<mapsto> \<lparr>sh_state = TASK_WAITING, sh_id = i, sh_node = node\<rparr>),
           tasks := (tasks cx)(i \<mapsto> te)\<rparr>)))\<lparr>queue := Some q, cell := CellFree\<rparr> =
    cx\<lparr>pre_next_global_id := n, event_handler := eh,
       arcs := (arcs cx)(i \<mapsto> \<lparr>sh_state = TASK_READY, sh_id = i, sh_node = node\<rparr>),
       queue := Some q, tasks := (tasks cx)(i \<mapsto> te),
       nodes := (nodes cx)[to_index node := insert_task i d], ext := x\<rparr>"
  by (rule sim.equality, simp_all only: store_state_def set_node_def) (use free in simp_all)

lemma spawn_task_effect:
  assumes "spawn_task_on_node e node fut cx = Inr (h, cx')"
  obtains chan x i eh q where "cell cx = CellFree" "queue cx = Some q"
    "to_index node < length (nodes cx)" "run_level (nodes cx ! to_index node) = Running"
    "oneshot_channel e (ext cx) = (chan, x)" "unat (id_val i) = Suc (unat (pre_next_global_id cx))"
    "handle_event (env_hasher e) TaskSpawned (event_handler cx) = Inr eh"
    "h = \<lparr>handle_result = chan, handle_abort = i\<rparr>"
    "cx' = cx\<lparr>pre_next_global_id := id_val i, event_handler := eh,
       arcs := (arcs cx)(i \<mapsto> \<lparr>sh_state = TASK_READY, sh_id = i, sh_node = node\<rparr>),
       queue := Some (q @ [i]),
       tasks := (tasks cx)(i \<mapsto> \<lparr>te_shared = i,
         te_task = Some \<lparr>tk_shared = i, tk_snd = Some chan, tk_fut = fut\<rparr>\<rparr>),
       nodes := (nodes cx)[to_index node := insert_task i (nodes cx ! to_index node)], ext := x\<rparr>"
proof -
  obtain eh cx0 where free: "cell cx = CellFree"
    and eh: "handle_event (env_hasher e) TaskSpawned (event_handler cx) = Inr eh"
    and sp: "executor_spawn e node fut (cx\<lparr>cell := CellBorrowed, event_handler := eh\<rparr>) = Inr (h, cx0)"
    and cx': "cx' = cx0\<lparr>cell := CellFree\<rparr>"
    using assms by (auto simp: spawn_task_on_node_def with_cx_Inr report_event_Inr)
  from sp show ?thesis
  proof (cases rule: executor_spawn_cases)
    case (1 chan x i cx1 d)
    note new = new_id_wrapping [OF 1(5)]
    have cx1: "cx1 = cx\<lparr>cell := CellBorrowed, event_handler := eh, ext := x, pre_next_global_id := id_val i\<rparr>"
      using new(2) by simp
    have same: "arcs cx1 = arcs cx" "tasks cx1 = tasks cx" "queue cx1 = queue cx" "d = nodes cx ! to_index node"
      using 1(2) by (simp_all add: cx1)
    from 1(7) obtain q where q: "queue cx = Some q"
      and cx0: "cx0 = (store_state i TASK_READY (set_node node (insert_task i d)
        (cx1\<lparr>arcs := (arcs cx1)(i \<mapsto> \<lparr>sh_state = TASK_WAITING, sh_id = i, sh_node = node\<rparr>),
           tasks := (tasks cx1)(i \<mapsto> \<lparr>te_shared = i,
             te_task = Some \<lparr>tk_shared = i, tk_snd = Some chan, tk_fut = fut\<rparr>\<rparr>)\<rparr>)))
        \<lparr>queue := Some (q @ [i])\<rparr>"
      by (auto elim!: wake_by_ref_cases simp: same)
    have final: "cx' = cx\<lparr>pre_next_global_id := id_val i, event_handler := eh,
       arcs := (arcs cx)(i \<mapsto> \<lparr>sh_state = TASK_READY, sh_id = i, sh_node = node\<rparr>),
       queue := Some (q @ [i]),
       tasks := (tasks cx)(i \<mapsto> \<lparr>te_shared = i,
         te_task = Some \<lparr>tk_shared = i, tk_snd = Some chan, tk_fut = fut\<rparr>\<rparr>),
       nodes := (nodes cx)[to_index node := insert_task i (nodes cx ! to_index node)], ext := x\<rparr>"
      unfolding cx' cx0 same unfolding cx1 by (rule spawned_state [OF free])
    have "to_index node < length (nodes cx)" "run_level (nodes cx ! to_index node) = Running"
      "oneshot_channel e (ext cx) = (chan, x)" "unat (id_val i) = Suc (unat (pre_next_global_id cx))"
      using 1(1-4) new(1) by simp_all
    from that [OF free q this eh 1(6) final] show ?thesis .
  qed
qed

section \<open>Composing outside calls\<close>

lemma outside_call_refl [simp]: "outside_call e cx cx"
  by (simp add: outside_call_def)

lemma outside_call_trans [trans]:
  "outside_call e a b \<Longrightarrow> outside_call e b c \<Longrightarrow> outside_call e a c"
  by (auto simp: outside_call_def)

lemma ustep_call: "ustep e cx cx' \<Longrightarrow> current_node cx' = current_node cx \<Longrightarrow> outside_call e cx cx'"
  by (simp add: outside_call_def r_into_rtranclp)

text \<open>A scope restores the node, whatever happens inside.\<close>

lemma outside_call_scope:
  assumes "node_scope n f cx = Inr (a, cx')"
    and "\<And>c a c'. f c = Inr (a, c') \<Longrightarrow> usteps e c c'"
  shows "outside_call e cx cx'"
proof -
  obtain cx1 where f: "f (cx\<lparr>current_node := n\<rparr>) = Inr (a, cx1)"
    and cx': "cx' = cx1\<lparr>current_node := current_node cx\<rparr>"
    using assms(1) by (auto simp: node_scope_Inr)
  have "usteps e cx (cx\<lparr>current_node := n\<rparr>)" by (rule r_into_rtranclp) (rule u_scope)
  also note assms(2) [OF f]
  also have "usteps e cx1 cx'" unfolding cx' by (rule r_into_rtranclp) (rule u_scope)
  finally show ?thesis by (simp add: outside_call_def cx')
qed

lemma outside_callD: "outside_call e cx cx' \<Longrightarrow> usteps e cx cx'"
  by (simp add: outside_call_def)

lemma swap_simulator_usteps:
  assumes "swap_simulator k s cx = Inr (r, cx')"
  shows "outside_call e cx cx'"
proof -
  obtain v where "cell cx = CellFree" "cx' = cx\<lparr>simulators := v, simulators_by_type := simulators_by_type cx\<rparr>"
    using assms by (auto simp: swap_simulator_def with_cx_Inr split: if_splits)
  then show ?thesis
    using u_simulators [of cx e "simulators_by_type cx" v] by (intro ustep_call) simp_all
qed

lemma visit_simulator_usteps:
  assumes "visit_simulator f k (held, cx) = Inr (held', cx')"
    and f: "\<And>s c s' c'. f s c = Inr (s', c') \<Longrightarrow> outside_call e c c'"
  shows "outside_call e cx cx'"
proof -
  obtain s cx1 s' cx2 where "swap_simulator k held cx = Inr (Some s, cx1)"
    "f s cx1 = Inr (s', cx2)" "swap_simulator k (Some s') cx2 = Inr (held', cx')"
    using assms(1) by (auto simp: visit_simulator_def split: option.splits)
  then show ?thesis
    using swap_simulator_usteps f outside_call_trans by metis
qed

lemma visit_simulators_usteps:
  assumes "foldE (visit_simulator f) ks (held, cx) = Inr (held', cx')"
    and f: "\<And>s c s' c'. f s c = Inr (s', c') \<Longrightarrow> outside_call e c c'"
  shows "outside_call e cx cx'"
proof -
  have "outside_call e cx (snd (held', cx'))"
  proof (rule foldE_inv [OF assms(1), where P = "\<lambda>t. outside_call e cx (snd t)"])
    fix k s t
    assume "outside_call e cx (snd s)" "visit_simulator f k s = Inr t"
    then show "outside_call e cx (snd t)"
      using visit_simulator_usteps [of f k "fst s" "snd s" "fst t" "snd t" e] f outside_call_trans
      by (metis prod.collapse)
  qed simp
  then show ?thesis by simp
qed

lemma for_all_simulators_usteps:
  assumes "for_all_simulators forward f cx = Inr (u, cx')"
    and f: "\<And>s c s' c'. f s c = Inr (s', c') \<Longrightarrow> outside_call e c c'"
  shows "outside_call e cx cx'"
proof -
  define ks where "ks = map (\<lambda>i. if forward then i else length (simulators cx) - 1 - i)
    [0..<length (simulators cx)]"
  have "\<exists>held. foldE (visit_simulator f) ks (None, cx) = Inr (held, cx')"
    using assms(1)
    by (auto simp: for_all_simulators_def with_cx_Inr ks_def split: if_splits)
  then show ?thesis using visit_simulators_usteps f by metis
qed

context outside_code
begin

lemma drop_task_call: "drop_task e t cx = Inr cx' \<Longrightarrow> outside_call e cx cx'"
  using drop_sender_call drop_call outside_call_trans
  by (fastforce simp: drop_task_def split: option.splits)

lemma drop_task_option_call: "drop_task_option e t cx = Inr cx' \<Longrightarrow> outside_call e cx cx'"
  by (cases t) (auto intro: drop_task_call)

lemma abort_and_drop_usteps:
  assumes "abort_and_drop e i cx = Inr cx'"
  shows "usteps e cx cx'"
proof -
  obtain t cx1 where c: "with_cx (abort_local i) cx = Inr (t, cx1)" "drop_task_option e t cx1 = Inr cx'"
    using assms by (auto simp: abort_and_drop_def)
  have "ustep e cx cx1" by (rule u_abort [OF c(1)])
  then show ?thesis
    using outside_callD [OF drop_task_option_call [OF c(2)]] by (rule converse_rtranclp_into_rtranclp)
qed

lemma abort_inner_call:
  assumes "abort_inner e p cx = Inr (u, cx')"
  shows "outside_call e cx cx'"
proof -
  obtain sh where sh: "arcs cx p = Some sh"
    using assms by (cases "arcs cx p") (auto simp: abort_inner_def)
  show ?thesis
    using assms unfolding abort_inner_def sh option.case
  proof (rule outside_call_scope)
    fix c a c'
    assume "andThen (unwrap (queue c)) (\<lambda>_. andThen (with_cx (abort_local (sh_id sh)) c) (\<lambda>(t, cx).
      andThen (drop_task_option e t cx) (\<lambda>cx. Inr ((), cx)))) = Inr (a, c')"
    then have "abort_and_drop e (sh_id sh) c = Inr c'" by (auto simp: abort_and_drop_def)
    then show "usteps e c c'" by (rule abort_and_drop_usteps)
  qed
qed

lemma stop_node_call:
  assumes "stop_node e n final cx = Inr (u, cx')"
  shows "outside_call e cx cx'"
  using assms unfolding stop_node_def
proof (rule outside_call_scope)
  fix c a c'
  assume "andThen (with_cx (mark_stopped n final) c) (\<lambda>(was_running, cx).
       if \<not> was_running then Inr ((), cx)
       else andThen
           (with_cx (\<lambda>cx. andThen (node_at n cx) (\<lambda>d. Inr (set_order e (node_tasks d), cx))) cx)
           (\<lambda>(task_ids, cx).
         andThen (foldE (abort_and_drop e) task_ids cx) (\<lambda>cx.
         for_all_simulators False (on_stop_node e) cx))) = Inr (a, c')"
  then obtain b c1 where c1: "with_cx (mark_stopped n final) c = Inr (b, c1)"
    and rest: "(if \<not> b then Inr ((), c1)
       else andThen
           (with_cx (\<lambda>cx. andThen (node_at n cx) (\<lambda>d. Inr (set_order e (node_tasks d), cx))) c1)
           (\<lambda>(task_ids, cx).
         andThen (foldE (abort_and_drop e) task_ids cx) (\<lambda>cx.
         for_all_simulators False (on_stop_node e) cx))) = Inr (a, c')"
    by auto
  have "usteps e c1 c'"
  proof (cases b)
    case True
    obtain ids c2 c3 where
      "with_cx (\<lambda>cx. andThen (node_at n cx) (\<lambda>d. Inr (set_order e (node_tasks d), cx))) c1 = Inr (ids, c2)"
      and f: "foldE (abort_and_drop e) ids c2 = Inr c3"
      and sims: "for_all_simulators False (on_stop_node e) c3 = Inr (a, c')"
      using rest True by auto
    then have "c2 = c1" by (auto simp: with_cx_Inr)
    have "usteps e c1 c3"
      by (rule foldE_inv [OF f [unfolded \<open>c2 = c1\<close>], where P = "usteps e c1"])
        (auto dest: abort_and_drop_usteps)
    also have "usteps e c3 c'"
      by (rule outside_callD, rule for_all_simulators_usteps [OF sims]) (rule stop_call)
    finally show ?thesis .
  qed (use rest in simp)
  then show "usteps e c c'"
    by (rule converse_rtranclp_into_rtranclp [of "ustep e", OF u_stop [OF c1]])
qed

lemma start_node_call:
  assumes "start_node e n cx = Inr (u, cx')"
  shows "outside_call e cx cx'"
  using assms unfolding start_node_def
proof (rule outside_call_scope)
  fix c a c'
  assume "andThen (with_cx (mark_started n) c) (\<lambda>(was_running, cx).
       if was_running then Inr ((), cx)
       else for_all_simulators False (on_start_node e) cx) = Inr (a, c')"
  then obtain b c1 where c1: "with_cx (mark_started n) c = Inr (b, c1)"
    and "b \<and> c' = c1 \<or> for_all_simulators False (on_start_node e) c1 = Inr (a, c')"
    by (auto split: if_splits)
  moreover have "usteps e c1 c'" if "for_all_simulators False (on_start_node e) c1 = Inr (a, c')"
    by (rule outside_callD, rule for_all_simulators_usteps [OF that]) (rule start_call)
  moreover have "ustep e c c1" by (rule u_start [OF c1])
  ultimately show "usteps e c c'"
    by (meson converse_rtranclp_into_rtranclp r_into_rtranclp)
qed

lemma create_node_call:
  assumes "create_node e cx = Inr (n, cx')"
  shows "outside_call e cx cx'"
proof -
  obtain c1 where c1: "with_cx (\<lambda>cx. andThen (push_new_node cx) (\<lambda>(n, cx).
      andThen (report e (NodeSpawned n) cx) (\<lambda>cx. Inr (n, cx)))) cx = Inr (n, c1)"
    and c2: "node_scope n (for_all_simulators True (on_create_node e)) c1 = Inr ((), cx')"
    using assms by (auto simp: create_node_def)
  have "current_node c1 = current_node cx"
    using c1 by (auto simp: with_cx_Inr push_new_node_def report_event_Inr split: if_splits)
  then have "outside_call e cx c1"
    by (rule ustep_call [OF u_push_node [OF c1]])
  also have "outside_call e c1 cx'"
    using c2
  proof (rule outside_call_scope)
    fix c a c'
    assume "for_all_simulators True (on_create_node e) c = Inr (a, c')"
    then show "usteps e c c'"
      by (intro outside_callD, elim for_all_simulators_usteps) (rule create_call)
  qed
  finally show ?thesis .
qed

lemma stop_simulation_call:
  assumes "stop_simulation e cx = Inr (u, cx')"
  shows "outside_call e cx cx'"
proof -
  obtain c1 ids c2 where c1: "with_cx (\<lambda>cx. Inr ((), cx\<lparr>final_stopped := True\<rparr>)) cx = Inr ((), c1)"
    and all: "all_nodes c1 = Inr (ids, c2)"
    and f: "foldE (\<lambda>n cx. andThen (stop_node e n True cx) (\<lambda>(_, cx). Inr cx)) ids c2 = Inr cx'"
    using assms by (auto simp: stop_simulation_def)
  have "current_node c1 = current_node cx" using c1 by (auto simp: with_cx_Inr)
  then have "outside_call e cx c1"
    by (rule ustep_call [OF u_final [OF c1]])
  also have "c2 = c1" using all by (auto simp: all_nodes_def with_cx_Inr)
  then have "outside_call e c1 cx'"
    by (intro foldE_inv [OF f, where P = "outside_call e c1"])
      (auto dest!: stop_node_call intro: outside_call_trans)
  finally show ?thesis .
qed

end

section \<open>Tasks that are done with\<close>

text \<open>
  A task that was aborted or completed: its future will not be polled again, whatever happens, and
  its entry, if the main loop has not removed it yet, does not hold the future.
\<close>

definition gone :: "('h, 'q, 'z) task_cx_scheme \<Rightarrow> id \<Rightarrow> bool" where
  "gone cx i \<longleftrightarrow> (\<exists>sh. arcs cx i = Some sh \<and> sh_state sh \<notin> {TASK_READY, TASK_WAITING})"

lemma gone_arcs: "arcs cx' = arcs cx \<Longrightarrow> gone cx' = gone cx"
  by (simp add: gone_def fun_eq_iff)

lemma gone_updates [simp]:
  "gone (cx\<lparr>cell := c\<rparr>) i = gone cx i"
  "gone (cx\<lparr>current_node := n\<rparr>) i = gone cx i"
  "gone (cx\<lparr>event_handler := eh\<rparr>) i = gone cx i"
  "gone (cx\<lparr>sleep_cells := k\<rparr>) i = gone cx i"
  "gone (cx\<lparr>upcoming_events := q\<rparr>) i = gone cx i"
  "gone (cx\<lparr>sim_time := t\<rparr>) i = gone cx i"
  "gone (cx\<lparr>now := t\<rparr>) i = gone cx i"
  by (simp_all add: gone_def)

lemma later_gone: "later cx cx' \<Longrightarrow> gone cx i \<Longrightarrow> gone cx' i"
  using laterD(7) by (fastforce simp: gone_def state_step_def)

lemma gone_no_future:
  assumes "exec_inv run cx" and "gone cx i" and "tasks cx i = Some te"
  shows "te_task te = None"
  using task_ok_entry [OF exec_invD(4) [OF assms(1)] assms(3)] assms(2)
  by (fastforce simp: gone_def entry_ok_def)

lemma abort_local_gone:
  assumes inv: "exec_inv run cx" and arc: "arcs cx i \<noteq> None" and "abort_local i cx = Inr (t, cx')"
  shows "gone cx' i"
proof (cases "tasks cx i")
  case None
  obtain sh where sh: "arcs cx i = Some sh" using arc by blast
  have "cx' = cx" using assms(3) None by (auto simp: abort_local_def)
  then show ?thesis
    using task_ok_no_entry(3) [OF exec_invD(4) [OF inv] None sh] sh by (auto simp: gone_def)
next
  case (Some te)
  obtain sh where sh: "te_shared te = i" "arcs cx i = Some sh" "entry_ok run (ready cx) i te (sh_state sh)"
    by (rule task_ok_entry [OF exec_invD(4) [OF inv] Some])
  show ?thesis
    using assms(3) Some sh by (auto simp: abort_local_def gone_def split: if_splits)
qed

text \<open>Every task of a node's set has its shared state.\<close>

lemma node_task_arc:
  assumes "exec_inv run cx" and "k < length (nodes cx)" and "i \<in> set (node_tasks (nodes cx ! k))"
  shows "arcs cx i \<noteq> None"
  using exec_invD(6) [OF assms(1,2), of i] assms(3) by (auto simp: node_ok_def)

context outside_code
begin

lemma abort_and_drop_gone:
  assumes inv: "sim_inv contents run cx" and "arcs cx i \<noteq> None" and "abort_and_drop e i cx = Inr cx'"
  shows "gone cx' i" and "sim_inv contents run cx'" and "later cx cx'"
proof -
  obtain t cx1 where a: "with_cx (abort_local i) cx = Inr (t, cx1)" and d: "drop_task_option e t cx1 = Inr cx'"
    using assms(3) by (auto simp: abort_and_drop_def)
  obtain cx2 where l: "abort_local i (cx\<lparr>cell := CellBorrowed\<rparr>) = Inr (t, cx2)" "cx1 = cx2\<lparr>cell := CellFree\<rparr>"
    using a by (auto simp: with_cx_Inr)
  have "exec_inv run (cx\<lparr>cell := CellBorrowed\<rparr>)" using inv by (simp add: sim_inv_def)
  then have "gone cx2 i" by (rule abort_local_gone [OF _ _ l(1)]) (use assms(2) in simp)
  then have "gone cx1 i" using gone_arcs [of cx1 cx2] l(2) by simp
  moreover have "sim_inv contents run cx1"
    using ustep_inv [OF u_abort [OF a] inv] by blast
  ultimately show "gone cx' i"
    using later_gone outside_call_inv(2) [OF drop_task_option_call [OF d]] by blast
  show "sim_inv contents run cx'" "later cx cx'"
    using usteps_inv [OF abort_and_drop_usteps [OF assms(3)] inv] by blast+
qed

lemma abort_inner_gone:
  assumes inv: "sim_inv contents run cx" and "abort_inner e p cx = Inr (u, cx')"
  shows "gone cx' p"
proof -
  obtain sh where sh: "arcs cx p = Some sh"
    using assms(2) by (auto simp: abort_inner_def split: option.splits)
  have id: "sh_id sh = p"
    using inv task_ok_id [OF exec_invD(4) sh, of run] by (simp add: sim_inv_def)
  obtain c where c: "abort_and_drop e p (cx\<lparr>current_node := sh_node sh\<rparr>) = Inr c"
    and cx': "cx' = c\<lparr>current_node := current_node cx\<rparr>"
    using assms(2) sh id by (auto simp: abort_inner_def node_scope_Inr abort_and_drop_def)
  have "gone c p"
    by (rule abort_and_drop_gone(1) [OF _ _ c]) (use inv sh in simp_all)
  then show ?thesis by (simp add: cx')
qed

lemma abort_all_gone:
  assumes "foldE (abort_and_drop e) ids cx = Inr cx'" and "sim_inv contents run cx"
    and "\<forall>i \<in> set ids. arcs cx i \<noteq> None"
  shows "(\<forall>i \<in> set ids. gone cx' i) \<and> sim_inv contents run cx' \<and> later cx cx'"
  using assms
proof (induction ids arbitrary: cx)
  case (Cons i ids)
  obtain cx1 where c: "abort_and_drop e i cx = Inr cx1" "foldE (abort_and_drop e) ids cx1 = Inr cx'"
    using Cons.prems(1) by auto
  note one = abort_and_drop_gone [OF Cons.prems(2) _ c(1)]
  have o1: "gone cx1 i" "sim_inv contents run cx1" "later cx cx1" using one Cons.prems(3) by auto
  have "\<forall>j \<in> set ids. arcs cx1 j \<noteq> None" using Cons.prems(3) laterD(7) [OF o1(3)] by fastforce
  from Cons.IH [OF c(2) o1(2) this] show ?case
    using o1(1,3) later_gone later_trans by auto
qed simp

text \<open>Stopping a running node aborts each of its tasks, and a final stop cannot be undone.\<close>

lemma stop_node_gone:
  assumes inv: "sim_inv contents run cx" and "stop_node e n final cx = Inr (u, cx')"
    and running: "run_level (nodes cx ! to_index n) = Running"
    and i: "i \<in> set (node_tasks (nodes cx ! to_index n))"
  shows "gone cx' i"
proof -
  let ?c = "cx\<lparr>current_node := n\<rparr>"
  obtain b c1 c' where m: "with_cx (mark_stopped n final) ?c = Inr (b, c1)"
    and rest: "(if \<not> b then Inr ((), c1)
       else andThen
           (with_cx (\<lambda>cx. andThen (node_at n cx) (\<lambda>d. Inr (set_order e (node_tasks d), cx))) c1)
           (\<lambda>(task_ids, cx).
         andThen (foldE (abort_and_drop e) task_ids cx) (\<lambda>cx.
         for_all_simulators False (on_stop_node e) cx))) = Inr (u, c')"
    and cx': "cx' = c'\<lparr>current_node := current_node cx\<rparr>"
    using assms(2) by (auto simp: stop_node_def node_scope_Inr)
  have inv1: "sim_inv contents run c1"
    using ustep_inv [OF u_stop [OF m]] inv by simp
  have lt: "to_index n < length (nodes cx)" and b: "b" and
    tasks1: "node_tasks (nodes c1 ! to_index n) = node_tasks (nodes cx ! to_index n)"
    "length (nodes c1) = length (nodes cx)"
    using m running by (auto simp: with_cx_Inr mark_stopped_def node_at_Inr)
  obtain ids c2 c3 where
    o': "with_cx (\<lambda>cx. andThen (node_at n cx) (\<lambda>d. Inr (set_order e (node_tasks d), cx))) c1 = Inr (ids, c2)"
    and f: "foldE (abort_and_drop e) ids c2 = Inr c3"
    and sims: "for_all_simulators False (on_stop_node e) c3 = Inr (u, c')"
    using rest b by auto
  have c2: "c2 = c1" "ids = set_order e (node_tasks (nodes cx ! to_index n))"
    using o' tasks1 by (auto simp: with_cx_Inr node_at_Inr)
  have ei: "exec_inv run c1" using inv1 by (simp add: sim_inv_def)
  have ids: "set ids = set (node_tasks (nodes c1 ! to_index n))"
    using set_order_perm exec_invD(5) [OF ei, of "to_index n"] lt tasks1 c2 by simp
  have "\<forall>j \<in> set ids. arcs c2 j \<noteq> None"
    using node_task_arc [OF ei, of "to_index n"] lt tasks1(2) ids c2(1) by simp
  note all = abort_all_gone [OF f [unfolded c2(1)] inv1 this [unfolded c2(1)]]
  have "outside_call e c3 c'"
    by (rule for_all_simulators_usteps [OF sims]) (rule stop_call)
  then have "later c3 c'" using all outside_call_inv(2) by blast
  moreover have "gone c3 i" using all i ids tasks1(1) by simp
  ultimately have "gone c' i" by (rule later_gone)
  then show ?thesis using gone_arcs [of cx' c'] cx' by simp
qed

lemma stop_node_level:
  assumes inv: "sim_inv contents run cx" and "stop_node e n True cx = Inr (u, cx')"
  shows "to_index n < length (nodes cx') \<and> run_level (nodes cx' ! to_index n) = FinalStopped"
proof -
  let ?c = "cx\<lparr>current_node := n\<rparr>"
  obtain b c1 c' where m: "with_cx (mark_stopped n True) ?c = Inr (b, c1)"
    and rest: "(if \<not> b then Inr ((), c1)
       else andThen
           (with_cx (\<lambda>cx. andThen (node_at n cx) (\<lambda>d. Inr (set_order e (node_tasks d), cx))) c1)
           (\<lambda>(task_ids, cx).
         andThen (foldE (abort_and_drop e) task_ids cx) (\<lambda>cx.
         for_all_simulators False (on_stop_node e) cx))) = Inr (u, c')"
    and cx': "cx' = c'\<lparr>current_node := current_node cx\<rparr>"
    using assms(2) by (auto simp: stop_node_def node_scope_Inr)
  have inv1: "sim_inv contents run c1"
    using ustep_inv [OF u_stop [OF m]] inv by simp
  have l1: "to_index n < length (nodes c1)" "run_level (nodes c1 ! to_index n) = FinalStopped"
    using m by (auto simp: with_cx_Inr mark_stopped_def node_at_Inr split: node_run_level.splits)
  have "later c1 c'"
  proof (cases b)
    case True
    obtain ids c2 c3 where
      "with_cx (\<lambda>cx. andThen (node_at n cx) (\<lambda>d. Inr (set_order e (node_tasks d), cx))) c1 = Inr (ids, c2)"
      and f: "foldE (abort_and_drop e) ids c2 = Inr c3"
      and sims: "for_all_simulators False (on_stop_node e) c3 = Inr (u, c')"
      using rest True by auto
    then have "c2 = c1" by (auto simp: with_cx_Inr)
    have "usteps e c1 c3"
      by (rule foldE_inv [OF f [unfolded \<open>c2 = c1\<close>], where P = "usteps e c1"])
        (auto dest: abort_and_drop_usteps)
    also have "usteps e c3 c'"
      by (rule outside_callD, rule for_all_simulators_usteps [OF sims]) (rule stop_call)
    finally show ?thesis using usteps_inv inv1 by blast
  qed (use rest in simp)
  then show ?thesis
    using l1 laterD(9) [of c1 c'] laterD(10) [of c1 c' "to_index n"] cx' by simp
qed

text \<open>The nodes of \<open>NodeId::all\<close>, as their indices.\<close>

lemma all_nodes_indices:
  assumes "all_nodes cx = Inr (ids, cx')"
  shows "cx' = cx" and "map to_index ids = [0..<length (nodes cx)]"
proof -
  have m: "mapE from_index [0..<length (nodes cx)] = Inr ids" and "cx' = cx"
    using assms by (auto simp: all_nodes_def with_cx_Inr node_count_def)
  show "cx' = cx" by fact
  have "map to_index ids = xs" if "mapE from_index xs = Inr ids" for xs
    using that by (induction xs arbitrary: ids) (auto simp: from_index_def to_index_def split: if_splits)
  then show "map to_index ids = [0..<length (nodes cx)]" using m by blast
qed

lemma stop_nodes_levels:
  assumes "foldE (\<lambda>n cx. andThen (stop_node e n True cx) (\<lambda>(_, cx). Inr cx)) ids cx = Inr cx'"
    and "sim_inv contents run cx"
  shows "sim_inv contents run cx' \<and> later cx cx' \<and>
    (\<forall>n \<in> set ids. to_index n < length (nodes cx') \<and> run_level (nodes cx' ! to_index n) = FinalStopped)"
  using assms
proof (induction ids arbitrary: cx)
  case (Cons n ids)
  obtain u cx1 where c: "stop_node e n True cx = Inr (u, cx1)"
    "foldE (\<lambda>n cx. andThen (stop_node e n True cx) (\<lambda>(_, cx). Inr cx)) ids cx1 = Inr cx'"
    using Cons.prems(1) by auto
  note one = outside_call_inv [OF stop_node_call [OF c(1)] Cons.prems(2)]
    and lev = stop_node_level [OF Cons.prems(2) c(1)]
  note IH = Cons.IH [OF c(2) one(1)]
  have "to_index n < length (nodes cx')"
    using lev laterD(9) [OF conjunct1 [OF conjunct2 [OF IH]]] by linarith
  moreover have "run_level (nodes cx' ! to_index n) = FinalStopped"
    using lev laterD(10) [OF conjunct1 [OF conjunct2 [OF IH]]] by simp
  ultimately show ?case
    using IH later_trans [OF one(2)] by simp
qed simp

lemma stop_simulation_levels:
  assumes inv: "sim_inv contents run cx" and "stop_simulation e cx = Inr (u, cx')"
  shows "final_stopped cx'" and "length (nodes cx') = length (nodes cx)"
    and "k < length (nodes cx') \<Longrightarrow> run_level (nodes cx' ! k) = FinalStopped"
proof -
  obtain c1 ids c2 where c1: "with_cx (\<lambda>cx. Inr ((), cx\<lparr>final_stopped := True\<rparr>)) cx = Inr ((), c1)"
    and all: "all_nodes c1 = Inr (ids, c2)"
    and f: "foldE (\<lambda>n cx. andThen (stop_node e n True cx) (\<lambda>(_, cx). Inr cx)) ids c2 = Inr cx'"
    using assms(2) by (auto simp: stop_simulation_def)
  note ids = all_nodes_indices [OF all]
  have inv1: "sim_inv contents run c2"
    using ustep_inv [OF u_final [OF c1] inv] ids(1) by simp
  have c: "final_stopped c2" "nodes c2 = nodes cx" using c1 ids(1) by (auto simp: with_cx_Inr)
  note s = stop_nodes_levels [OF f inv1]
  have l: "later c2 cx'" using s by blast
  show "final_stopped cx'" using laterD(5) [OF l c(1)] .
  show len: "length (nodes cx') = length (nodes cx)" using laterD(11) [OF l c(1)] c(2) by simp
  assume "k < length (nodes cx')"
  then have "k \<in> set (map to_index ids)" using len ids c(2) by simp
  then show "run_level (nodes cx' ! k) = FinalStopped" using s by auto
qed

end

section \<open>Single steps, and the states of tasks\<close>

lemma wake_call: "wake_by_ref w cx = Inr cx' \<Longrightarrow> outside_call e cx cx'"
  by (rule ustep_call [OF u_wake]) (auto elim!: wake_by_ref_cases)

lemma ext_call: "outside_call e cx (cx\<lparr>ext := x\<rparr>)"
  by (rule ustep_call [OF u_ext]) simp

lemma spawn_on_call: "spawn_task_on_node e n f cx = Inr (h, cx') \<Longrightarrow> outside_call e cx cx'"
  by (rule ustep_call [OF u_spawn], assumption)
    (auto simp: spawn_task_on_node_def with_cx_Inr report_event_Inr same_timers_def
      dest!: executor_spawn_same)

lemma spawn_call: "spawn e f cx = Inr (h, cx') \<Longrightarrow> outside_call e cx cx'"
  by (auto simp: spawn_def intro: spawn_on_call)

lemma new_id_outside_call: "new_id (debug_build e) cx = Inr (i, cx') \<Longrightarrow> outside_call e cx cx'"
  using new_id_wrapping(2) [of "debug_build e" cx i cx'] by (auto intro: ustep_call [OF u_id])

lemma sleep_drop_outside_call: "sleep_drop (env_pq e) k cx = Inr cx' \<Longrightarrow> outside_call e cx cx'"
  by (rule ustep_call [OF u_sleep_drop]) (simp_all add: sleep_drop_rest)

lemma sleep_poll_outside_call:
  "sleep_poll (env_pq e) k w cx = Inr (r, cx') \<Longrightarrow> arcs cx w \<noteq> None \<Longrightarrow> outside_call e cx cx'"
  by (rule ustep_call [OF u_sleep_poll]) (simp_all add: sleep_poll_rest)

lemma sleep_call: "sleep r d cx = Inr (k, cx') \<Longrightarrow> outside_call e cx cx'"
  by (auto simp: sleep_def instant_add_def sleep_until_def split: if_splits
      intro!: ustep_call [OF u_sleep])

lemma add_simulator_call:
  assumes "add_simulator ty s cx = Inr (u, cx')"
  shows "outside_call e cx cx'"
proof -
  have free: "cell cx = CellFree" and cx': "cx' = cx\<lparr>simulators := simulators cx @ [Some s],
      simulators_by_type := (simulators_by_type cx)(ty \<mapsto> length (simulators cx))\<rparr>"
    using assms by (auto simp: add_simulator_def with_cx_Inr split: if_splits)
  show ?thesis unfolding cx' by (rule ustep_call [OF u_simulators [OF free]]) simp
qed

text \<open>An allocated task state stays allocated.\<close>

lemma wake_arcs: "wake_by_ref p cx = Inr cx' \<Longrightarrow> arcs cx w \<noteq> None \<Longrightarrow> arcs cx' w \<noteq> None"
  by (auto elim!: wake_by_ref_cases)

lemma abort_local_arcs: "abort_local i cx = Inr (t, cx') \<Longrightarrow> arcs cx w \<noteq> None \<Longrightarrow> arcs cx' w \<noteq> None"
  by (auto elim!: abort_local_cases)

lemma executor_spawn_arcs:
  assumes "executor_spawn e n f cx = Inr (h, cx')" and "arcs cx w \<noteq> None"
  shows "arcs cx' w \<noteq> None"
  using assms(1)
proof (cases rule: executor_spawn_cases)
  case (1 chan x i cx1 d)
  have "arcs cx1 w \<noteq> None" using new_id_wrapping(2) [OF 1(5)] assms(2) by simp
  then show ?thesis using wake_arcs [OF 1(7)] by simp
qed

lemma ustep_arcs: "ustep e cx cx' \<Longrightarrow> arcs cx w \<noteq> None \<Longrightarrow> arcs cx' w \<noteq> None"
proof (induction rule: ustep.induct)
  case (u_id cx i cx')
  then show ?case using new_id_wrapping(2) [OF u_id(1)] by simp
next
  case (u_id_range len cx r cx')
  then show ?case using new_id_range_checked(3) [OF new_id_range_unwrapped [OF u_id_range(1,2)]]
    by simp
next
  case (u_wake p cx cx')
  then show ?case using wake_arcs by blast
next
  case (u_sleep deadline cx k cx')
  then show ?case by (auto simp: sleep_until_def)
next
  case (u_sleep_poll cx p k r cx')
  then show ?case using sleep_poll_frame(4) [OF u_sleep_poll(2)] by simp
next
  case (u_sleep_drop k cx cx')
  then show ?case using sleep_drop_frame(4) [OF u_sleep_drop(1)] by simp
next
  case (u_abort i cx t cx')
  then show ?case using abort_local_arcs by (fastforce simp: with_cx_Inr)
next
  case (u_spawn n f cx h cx')
  then show ?case
    using executor_spawn_arcs by (fastforce simp: spawn_task_on_node_def with_cx_Inr report_event_Inr)
next
  case (u_push_node cx n cx')
  then show ?case by (auto simp: with_cx_Inr push_new_node_def report_event_Inr split: if_splits)
next
  case (u_stop n final cx b cx')
  then show ?case
    by (auto simp: with_cx_Inr mark_stopped_def node_at_Inr split: node_run_level.splits if_splits)
next
  case (u_start n cx b cx')
  then show ?case
    by (auto simp: with_cx_Inr mark_started_def node_at_Inr split: node_run_level.splits if_splits)
next
  case (u_final cx u cx')
  then show ?case by (auto simp: with_cx_Inr)
qed simp_all

lemma outside_call_arcs: "outside_call e cx cx' \<Longrightarrow> arcs cx w \<noteq> None \<Longrightarrow> arcs cx' w \<noteq> None"
  unfolding outside_call_def
  by (erule conjE, erule rtranclp_induct [of "ustep e"]) (auto dest: ustep_arcs [where w = w])

end
