(* ===== verification/MainLoop.thy ===== *)
theory MainLoop
  imports Compound
begin

text \<open>
  The main loop (\<open>run_current_context\<close> of \<open>src/executor.rs\<close>) under the invariant: which task it
  takes, what a turn does to the invariant, and which panics can come out of it.
\<close>

section \<open>Retiring a task\<close>

lemma retire:
  assumes inv: "exec_inv run cx" and te: "tasks cx i = Some te" "te_task te = None"
    and q: "distinct q" "set q = set (ready cx) - {i}"
    and run': "run' \<noteq> Some i" "\<And>j. j \<noteq> i \<Longrightarrow> run' = Some j \<longleftrightarrow> run = Some j"
    and st: "st = TASK_COMPLETE \<or> st = TASK_ABORTED"
  obtains cx' where "remove_task_entry e i (store_state i st (cx\<lparr>queue := Some q\<rparr>)) = Inr cx'"
    "exec_inv run' cx'" "queue cx' = Some q" "same_timers cx cx'"
    "tasks cx' = (tasks cx)(i := None)" "final_stopped cx' = final_stopped cx"
    "arcs cx' = (arcs cx)(i := map_option (\<lambda>sh. sh\<lparr>sh_state := st\<rparr>) (arcs cx i))"
    "map run_level (nodes cx') = map run_level (nodes cx)" "ext cx' = ext cx"
proof -
  obtain sh where sh: "te_shared te = i" "arcs cx i = Some sh" "sh_id sh = i"
    "to_index (sh_node sh) < length (nodes cx)"
    by (rule task_ok_entry [OF exec_invD(4) [OF inv] te(1)])
  let ?k = "to_index (sh_node sh)"
  let ?d = "nodes cx ! ?k"
  let ?c = "store_state i st (cx\<lparr>queue := Some q\<rparr>)"
  let ?c' = "set_node (sh_node sh) (?d\<lparr>node_tasks := remove1 i (node_tasks ?d)\<rparr>)
      (?c\<lparr>tasks := (tasks ?c)(i := None)\<rparr>)"
  have mem: "i \<in> set (node_tasks ?d)" and dist: "distinct (node_tasks ?d)"
    using exec_invD(6) [OF inv sh(4), of i] exec_invD(5) [OF inv sh(4)] te sh
    by (auto simp: node_ok_def)
  have r: "remove_task_entry e i ?c = Inr ?c'"
    using te sh mem by (simp add: remove_task_entry_def node_at_def Let_def)
  have "exec_inv run' ?c'"
  proof (rule exec_inv_change [OF inv, where cx' = ?c' and run' = run' and i = i])
    have "i \<notin> set q" using q(2) by simp
    then show "task_ok run' ?c' i"
      using run'(1) st sh(2,3) by (simp add: task_ok_def)
    show "distinct (node_tasks (nodes ?c' ! k)) \<and> node_ok ?c' k i" if "k < length (nodes cx)" for k
      using exec_invD(5) [OF inv that] exec_invD(6) [OF inv that, of i] sh te that
      by (auto simp: node_ok_def nth_list_update)
    show "j \<in> set (node_tasks (nodes ?c' ! k)) \<longleftrightarrow> j \<in> set (node_tasks (nodes cx ! k))"
      if "k < length (nodes cx)" "j \<noteq> i" for k j
      using that dist by (cases "k = to_index (sh_node sh)") simp_all
  qed (use exec_invD(1) [OF inv] exec_invD(7) [OF inv sh(2)] q run' sh in auto)
  moreover have "map run_level (nodes ?c') = map run_level (nodes cx)"
    using sh(4) by (simp add: map_update) (metis list_update_id map_update nth_map length_map)
  ultimately show ?thesis
    using r by (intro that [of ?c']) (simp_all add: same_timers_def)
qed

section \<open>Taking the next ready task\<close>

text \<open>What the queue holds: entries to retire, and tasks that are in their entries, to be run.\<close>

definition retirable :: "('h, 'q, 'f, 's, 'x) sim \<Rightarrow> id \<Rightarrow> bool" where
  "retirable cx i \<longleftrightarrow>
     (\<exists>sh. arcs cx i = Some sh \<and> sh_state sh \<in> {TASK_COMPLETE_READY, TASK_ABORTED_READY})"

definition runnable :: "('h, 'q, 'f, 's, 'x) sim \<Rightarrow> 'f task \<Rightarrow> bool" where
  "runnable cx t \<longleftrightarrow>
     (\<exists>sh te. arcs cx (tk_shared t) = Some sh \<and> sh_state sh = TASK_READY \<and>
        tasks cx (tk_shared t) = Some te \<and> te_task te = Some t \<and> tk_snd t \<noteq> None)"

lemma next_ready_outcome:
  assumes "exec_inv None cx" and "queue cx = Some q"
  shows "case next_ready e q cx of
      Inl p \<Rightarrow> \<exists>i. handle_event (env_hasher e) (TaskRun i) (event_handler cx) = Inl p
    | Inr (None, cx') \<Rightarrow> exec_inv None cx' \<and> queue cx' = Some [] \<and> same_timers cx cx' \<and>
        (\<forall>i. gone cx i \<longrightarrow> gone cx' i) \<and>
        (\<forall>i \<in> set q. retirable cx i)
    | Inr (Some t, cx') \<Rightarrow> exec_inv (Some (tk_shared t)) cx' \<and> runnable cx t \<and>
        (\<forall>i. gone cx i \<longrightarrow> gone cx' i) \<and>
        same_timers (cx\<lparr>event_handler := event_handler cx'\<rparr>) cx' \<and>
        handle_event (env_hasher e) (TaskRun (tk_shared t)) (event_handler cx) =
          Inr (event_handler cx') \<and>
        (\<exists>dead q'. q = dead @ tk_shared t # q' \<and> queue cx' = Some q' \<and>
          (\<forall>i \<in> set dead. retirable cx i))"
  using assms
proof (induction q arbitrary: cx)
  case Nil
  then show ?case by (simp add: same_timers_def)
next
  case (Cons i q)
  note inv = Cons.prems(1) and queue = Cons.prems(2)
  have iq: "i \<notin> set q" "distinct q" using exec_invD(3) [OF inv] queue by auto
  have "tasks cx i \<noteq> None"
    using task_ok_no_entry(1) [OF exec_invD(4) [OF inv, of i]] queue by auto
  then obtain te where te: "tasks cx i = Some te" by blast
  obtain sh where sh: "te_shared te = i" "arcs cx i = Some sh" "sh_id sh = i"
    and ok: "entry_ok None (i # q) i te (sh_state sh)"
    using task_ok_entry [OF exec_invD(4) [OF inv] te] queue by auto
  show ?case
  proof (cases "sh_state sh = TASK_READY")
    case True
    then obtain t where t: "te_task te = Some t" "tk_shared t = i" "tk_snd t \<noteq> None"
      using ok by (cases "te_task te") (auto simp: entry_ok_def)
    let ?c = "take_task i te (cx\<lparr>queue := Some q\<rparr>)"
    show ?thesis
    proof (cases "handle_event (env_hasher e) (TaskRun i) (event_handler cx)")
      case (Inl p)
      then show ?thesis
        using te sh True t by (auto simp: Let_def report_event_def)
    next
      case (Inr eh)
      let ?c' = "store_state i TASK_WAITING (?c\<lparr>event_handler := eh\<rparr>)"
      have res: "next_ready e (i # q) cx = Inr (Some t, ?c')"
        using te sh True t Inr by (simp add: Let_def report_event_def)
      have "entry_ok (Some i) q i (te\<lparr>te_task := None\<rparr>) TASK_WAITING"
        using iq by (simp add: entry_ok_def)
      then have "exec_inv (Some i) ?c'"
        by (intro exec_inv_change_entry [OF inv te, where te' = "te\<lparr>te_task := None\<rparr>"
              and st = TASK_WAITING and sh = sh])
          (use sh iq queue exec_invD(1) [OF inv] in auto)
      moreover have "same_timers (cx\<lparr>event_handler := event_handler ?c'\<rparr>) ?c'"
        by (simp add: same_timers_def)
      moreover have "\<exists>dead q'. i # q = dead @ i # q' \<and> queue ?c' = Some q' \<and>
          (\<forall>i \<in> set dead. retirable cx i)"
        by (rule exI [of _ "[]"]) simp
      moreover have "gone ?c' j" if "gone cx j" for j
        using that sh True by (auto simp: gone_def)
      ultimately show ?thesis
        using res t sh te True Inr by (auto simp: runnable_def)
    qed
  next
    case False
    then have dead: "sh_state sh = TASK_COMPLETE_READY \<or> sh_state sh = TASK_ABORTED_READY"
      and none: "te_task te = None"
      using ok iq by (auto simp: entry_ok_def)
    let ?st = "if sh_state sh = TASK_COMPLETE_READY then TASK_COMPLETE else TASK_ABORTED"
    obtain cx1 where
      r: "remove_task_entry e i (store_state i ?st (cx\<lparr>queue := Some q\<rparr>)) = Inr cx1"
      and inv1: "exec_inv None cx1" and q1: "queue cx1 = Some q" and same: "same_timers cx cx1"
      and t1: "tasks cx1 = (tasks cx)(i := None)"
      and a1: "arcs cx1 = (arcs cx)(i := map_option (\<lambda>sh. sh\<lparr>sh_state := ?st\<rparr>) (arcs cx i))"
      by (rule retire [OF inv te none iq(2), where run' = None and st = ?st and e = e])
        (use queue iq in auto)
    have step: "next_ready e (i # q) cx = next_ready e q cx1"
      using te sh False dead r by (auto simp: Let_def)
    note IH = Cons.IH [OF inv1 q1]
    have eh: "event_handler cx1 = event_handler cx"
      using same by (simp add: same_timers_def)
    have same': "same_timers (cx1\<lparr>event_handler := h\<rparr>) c \<Longrightarrow> same_timers (cx\<lparr>event_handler := h\<rparr>) c" for h c
      using same by (simp add: same_timers_def)
    have trans: "same_timers cx1 c \<Longrightarrow> same_timers cx c" for c
      using same by (simp add: same_timers_def)
    have arcs: "arcs cx j = Some s" "j \<noteq> i"
      if "arcs cx1 j = Some s" "sh_state s \<in> {TASK_READY, TASK_COMPLETE_READY, TASK_ABORTED_READY}" for j s
      using that sh(2) by (auto simp: a1 split: if_splits)
    have gone1: "gone cx j \<Longrightarrow> gone cx1 j" for j
      using sh(2) by (auto simp: gone_def a1)
    have dead_i: "retirable cx i"
      using sh(2) dead by (auto simp: retirable_def)
    have dead_q: "retirable cx1 j \<Longrightarrow> retirable cx j" for j
      using arcs by (fastforce simp: retirable_def)
    show ?thesis
    proof (cases "next_ready e q cx1")
      case (Inl p)
      then show ?thesis using IH unfolding step eh by simp
    next
      case (Inr r)
      obtain o' cx' where r: "r = (o', cx')" by (cases r)
      show ?thesis
      proof (cases o')
        case None
        then have "exec_inv None cx' \<and> queue cx' = Some [] \<and> same_timers cx cx'"
          and "\<forall>j \<in> set (i # q). retirable cx j" and "\<forall>j. gone cx j \<longrightarrow> gone cx' j"
          using IH trans dead_i dead_q gone1 unfolding Inr r by auto
        then show ?thesis unfolding step Inr r None by simp
      next
        case (Some t)
        obtain dead' q' where q': "q = dead' @ tk_shared t # q'" "queue cx' = Some q'"
          "\<forall>j \<in> set dead'. retirable cx1 j"
          using IH unfolding Inr r Some by auto
        have q: "i # q = (i # dead') @ tk_shared t # q'" "\<forall>j \<in> set (i # dead'). retirable cx j"
          using q' dead_i dead_q by simp_all
        have "runnable cx1 t" using IH unfolding Inr r Some by simp
        then have "runnable cx t"
          using arcs by (fastforce simp: runnable_def t1)
        moreover have "exec_inv (Some (tk_shared t)) cx' \<and> (\<forall>i. gone cx i \<longrightarrow> gone cx' i) \<and>
            same_timers (cx\<lparr>event_handler := event_handler cx'\<rparr>) cx' \<and>
            handle_event (env_hasher e) (TaskRun (tk_shared t)) (event_handler cx) =
              Inr (event_handler cx')"
          using IH same' gone1 unfolding Inr r Some by (simp add: eh)
        ultimately show ?thesis
          using q q'(2) unfolding step Inr r Some sum.case prod.case option.case by blast
      qed
    qed
  qed
qed

section \<open>What the loop does with a polled task\<close>

text \<open>The entry of the task that runs.\<close>

lemma running_entry:
  assumes "exec_inv (Some i) cx"
  obtains te sh where "tasks cx i = Some te" "te_task te = None" "te_shared te = i"
    "arcs cx i = Some sh" "sh_id sh = i" "to_index (sh_node sh) < length (nodes cx)"
    "sh_state sh = TASK_WAITING \<and> i \<notin> set (ready cx) \<or>
     sh_state sh \<in> {TASK_READY, TASK_ABORTED_READY} \<and> i \<in> set (ready cx)"
proof -
  have "tasks cx i \<noteq> None"
    using task_ok_no_entry(2) [OF exec_invD(4) [OF assms, of i]] by auto
  then obtain te where te: "tasks cx i = Some te" by blast
  show ?thesis
    by (rule task_ok_entry [OF exec_invD(4) [OF assms] te], rule that [OF te])
      (auto simp: entry_ok_def)
qed

lemma finish_poll_outcome:
  assumes inv: "exec_inv (Some i) cx" and t: "tk_shared t = i" "r = Pending \<longrightarrow> tk_snd t \<noteq> None"
  obtains (kept) sh cx1 where "r = Pending" "arcs cx i = Some sh"
      "sh_state sh \<in> {TASK_WAITING, TASK_READY}"
      "finish_poll e i t r cx = Inr ((), cx1)" "exec_inv None cx1" "same_timers cx cx1"
      "final_stopped cx1 = final_stopped cx" "\<forall>j. gone cx j \<longrightarrow> gone cx1 j" "queue cx1 = queue cx"
  | (dropped) sh cx1 where "arcs cx i = Some sh"
      "r = Pending \<Longrightarrow> sh_state sh = TASK_ABORTED_READY"
      "finish_poll e i t r cx = andThen (drop_task e t cx1) (\<lambda>cx. Inr ((), cx))"
      "exec_inv None cx1" "same_timers cx cx1" "final_stopped cx1 = final_stopped cx"
      "\<forall>j. gone cx j \<longrightarrow> gone cx1 j" "queue cx1 = queue cx"
proof -
  obtain te sh where te: "tasks cx i = Some te" "te_task te = None" "te_shared te = i"
    and sh: "arcs cx i = Some sh" "sh_id sh = i"
    and st: "sh_state sh = TASK_WAITING \<and> i \<notin> set (ready cx) \<or>
      sh_state sh \<in> {TASK_READY, TASK_ABORTED_READY} \<and> i \<in> set (ready cx)"
    by (rule running_entry [OF inv])
  note D = exec_invD(1-3) [OF inv]
  have change: "exec_inv None cx'"
    if "cx' = cx\<lparr>tasks := (tasks cx)(i \<mapsto> te'), arcs := (arcs cx)(i \<mapsto> sh\<lparr>sh_state := v\<rparr>)\<rparr>"
      "te_shared te' = i" "entry_ok None (ready cx) i te' v" for cx' te' v
    by (rule exec_inv_change_entry [OF inv te(1), where te' = te' and st = v and sh = sh])
      (use that D sh in auto)
  show ?thesis
  proof (cases r)
    case Pending
    show ?thesis
    proof (cases "sh_state sh = TASK_ABORTED_READY")
      case True
      have "entry_ok None (ready cx) i te TASK_ABORTED_READY"
        using st True te by (auto simp: entry_ok_def)
      then have "exec_inv None cx"
        by (intro change [where te' = te and v = TASK_ABORTED_READY])
          (use te True sh in \<open>auto simp: fun_upd_idem\<close>)
      then show ?thesis
        using Pending True sh t
        by (intro dropped [of sh cx]) (auto simp: finish_poll_def same_timers_def gone_def)
    next
      case False
      let ?c = "cx\<lparr>tasks := (tasks cx)(i \<mapsto> te\<lparr>te_task := Some t\<rparr>)\<rparr>"
      have "entry_ok None (ready cx) i (te\<lparr>te_task := Some t\<rparr>) (sh_state sh)"
        using st False te t Pending by (auto simp: entry_ok_def)
      then have "exec_inv None ?c"
        by (intro change [where te' = "te\<lparr>te_task := Some t\<rparr>" and v = "sh_state sh"])
          (use te sh in \<open>auto simp: fun_upd_idem\<close>)
      then show ?thesis
        using Pending False sh t te st
        by (intro kept [of sh ?c]) (auto simp: finish_poll_def same_timers_def gone_def)
    qed
  next
    case (Ready u)
    show ?thesis
    proof (cases "sh_state sh = TASK_WAITING")
      case True
      obtain q where q: "queue cx = Some q" using D(2) by blast
      obtain cx1 where "remove_task_entry e i (store_state i TASK_COMPLETE (cx\<lparr>queue := Some q\<rparr>)) = Inr cx1"
        "exec_inv None cx1" "same_timers cx cx1" "final_stopped cx1 = final_stopped cx" "queue cx1 = Some q"
        "arcs cx1 = (arcs cx)(i := map_option (\<lambda>sh. sh\<lparr>sh_state := TASK_COMPLETE\<rparr>) (arcs cx i))"
        by (rule retire [OF inv te(1,2), where q = q and run' = None and st = TASK_COMPLETE and e = e])
          (use D q st True in auto)
      moreover have "cx\<lparr>queue := Some q\<rparr> = cx" using q by simp
      ultimately show ?thesis
        using Ready True sh t q
        by (intro dropped [of sh cx1]) (auto simp: finish_poll_def gone_def)
    next
      case False
      let ?c = "store_state i TASK_COMPLETE_READY cx"
      have "entry_ok None (ready cx) i te TASK_COMPLETE_READY"
        using st False te by (auto simp: entry_ok_def)
      then have "exec_inv None ?c"
        by (intro change [where te' = te and v = TASK_COMPLETE_READY])
          (use te sh in \<open>auto simp: store_state_def fun_upd_idem\<close>)
      then show ?thesis
        using Ready False sh t st
        by (intro dropped [of sh ?c]) (auto simp: finish_poll_def same_timers_def gone_def)
    qed
  qed
qed

section \<open>A turn of the loop\<close>

text \<open>
  Where a panic can come from: code outside of the crate, called in a state that satisfies the
  invariants, or the event handler. A poll and the delivery of a result happen with the context
  free; the drop of a task that the loop has done with happens with the context borrowed.
\<close>

inductive outside_panic ::
  "('q \<Rightarrow> nat \<rightharpoonup> instant) \<Rightarrow> ('h, 'q, 'f, 's, 'x, 'v) env \<Rightarrow> panic \<Rightarrow> bool"
  for contents :: "'q \<Rightarrow> nat \<rightharpoonup> instant" and e :: "('h, 'q, 'f, 's, 'x, 'v) env"
where
  p_poll: "sim_inv contents (Some w) cx \<Longrightarrow> cell cx = CellFree \<Longrightarrow> poll_future e w f cx = Inl p \<Longrightarrow>
    outside_panic contents e p"
| p_send: "sim_inv contents (Some w) cx \<Longrightarrow> cell cx = CellFree \<Longrightarrow> oneshot_send e c v cx = Inl p \<Longrightarrow>
    outside_panic contents e p"
| p_drop_sender: "sim_inv contents None cx \<Longrightarrow> oneshot_drop_sender e c cx = Inl p \<Longrightarrow>
    outside_panic contents e p"
| p_drop: "sim_inv contents None cx \<Longrightarrow> drop_future e f cx = Inl p \<Longrightarrow> outside_panic contents e p"

definition handler_panic :: "'h hasher \<Rightarrow> panic \<Rightarrow> bool" where
  "handler_panic hs p \<longleftrightarrow> (\<exists>ev eh. handle_event hs ev eh = Inl p)"

text \<open>The simulated time, the final stop and the ends of tasks only move forward.\<close>

definition no_earlier :: "('h, 'q, 'f, 's, 'x) sim \<Rightarrow> ('h, 'q, 'f, 's, 'x) sim \<Rightarrow> bool" where
  "no_earlier cx cx' \<longleftrightarrow>
     sim_time cx \<le> sim_time cx' \<and> cell cx' = cell cx \<and> (final_stopped cx \<longrightarrow> final_stopped cx') \<and>
     (\<forall>i. gone cx i \<longrightarrow> gone cx' i)"

lemma no_earlier_refl [simp]: "no_earlier cx cx"
  by (simp add: no_earlier_def)

lemma no_earlier_trans: "no_earlier a b \<Longrightarrow> no_earlier b c \<Longrightarrow> no_earlier a c"
  by (auto simp: no_earlier_def)

lemma later_no_earlier: "later cx cx' \<Longrightarrow> no_earlier cx cx'"
  using laterD(1,3,5) later_gone by (fastforce simp: no_earlier_def)

text \<open>The ready queue only grows at its end, while a task is polled.\<close>

definition queue_grows :: "('h, 'q, 'f, 's, 'x) sim \<Rightarrow> ('h, 'q, 'f, 's, 'x) sim \<Rightarrow> bool" where
  "queue_grows cx cx' \<longleftrightarrow> (\<forall>q. queue cx = Some q \<longrightarrow> (\<exists>l. queue cx' = Some (q @ l)))"

lemma queue_growsD: "queue_grows cx cx' \<Longrightarrow> queue cx = Some q \<Longrightarrow> \<exists>l. queue cx' = Some (q @ l)"
  by (simp add: queue_grows_def)

lemma queue_grows_same: "queue cx' = queue cx \<Longrightarrow> queue_grows cx cx'"
  by (simp add: queue_grows_def)

lemma queue_grows_trans: "queue_grows a b \<Longrightarrow> queue_grows b c \<Longrightarrow> queue_grows a c"
  unfolding queue_grows_def by (metis append.assoc)

lemma later_queue_grows: "later cx cx' \<Longrightarrow> queue_grows cx cx'"
  by (simp add: later_def queue_grows_def)

context outside_code
begin

lemma drop_task_outcome:
  assumes "sim_inv contents None cx"
  shows "case drop_task e t cx of
      Inl p \<Rightarrow> outside_panic contents e p
    | Inr cx' \<Rightarrow> sim_inv contents None cx' \<and> later cx cx' \<and> current_node cx' = current_node cx"
proof (cases "drop_task e t cx")
  case (Inl p)
  show ?thesis
  proof (cases "tk_snd t")
    case None
    then show ?thesis using Inl assms p_drop by (auto simp: drop_task_def)
  next
    case (Some c)
    show ?thesis
    proof (cases "oneshot_drop_sender e c cx")
      case i: (Inl p')
      then show ?thesis using Inl Some assms p_drop_sender by (auto simp: drop_task_def)
    next
      case i: (Inr cx1)
      then show ?thesis
        using Inl Some p_drop outside_call_inv(1) [OF drop_sender_call [OF i] assms]
        by (auto simp: drop_task_def)
    qed
  qed
next
  case (Inr cx')
  then show ?thesis using outside_call_inv [OF drop_task_call [OF Inr] assms] by simp
qed

lemma task_run_outcome:
  assumes inv: "sim_inv contents (Some (tk_shared t)) cx" and free: "cell cx = CellFree"
    and snd: "tk_snd t \<noteq> None"
  shows "case task_run e t cx of
      Inl p \<Rightarrow> outside_panic contents e p
    | Inr ((t', r), cx') \<Rightarrow> sim_inv contents (Some (tk_shared t)) cx' \<and> later cx cx' \<and>
        current_node cx' = current_node cx \<and> tk_shared t' = tk_shared t \<and>
        (r = Pending \<longrightarrow> tk_snd t' \<noteq> None)"
proof (cases "poll_future e (tk_shared t) (tk_fut t) cx")
  case (Inl p)
  then show ?thesis using p_poll [OF inv free] by (simp add: task_run_def)
next
  case (Inr x)
  then obtain fut r cx1 where poll: "poll_future e (tk_shared t) (tk_fut t) cx = Inr ((fut, r), cx1)"
    by (metis surj_pair)
  have "arcs cx (tk_shared t) \<noteq> None"
    using inv running_entry [of "tk_shared t" cx] by (auto simp: sim_inv_def)
  note c1 = outside_call_inv [OF poll_call [OF poll this] inv]
  have free1: "cell cx1 = CellFree" using laterD(1) [OF c1(2)] free by simp
  obtain chan where chan: "tk_snd t = Some chan" using snd by blast
  show ?thesis
  proof (cases r)
    case (Ready v)
    show ?thesis
    proof (cases "oneshot_send e chan v cx1")
      case (Inl p)
      then show ?thesis
        using p_send [OF c1(1) free1 Inl] poll Ready chan by (simp add: task_run_def)
    next
      case (Inr cx2)
      note c2 = outside_call_inv [OF send_call [OF Inr] c1(1)]
      show ?thesis
        using c1 c2 poll Ready chan Inr later_trans [OF c1(2) c2(2)] by (simp add: task_run_def)
    qed
  next
    case Pending
    then show ?thesis using c1 poll snd by (simp add: task_run_def)
  qed
qed

lemma poll_task_outcome:
  assumes inv: "sim_inv contents (Some (tk_shared t)) cx" and free: "cell cx = CellFree"
    and snd: "tk_snd t \<noteq> None"
  shows "case poll_task e t cx of
      Inl p \<Rightarrow> outside_panic contents e p
    | Inr (u, cx') \<Rightarrow> sim_inv contents None cx' \<and> no_earlier cx cx' \<and>
        current_node cx' = current_node cx \<and> queue_grows cx cx'"
proof -
  let ?i = "tk_shared t"
  obtain te sh where sh: "arcs cx ?i = Some sh" "sh_id sh = ?i"
    using running_entry [of ?i cx] inv unfolding sim_inv_def by metis
  have once: "once_set cx" using inv exec_invD(1) by (auto simp: sim_inv_def)
  let ?c = "cx\<lparr>current_node := sh_node sh\<rparr>"
  have inv0: "sim_inv contents (Some ?i) ?c" "cell ?c = CellFree" using inv free by simp_all
  note run = task_run_outcome [OF inv0(1,2) snd]
  show ?thesis
  proof (cases "task_run e t ?c")
    case (Inl p)
    then show ?thesis using run sh once by (simp add: poll_task_def node_scope_def Let_def)
  next
    case (Inr x)
    then obtain t' r cx1 where x: "task_run e t ?c = Inr ((t', r), cx1)" by (metis surj_pair)
    have c1: "sim_inv contents (Some ?i) cx1" "later ?c cx1" "tk_shared t' = ?i"
      "r = Pending \<longrightarrow> tk_snd t' \<noteq> None"
      using run x by auto
    have free1: "cell cx1 = CellFree" using laterD(1) [OF c1(2)] free by simp
    let ?b = "cx1\<lparr>cell := CellBorrowed\<rparr>"
    have fin: "case finish_poll e ?i t' r ?b of
        Inl p \<Rightarrow> outside_panic contents e p
      | Inr (u, cx2) \<Rightarrow> sim_inv contents None cx2 \<and> no_earlier ?b cx2 \<and> queue_grows ?b cx2"
    proof -
      have e1: "exec_inv (Some ?i) ?b" using c1(1) by (simp add: sim_inv_def)
      have same: "sim_inv contents None cx2" "no_earlier ?b cx2"
        if "exec_inv None cx2" "same_timers ?b cx2" "final_stopped cx2 = final_stopped ?b"
          "\<forall>j. gone ?b j \<longrightarrow> gone cx2 j" for cx2
        using that c1(1) timers_inv_same [OF that(2), of contents]
        by (auto simp: sim_inv_def no_earlier_def same_timers_def)
      show ?thesis
        using e1 c1(3,4)
      proof (cases rule: finish_poll_outcome [where e = e])
        case (kept sh' cx2)
        then show ?thesis using same [OF kept(5-8)] queue_grows_same [OF kept(9)] by simp
      next
        case (dropped sh' cx2)
        note s = same [OF dropped(4-7)]
        show ?thesis
          using drop_task_outcome [OF s(1), of t'] dropped(3)
            no_earlier_trans [OF s(2) later_no_earlier]
            queue_grows_trans [OF queue_grows_same [OF dropped(8)] later_queue_grows]
          by (cases "drop_task e t' cx2") auto
      qed
    qed
    have "no_earlier cx ?c" "no_earlier ?c cx1"
      using later_no_earlier [OF c1(2)] by (simp_all add: no_earlier_def)
    then have earlier: "no_earlier cx cx1" by (rule no_earlier_trans)
    have grows: "queue_grows cx (cx2\<lparr>cell := CellFree, current_node := k\<rparr>)" if "queue_grows ?b cx2" for cx2 k
      using later_queue_grows [OF c1(2)] that unfolding queue_grows_def by (auto; metis append.assoc)
    from earlier show ?thesis
      using fin x sh once free free1 grows
      by (cases "finish_poll e ?i t' r ?b")
        (auto simp: poll_task_def node_scope_def Let_def with_cx_def no_earlier_def)
  qed
qed


lemma next_task_outcome:
  assumes inv: "sim_inv contents None cx"
  shows "case next_task e cx of
      Inl p \<Rightarrow> handler_panic (env_hasher e) p
    | Inr (None, cx') \<Rightarrow> sim_inv contents None cx' \<and> no_earlier cx cx' \<and>
        current_node cx' = current_node cx \<and> (final_stopped cx \<or> queue cx' = Some [])
    | Inr (Some t, cx') \<Rightarrow> sim_inv contents (Some (tk_shared t)) cx' \<and> no_earlier cx cx' \<and>
        current_node cx' = current_node cx \<and> tk_snd t \<noteq> None \<and> \<not> final_stopped cx"
proof (cases "final_stopped cx")
  case True
  then show ?thesis using inv by (simp add: next_task_def)
next
  case False
  obtain q where q: "queue cx = Some q" using inv exec_invD(2) unfolding sim_inv_def by blast
  have n: "next_task e cx = next_ready e q cx" using False q by (simp add: next_task_def)
  have out: "exec_inv None cx" using inv by (simp add: sim_inv_def)
  have t: "sim_inv contents run c" "no_earlier cx c" "current_node c = current_node cx"
    if "exec_inv run c" "same_timers (cx\<lparr>event_handler := h\<rparr>) c" "\<forall>i. gone cx i \<longrightarrow> gone c i" for run c h
    using that inv False timers_inv_same [OF that(2), of contents]
    by (auto simp: sim_inv_def no_earlier_def same_timers_def)
  show ?thesis
  proof (cases "next_ready e q cx")
    case (Inl p)
    then show ?thesis
      using next_ready_outcome [OF out q, of e] n by (auto simp: handler_panic_def)
  next
    case (Inr x)
    obtain o' cx' where x: "x = (o', cx')" by (cases x)
    show ?thesis
    proof (cases o')
      case None
      then have "exec_inv None cx'" "queue cx' = Some []" "same_timers cx cx'"
        "\<forall>i. gone cx i \<longrightarrow> gone cx' i"
        using next_ready_outcome [OF out q, of e] Inr x by auto
      moreover have "cx = cx\<lparr>event_handler := event_handler cx\<rparr>" by simp
      ultimately show ?thesis using t [of None cx' "event_handler cx"] n Inr x None by simp
    next
      case (Some u)
      have "exec_inv (Some (tk_shared u)) cx'" "runnable cx u"
        "same_timers (cx\<lparr>event_handler := event_handler cx'\<rparr>) cx'" "\<forall>i. gone cx i \<longrightarrow> gone cx' i"
        using next_ready_outcome [OF out q, of e] unfolding Inr x Some sum.case prod.case option.case
        by blast+
      then show ?thesis
        using t [of "Some (tk_shared u)" cx' "event_handler cx'"] n Inr x Some False
        by (auto simp: runnable_def)
    qed
  qed
qed

text \<open>Waiting for the next sleep, as the loop does it.\<close>

sublocale ex_wakers: wakers "env_pq e" contents wake_by_ref waker_alive
  by (rule waker_wake_by_ref) (rule priority_queue_axioms)

lemma wait_exec_inv:
  assumes inv: "exec_inv None cx"
    and wait: "wait_until_next_future_ready (env_pq e) hs wake_by_ref cx = Inr (b, cx')"
  shows "exec_inv None cx'" and "final_stopped cx' = final_stopped cx" and "gone cx i \<Longrightarrow> gone cx' i"
proof -
  have "exec_inv None cx' \<and> final_stopped cx' = final_stopped cx \<and> (\<forall>i. gone cx i \<longrightarrow> gone cx' i)"
    using wait
  proof (cases rule: ex_wakers.wait_until_cases)
    case nothing
    then show ?thesis using inv by simp
  next
    case (advance k m eh cx1)
    show ?thesis
      using advance(6)
    proof (induction rule: ex_wakers.wake_due_induct)
      case init
      show ?case
        unfolding advance(5) by (simp, rule exec_inv_frame [OF inv]) auto
    next
      case (turn cx k t q w cx1)
      have "exec_inv None (cx\<lparr>sleep_cells := (sleep_cells cx)(k \<mapsto> Done t), upcoming_events := q\<rparr>)"
        by (rule exec_inv_frame [OF conjunct1 [OF turn(1)]]) (auto split: if_splits)
      then have "exec_inv None cx1" using exec_inv_wake [OF _ turn(4)] by simp
      moreover have "later (cx\<lparr>sleep_cells := (sleep_cells cx)(k \<mapsto> Done t), upcoming_events := q\<rparr>) cx1"
        by (rule later_wake [OF turn(4)])
      then have "gone cx i \<Longrightarrow> gone cx1 i" for i by (auto dest: later_gone [where i = i])
      moreover have "final_stopped cx1 = final_stopped cx"
        using turn(4) by (auto elim!: wake_by_ref_cases)
      ultimately show ?case using turn(1) by simp
    qed
  qed
  then show "exec_inv None cx'" and "final_stopped cx' = final_stopped cx"
    and "gone cx i \<Longrightarrow> gone cx' i" by simp_all
qed

lemma wait_outcome:
  assumes inv: "sim_inv contents None cx"
  shows "case wait_until_next_future_ready (env_pq e) (env_hasher e) wake_by_ref cx of
      Inl p \<Rightarrow> handler_panic (env_hasher e) p
    | Inr (b, cx') \<Rightarrow> sim_inv contents None cx' \<and> no_earlier cx cx' \<and>
        current_node cx' = current_node cx \<and>
        (b \<longleftrightarrow> contents (upcoming_events cx) \<noteq> Map.empty) \<and> (\<not> b \<longrightarrow> cx' = cx)"
proof -
  let ?w = "wait_until_next_future_ready (env_pq e) (env_hasher e) wake_by_ref cx"
  have ti: "timers_inv contents cx" and ei: "exec_inv None cx" using inv by (simp_all add: sim_inv_def)
  have alive: "waker_alive w cx" if "sleep_cells cx k = Some (Waiting w)" for k w
    using waker_alive_exec_inv [OF ei] exec_invD(8) [OF ei that] by blast
  show ?thesis
  proof (cases ?w)
    case (Inl p)
    have "(\<exists>b cx'. ?w = Inr (b, cx')) \<or>
        (\<exists>d p. handle_event (env_hasher e) (TimeAdvanced d) (event_handler cx) = Inl p \<and> ?w = Inl p)"
      by (rule ex_wakers.wait_until_outcome [OF ti]) (rule alive)
    then show ?thesis
      using Inl by (auto simp: handler_panic_def)
  next
    case (Inr x)
    obtain b cx' where x: "x = (b, cx')" by (cases x)
    note w = Inr [unfolded x]
    have "sim_inv contents None cx'"
      using wait_exec_inv(1) [OF ei w] ex_wakers.timers_inv_wait_until [OF ti w]
      by (simp add: sim_inv_def)
    moreover have "sim_time cx \<le> sim_time cx' \<and> cell cx' = cell cx \<and> current_node cx' = current_node cx \<and>
        (b \<longleftrightarrow> contents (upcoming_events cx) \<noteq> Map.empty) \<and> (\<not> b \<longrightarrow> cx' = cx)"
      using w
    proof (cases rule: ex_wakers.wait_until_cases)
      case (advance k m eh cx1)
      have "contents (upcoming_events cx) \<noteq> Map.empty"
        using peek_top [OF advance(1)] by auto
      then show ?thesis
        using ex_wakers.wake_due_effect(3-9) [OF advance(6)] advance(2,5) by simp
    qed simp
    ultimately show ?thesis
      using wait_exec_inv(2,3) [OF ei w] by (simp add: Inr x no_earlier_def)
  qed
qed

lemma loop_turn_outcome:
  assumes inv: "sim_inv contents None cx" and free: "cell cx = CellFree"
  shows "case loop_turn e cx of
      Inl p \<Rightarrow> handler_panic (env_hasher e) p \<or> outside_panic contents e p
    | Inr (go_on, cx') \<Rightarrow> sim_inv contents None cx' \<and> no_earlier cx cx' \<and>
        current_node cx' = current_node cx \<and>
        (\<not> go_on \<longrightarrow> (final_stopped cx' \<or> queue cx' = Some []) \<and>
           contents (upcoming_events cx') = Map.empty)"
proof -
  let ?b = "cx\<lparr>cell := CellBorrowed\<rparr>"
  have invb: "sim_inv contents None ?b" using inv by simp
  show ?thesis
  proof (cases "next_task e ?b")
    case (Inl p)
    then show ?thesis
      using next_task_outcome [OF invb] free by (simp add: loop_turn_def with_cx_def)
  next
    case (Inr x)
    obtain o' c1 where x: "x = (o', c1)" by (cases x)
    let ?c1 = "c1\<lparr>cell := CellFree\<rparr>"
    have w: "with_cx (next_task e) cx = Inr (o', ?c1)"
      using Inr x free by (simp add: with_cx_def)
    show ?thesis
    proof (cases o')
      case None
      have c1: "sim_inv contents None c1" "no_earlier ?b c1" "current_node c1 = current_node cx"
        "final_stopped cx \<or> queue c1 = Some []"
        using next_task_outcome [OF invb] Inr x None by auto
      then have n: "no_earlier cx ?c1" and bb: "sim_inv contents None (?c1\<lparr>cell := CellBorrowed\<rparr>)"
        using free by (simp_all add: no_earlier_def)
      let ?w = "wait_until_next_future_ready (env_pq e) (env_hasher e) wake_by_ref (?c1\<lparr>cell := CellBorrowed\<rparr>)"
      have l: "loop_turn e cx = with_cx (wait_until_next_future_ready (env_pq e) (env_hasher e) wake_by_ref) ?c1"
        using w None by (simp add: loop_turn_def)
      show ?thesis
      proof (cases ?w)
        case i: (Inl p)
        then show ?thesis using wait_outcome [OF bb] l by (simp add: with_cx_def)
      next
        case i: (Inr y)
        obtain b c2 where y: "y = (b, c2)" by (cases y)
        have c2: "sim_inv contents None c2" "no_earlier (?c1\<lparr>cell := CellBorrowed\<rparr>) c2"
          "current_node c2 = current_node cx"
          "\<not> b \<Longrightarrow> c2 = ?c1\<lparr>cell := CellBorrowed\<rparr> \<and> contents (upcoming_events c2) = Map.empty"
          using wait_outcome [OF bb] c1(3) unfolding i y by auto
        have r: "loop_turn e cx = Inr (b, c2\<lparr>cell := CellFree\<rparr>)"
          using i y by (simp add: l with_cx_def)
        have "no_earlier cx (c2\<lparr>cell := CellFree\<rparr>)"
          using n c2(2) free by (simp add: no_earlier_def)
        moreover have "final_stopped cx \<longrightarrow> final_stopped c1" using c1(2) by (simp add: no_earlier_def)
        ultimately show ?thesis
          using c2 c1(4) by (auto simp: r)
      qed
    next
      case (Some t)
      have c1: "sim_inv contents (Some (tk_shared t)) ?c1" "no_earlier ?b c1"
        "current_node c1 = current_node cx" "tk_snd t \<noteq> None"
        using next_task_outcome [OF invb] Inr x Some by auto
      have n: "no_earlier cx ?c1" using c1(2) free by (simp add: no_earlier_def)
      note out = poll_task_outcome [OF c1(1) _ c1(4), simplified]
      show ?thesis
        using out w Some n c1(3) no_earlier_trans [OF n]
        by (cases "poll_task e t ?c1") (auto simp: loop_turn_def)
    qed
  qed
qed

end

section \<open>A run of the loop\<close>

text \<open>A run that returns is a sequence of turns that go on, and one that does not.\<close>

definition turn :: "('h, 'q, 'f, 's, 'x, 'v) env \<Rightarrow> ('h, 'q, 'f, 's, 'x) sim \<Rightarrow>
    ('h, 'q, 'f, 's, 'x) sim \<Rightarrow> bool" where
  "turn e cx cx' \<longleftrightarrow> loop_turn e cx = Inr (True, cx')"

definition run_ends ::
  "('h, 'q, 'f, 's, 'x, 'v) env \<Rightarrow> ('h, 'q, 'f, 's, 'x) sim \<Rightarrow>
    panic + ('h, 'q, 'f, 's, 'x) sim \<Rightarrow> bool" where
  "run_ends e cx r \<longleftrightarrow> (\<exists>cx1. (turn e)\<^sup>*\<^sup>* cx cx1 \<and>
     (case loop_turn e cx1 of Inl p \<Rightarrow> r = Inl p | Inr (go_on, cx2) \<Rightarrow> \<not> go_on \<and> r = Inr cx2))"

lemma run_ends_here:
  "(case loop_turn e cx of Inl p \<Rightarrow> r = Inl p | Inr (go_on, cx2) \<Rightarrow> \<not> go_on \<and> r = Inr cx2) \<Longrightarrow>
    run_ends e cx r"
  unfolding run_ends_def by (rule exI [of _ cx]) simp

lemma run_ends_turn: "turn e cx cx' \<Longrightarrow> run_ends e cx' r \<Longrightarrow> run_ends e cx r"
  unfolding run_ends_def by (meson converse_rtranclp_into_rtranclp)

lemma run_current_context_turns:
  fixes e :: "('h, 'q, 'f, 's, 'x, 'v) env"
  assumes "run_current_context e cx = Some r"
  shows "run_ends e cx r"
proof (rule run_current_context.raw_induct [OF _ assms])
  fix run and e :: "('h, 'q, 'f, 's, 'x, 'v) env" and cx r
  assume IH: "\<And>e cx r. run e cx = Some r \<Longrightarrow> run_ends e cx r"
    and step: "(case loop_turn e cx of
        Inl p \<Rightarrow> Some (Inl p)
      | Inr (go_on, cx') \<Rightarrow> if go_on then run e cx' else Some (Inr cx')) = Some r"
  show "run_ends e cx r"
  proof (cases "\<exists>cx'. loop_turn e cx = Inr (True, cx')")
    case True
    then obtain cx' where "turn e cx cx'" "run e cx' = Some r"
      using step by (auto simp: turn_def)
    then show ?thesis using run_ends_turn IH by blast
  next
    case False
    then show ?thesis
      using step by (intro run_ends_here) (auto split: sum.splits if_splits)
  qed
qed

lemma run_current_context_step:
  "turn e cx cx' \<Longrightarrow> run_current_context e cx = run_current_context e cx'"
  by (subst run_current_context.simps) (simp add: turn_def)

context outside_code
begin

lemma turns_inv:
  assumes "(turn e)\<^sup>*\<^sup>* cx cx'" and "sim_inv contents None cx" and "cell cx = CellFree"
  shows "sim_inv contents None cx' \<and> no_earlier cx cx' \<and> current_node cx' = current_node cx"
  using assms
proof (induction rule: rtranclp_induct)
  case (step b c)
  then have b: "sim_inv contents None b" "no_earlier cx b" "current_node b = current_node cx"
    by simp_all
  then have "cell b = CellFree" using step.prems(2) by (simp add: no_earlier_def)
  then show ?case
    using loop_turn_outcome [OF b(1)] step.hyps(2) b no_earlier_trans [OF b(2)]
    by (auto simp: turn_def)
qed simp

lemma run_outcome:
  assumes inv: "sim_inv contents None cx" and free: "cell cx = CellFree"
  shows "case run_current_context e cx of
      None \<Rightarrow> True
    | Some (Inl p) \<Rightarrow> handler_panic (env_hasher e) p \<or> outside_panic contents e p
    | Some (Inr cx') \<Rightarrow> sim_inv contents None cx' \<and> no_earlier cx cx' \<and>
        current_node cx' = current_node cx \<and> (final_stopped cx' \<or> queue cx' = Some []) \<and>
        contents (upcoming_events cx') = Map.empty"
proof (cases "run_current_context e cx")
  case (Some r)
  then obtain cx1 where turns: "(turn e)\<^sup>*\<^sup>* cx cx1"
    and last: "case loop_turn e cx1 of Inl p \<Rightarrow> r = Inl p | Inr (go_on, cx2) \<Rightarrow> \<not> go_on \<and> r = Inr cx2"
    using run_current_context_turns unfolding run_ends_def by blast
  note i1 = turns_inv [OF turns inv free]
  have free1: "cell cx1 = CellFree" using i1 free by (simp add: no_earlier_def)
  note out = loop_turn_outcome [OF conjunct1 [OF i1] free1]
  show ?thesis
  proof (cases "loop_turn e cx1")
    case (Inl p)
    then show ?thesis using last out Some by simp
  next
    case (Inr x)
    obtain b cx2 where "x = (b, cx2)" by (cases x)
    moreover have "no_earlier cx1 cx2 \<Longrightarrow> no_earlier cx cx2" using i1 no_earlier_trans by blast
    ultimately show ?thesis using last out Some Inr i1 by simp
  qed
qed simp

end

end
