(* ===== verification/Runner.thy ===== *)
theory Runner
  imports MainLoop
begin

text \<open>
  \<open>src/context_install_guard.rs\<close> and the running of one simulation in \<open>src/sim_builder.rs\<close>: the
  thread's context is installed, the root task spawned, the main loop run, and the context
  destroyed. A computation that may not return is an option of a panic or a value.
\<close>

section \<open>Computations that may not return\<close>

definition andThenO ::
  "(panic + 'a) option \<Rightarrow> ('a \<Rightarrow> (panic + 'b) option) \<Rightarrow> (panic + 'b) option" where
  "andThenO r f = (case r of None \<Rightarrow> None | Some (Inl p) \<Rightarrow> Some (Inl p) | Some (Inr a) \<Rightarrow> f a)"

lemma andThenO_simps [simp]:
  "andThenO None f = None"
  "andThenO (Some (Inl p)) f = Some (Inl p)"
  "andThenO (Some (Inr a)) f = f a"
  by (simp_all add: andThenO_def)

lemma andThenO_eq_Inr:
  "andThenO r f = Some (Inr b) \<longleftrightarrow> (\<exists>a. r = Some (Inr a) \<and> f a = Some (Inr b))"
  by (auto simp: andThenO_def split: option.splits sum.splits)

lemma andThenO_eq_Inl:
  "andThenO r f = Some (Inl p) \<longleftrightarrow>
     r = Some (Inl p) \<or> (\<exists>a. r = Some (Inr a) \<and> f a = Some (Inl p))"
  by (auto simp: andThenO_def split: option.splits sum.splits)

section \<open>Installing the context\<close>

text \<open>
  \<open>ContextInstallGuard::new\<close>. The generator of \<open>SimCxu\<close>, seeded here, is that of \<open>Interception\<close>; the real
  clock is what \<open>Instant::now()\<close> would return outside of a simulation.
\<close>

definition install_context ::
  "('h, 'q, 'f, 's, 'x, 'v) env \<Rightarrow> 'h handler \<Rightarrow> duration \<Rightarrow> instant \<Rightarrow> ('h, 'q, 'f, 's, 'x) sim \<Rightarrow>
    panic + ('h, 'q, 'f, 's, 'x) sim" where
  "install_context e eh start_time real_clock cx =
     (if once_set cx then Inl UnwrapNone
      else
        let cx = cx\<lparr>once_set := True, current_node := INIT, pre_next_global_id := 0,
          sim_time := start_time\<rparr> in
        if queue cx \<noteq> None then Inl AssertFailed
        else
          let cx = cx\<lparr>queue := Some []\<rparr> in
          (case cell cx of
             CellBorrowed \<Rightarrow> Inl BorrowMutError
           | CellFree \<Rightarrow> Inl AssertFailed
           | CellNone \<Rightarrow>
               Inr ((fresh_executor e real_clock cx)
                 \<lparr>cell := CellFree, event_handler := eh, simulators := [],
                  simulators_by_type := Map.empty\<rparr>)))"

section \<open>Destroying it\<close>

text \<open>
  The three parts of \<open>ContextInstallGuard::destroy\<close>. The first checks that nothing is left to do,
  unless the thread is unwinding, and stops the simulation; it returns the simulated time, or
  nothing if the context was already gone.
\<close>

definition begin_destroy ::
  "('h, 'q, 'f, 's, 'x, 'v) env \<Rightarrow> bool \<Rightarrow> ('h, 'q, 'f, 's, 'x) sim \<Rightarrow>
    panic + duration option \<times> ('h, 'q, 'f, 's, 'x) sim" where
  "begin_destroy e panicking cx =
     andThen
       (if debug_build e
        then andThen (cx_current_node cx) (\<lambda>n. if n = INIT then Inr () else Inl AssertFailed)
        else Inr ()) (\<lambda>_.
     case cell cx of
       CellBorrowed \<Rightarrow> Inl BorrowMutError
     | CellNone \<Rightarrow> Inr (None, cx)
     | CellFree \<Rightarrow>
         if \<not> once_set cx then Inl UnwrapNone
         else
           let time = sim_time cx in
           andThen (none_ready cx) (\<lambda>none.
           if none \<or> panicking \<or> final_stopped cx
           then andThen (stop_simulation e cx) (\<lambda>(_, cx). Inr (Some time, cx))
           else Inl AssertFailed))"

text \<open>The loop that drops the simulators, last one first; destructors are outside code.\<close>

definition pop_simulator ::
  "('h, 'q, 'f, 's, 'x) sim \<Rightarrow> panic + 's option option \<times> ('h, 'q, 'f, 's, 'x) sim" where
  "pop_simulator cx =
     (if simulators cx = [] then Inr (None, cx)
      else Inr (Some (last (simulators cx)), cx\<lparr>simulators := butlast (simulators cx)\<rparr>))"

partial_function (option) drop_simulators ::
  "('h, 'q, 'f, 's, 'x, 'v) env \<Rightarrow> ('h, 'q, 'f, 's, 'x) sim \<Rightarrow>
    (panic + ('h, 'q, 'f, 's, 'x) sim) option" where
  "drop_simulators e cx =
     (case with_cx pop_simulator cx of
        Inl p \<Rightarrow> Some (Inl p)
      | Inr (None, cx) \<Rightarrow> Some (Inr cx)
      | Inr (Some None, cx) \<Rightarrow> Some (Inl UnwrapNone)
      | Inr (Some (Some s), cx) \<Rightarrow>
          (case drop_simulator e s cx of
             Inl p \<Rightarrow> Some (Inl p)
           | Inr cx \<Rightarrow> drop_simulators e cx))"

declare drop_simulators.simps [code]

text \<open>
  Taking the context out of its cell. The rest of \<open>SimCxl\<close> is dropped at the end of the statement
  that takes it, before the events are finalised: among it the task map, whose futures, if there
  are any left, are dropped with the cell empty.
\<close>

record simulation_output =
  time_elapsed :: duration
  out_events :: any

definition task_ids ::
  "('h, 'q, 'f, 's, 'x, 'v) env \<Rightarrow> ('h, 'q, 'f, 's, 'x) sim \<Rightarrow> id list" where
  "task_ids e cx =
     set_order e (filter (\<lambda>i. tasks cx i \<noteq> None)
       (map (\<lambda>n. Id (of_nat n)) [1..<Suc (unat (pre_next_global_id cx))]))"

definition entry_task :: "'f task_entry option \<Rightarrow> 'f task option" where
  "entry_task te = (case te of None \<Rightarrow> None | Some te \<Rightarrow> te_task te)"

definition end_destroy ::
  "('h, 'q, 'f, 's, 'x, 'v) env \<Rightarrow> bool \<Rightarrow> duration \<Rightarrow> ('h, 'q, 'f, 's, 'x) sim \<Rightarrow>
    panic + simulation_output \<times> ('h, 'q, 'f, 's, 'x) sim" where
  "end_destroy e finalize_events time cx =
     (case cell cx of
        CellBorrowed \<Rightarrow> Inl BorrowMutError
      | CellNone \<Rightarrow> Inl UnwrapNone
      | CellFree \<Rightarrow>
          let handler = event_handler cx; old = tasks cx in
          andThen
            (foldE (\<lambda>i. drop_task_option e (entry_task (old i))) (task_ids e cx)
              (cx\<lparr>cell := CellNone, tasks := Map.empty\<rparr>)) (\<lambda>cx.
          andThen (if finalize_events then finalize (env_hasher e) handler else Inr AnyUnit) (\<lambda>evs.
          Inr (\<lparr>time_elapsed = time, out_events = evs\<rparr>, cx))))"

definition destroy ::
  "('h, 'q, 'f, 's, 'x, 'v) env \<Rightarrow> bool \<Rightarrow> bool \<Rightarrow> ('h, 'q, 'f, 's, 'x) sim \<Rightarrow>
    (panic + simulation_output option \<times> ('h, 'q, 'f, 's, 'x) sim) option" where
  "destroy e panicking finalize_events cx =
     andThenO (Some (begin_destroy e panicking cx)) (\<lambda>(time, cx).
     case time of
       None \<Rightarrow> Some (Inr (None, cx))
     | Some time \<Rightarrow>
         andThenO (drop_simulators e cx) (\<lambda>cx.
         andThenO (Some (end_destroy e finalize_events time cx)) (\<lambda>(out, cx).
         Some (Inr (Some out, cx)))))"

section \<open>One simulation\<close>

text \<open>
  \<open>SimBuilder::run_simulation\<close>, on the state of a new thread: the guard is destroyed once for its
  output and once more by its own drop. \<open>init_fn\<close> is the closure that creates and spawns the
  root future.
\<close>

definition run_simulation ::
  "('h, 'q, 'f, 's, 'x, 'v) env \<Rightarrow>
    (('h, 'q, 'f, 's, 'x) sim \<Rightarrow> panic + ('h, 'q, 'f, 's, 'x) sim) \<Rightarrow> 'h handler \<Rightarrow> duration \<Rightarrow>
    instant \<Rightarrow> ('h, 'q, 'f, 's, 'x) sim \<Rightarrow>
    (panic + simulation_output \<times> ('h, 'q, 'f, 's, 'x) sim) option" where
  "run_simulation e init_fn eh start_time real_clock thread =
     andThenO (Some (install_context e eh start_time real_clock thread)) (\<lambda>cx.
     andThenO (Some (init_fn cx)) (\<lambda>cx.
     andThenO (run_current_context e cx) (\<lambda>cx.
     andThenO (destroy e False True cx) (\<lambda>(out, cx).
     andThenO (Some (unwrap out)) (\<lambda>out.
     andThenO (destroy e False False cx) (\<lambda>(_, cx).
     Some (Inr (out, cx))))))))"

text \<open>
  \<open>SimBuilder::run\<close>'s match on the determinism check. \<open>run_with_events\<close> runs one simulation with
  the given event handler; it may read and change a state \<open>g\<close> of the process, since neither the
  closure that creates the root future nor the code under test is free of state.
\<close>

datatype determinism_check = CheckNone | CheckFull nat | CheckHash nat

fun repeat_runs :: "nat \<Rightarrow> ('g \<Rightarrow> (panic + 'g) option) \<Rightarrow> 'g \<Rightarrow> (panic + 'g) option" where
  "repeat_runs 0 run g = Some (Inr g)"
| "repeat_runs (Suc n) run g = andThenO (run g) (repeat_runs n run)"

definition checked_run ::
  "'h handler \<Rightarrow> (any \<Rightarrow> panic + 'h handler) \<Rightarrow> nat \<Rightarrow>
    ('h handler \<Rightarrow> 'g \<Rightarrow> (panic + 'z simulation_output_scheme \<times> 'g) option) \<Rightarrow> 'g \<Rightarrow>
    (panic + 'z simulation_output_scheme \<times> 'g) option" where
  "checked_run recorder checker iterations run_with_events g =
     (if iterations \<le> 1 then Some (Inl AssertFailed)
      else
        andThenO (run_with_events recorder g) (\<lambda>(out, g).
        andThenO (Some (checker (out_events out))) (\<lambda>_.
        andThenO
          (repeat_runs (iterations - 1) (\<lambda>g.
             andThenO (Some (checker (out_events out))) (\<lambda>eh.
             andThenO (run_with_events eh g) (\<lambda>(_, g). Some (Inr g)))) g) (\<lambda>g.
        Some (Inr (out\<lparr>out_events := AnyUnit\<rparr>, g))))))"

fun builder_run ::
  "'h hasher \<Rightarrow> determinism_check \<Rightarrow>
    ('h handler \<Rightarrow> 'g \<Rightarrow> (panic + 'z simulation_output_scheme \<times> 'g) option) \<Rightarrow> 'g \<Rightarrow>
    (panic + 'z simulation_output_scheme \<times> 'g) option" where
  "builder_run hs CheckNone run_with_events g = run_with_events NoopEventHandler g"
| "builder_run hs (CheckFull n) run_with_events g =
     checked_run (full_recorder hs) (full_checker hs) n run_with_events g"
| "builder_run hs (CheckHash n) run_with_events g =
     checked_run (hash_recorder hs) (hash_checker hs) n run_with_events g"

section \<open>What the determinism check of a builder detects\<close>

text \<open>
  A program under test as the builder sees it: a run from the process state \<open>g\<close> reports the
  events \<open>trace g\<close> to the handler it is given and leaves the process in the state \<open>succ g\<close>.
\<close>

definition traced_run ::
  "'h hasher \<Rightarrow> ('g \<Rightarrow> event list) \<Rightarrow> ('g \<Rightarrow> duration) \<Rightarrow> ('g \<Rightarrow> 'g) \<Rightarrow> 'h handler \<Rightarrow> 'g \<Rightarrow>
    (panic + simulation_output \<times> 'g) option" where
  "traced_run hs trace elapsed succ eh g =
     Some (andThen (observe (handle_event hs) (finalize hs) eh (trace g)) (\<lambda>evs.
       Inr (\<lparr>time_elapsed = elapsed g, out_events = evs\<rparr>, succ g)))"

text \<open>
  The builder's loop is \<open>check_runs\<close> on the traces of the successive process states.
\<close>

lemma repeat_traced:
  assumes "checker o1 = Inr k"
  shows "repeat_runs n (\<lambda>g. andThenO (Some (checker o1)) (\<lambda>eh.
      andThenO (traced_run hs trace elapsed succ eh g) (\<lambda>(_, g). Some (Inr g)))) g =
    Some (andThen
      (foldE (\<lambda>es _. andThen (checker o1) (\<lambda>k.
          andThen (observe (handle_event hs) (finalize hs) k es) (\<lambda>_. Inr ())))
        (map (\<lambda>i. trace ((succ ^^ i) g)) [0..<n]) ())
      (\<lambda>_. Inr ((succ ^^ n) g)))"
proof (induction n arbitrary: g)
  case (Suc n)
  have upt: "[0..<Suc n] = 0 # map Suc [0..<n]" by (simp add: map_Suc_upt upt_conv_Cons)
  show ?case
  proof (cases "observe (handle_event hs) (finalize hs) k (trace g)")
    case (Inl p)
    then show ?thesis using assms unfolding upt by (simp add: traced_run_def)
  next
    case (Inr a)
    then show ?thesis
      using assms Suc.IH [of "succ g"] unfolding upt
      by (simp add: traced_run_def funpow_swap1 o_def)
  qed
qed simp

lemma checked_run_traced:
  assumes check: "determinism_check (handle_event hs) (finalize hs) recorder checker same"
    and n: "1 < n"
  shows "checked_run recorder checker n (traced_run hs trace elapsed succ) g =
    Some (andThen
      (check_runs (handle_event hs) (finalize hs) recorder checker (trace g)
        (map (\<lambda>i. trace ((succ ^^ Suc i) g)) [0..<n - 1]))
      (\<lambda>_. Inr (\<lparr>time_elapsed = elapsed g, out_events = AnyUnit\<rparr>, (succ ^^ n) g)))"
proof -
  obtain o1 k where o1: "observe (handle_event hs) (finalize hs) recorder (trace g) = Inr o1"
    and k: "checker o1 = Inr k"
    using determinism_check.recorder_total [OF check] by blast
  let ?rest = "foldE (\<lambda>es _. andThen (checker o1) (\<lambda>k.
      andThen (observe (handle_event hs) (finalize hs) k es) (\<lambda>_. Inr ())))
    (map (\<lambda>i. trace ((succ ^^ i) (succ g))) [0..<n - 1]) ()"
  have "checked_run recorder checker n (traced_run hs trace elapsed succ) g =
    andThenO (Some (andThen ?rest (\<lambda>_. Inr ((succ ^^ (n - 1)) (succ g)))))
      (\<lambda>g'. Some (Inr (\<lparr>time_elapsed = elapsed g, out_events = AnyUnit\<rparr>, g')))"
    using n o1 k repeat_traced [where checker = checker and ?o1.0 = o1 and k = k, OF k, of "n - 1" hs trace elapsed succ "succ g"]
    by (simp add: checked_run_def traced_run_def [of _ _ _ _ recorder])
  also have "\<dots> = Some (andThen ?rest
      (\<lambda>_. Inr (\<lparr>time_elapsed = elapsed g, out_events = AnyUnit\<rparr>, (succ ^^ (n - 1)) (succ g))))"
    by (cases ?rest) simp_all
  also have "(succ ^^ (n - 1)) (succ g) = (succ ^^ n) g"
    using n by (cases n) (simp_all add: funpow_swap1)
  also have "?rest = check_runs (handle_event hs) (finalize hs) recorder checker (trace g)
      (map (\<lambda>i. trace ((succ ^^ Suc i) g)) [0..<n - 1])"
    using o1 by (simp add: check_runs_def funpow_swap1)
  finally show ?thesis .
qed

section \<open>Installing and destroying, under the invariant\<close>

text \<open>A thread that has not run anything of the crate: its \<open>SimCx\<close> is as \<open>thread_local!\<close> makes it.\<close>

definition fresh_thread :: "('h, 'q, 'f, 's, 'x) sim \<Rightarrow> bool" where
  "fresh_thread cx \<longleftrightarrow>
     \<not> once_set cx \<and> queue cx = None \<and> cell cx = CellNone \<and>
     sleep_cells cx = Map.empty \<and> arcs cx = Map.empty"

text \<open>
  The states in which the main loop of a simulation starts: the context was installed on a fresh
  thread, and outside code, the closure that creates the root future, has run.
\<close>

definition loop_start ::
  "('h, 'q, 'f, 's, 'x, 'v) env \<Rightarrow> instant \<Rightarrow> ('h, 'q, 'f, 's, 'x) sim \<Rightarrow> bool" where
  "loop_start e start_time cx \<longleftrightarrow>
     (\<exists>thread eh real_clock cx0. fresh_thread thread \<and> start_time \<le> instant_max \<and>
        install_context e eh start_time real_clock thread = Inr cx0 \<and> outside_call e cx0 cx)"

context outside_code
begin

lemma install_inv:
  assumes "fresh_thread cx" and "start_time \<le> instant_max"
  obtains cx' where "install_context e eh start_time real_clock cx = Inr cx'"
    "sim_inv contents None cx'" "cell cx' = CellFree" "current_node cx' = INIT"
    "sim_time cx' = start_time" "queue cx' = Some []" "\<not> final_stopped cx'"
    "nodes cx' = [\<lparr>run_level = Running, node_tasks = []\<rparr>]" "event_handler cx' = eh"
proof -
  let ?r = "install_context e eh start_time real_clock cx"
  obtain cx' where r: "?r = Inr cx'"
    using assms(1) by (auto simp: install_context_def fresh_thread_def Let_def)
  have "exec_inv None cx'"
    using assms(1) r
    by (auto simp: install_context_def fresh_thread_def Let_def fresh_executor_def exec_inv_def
        task_ok_def node_ok_def)
  moreover have "timers_inv contents cx'"
    using assms r
    by (auto simp: install_context_def fresh_thread_def Let_def fresh_executor_def timers_inv_def
        instant_now_def contents_new)
  ultimately have "sim_inv contents None cx'" by (simp add: sim_inv_def)
  then show ?thesis
    using assms(1) r
    by (intro that [OF r])
      (auto simp: install_context_def fresh_thread_def Let_def fresh_executor_def)
qed

lemma loop_start_inv:
  assumes "loop_start e start_time cx"
  shows "sim_inv contents None cx" and "cell cx = CellFree" and "current_node cx = INIT"
    and "sim_time cx = start_time"
proof -
  obtain thread eh real_clock cx0 where t: "fresh_thread thread" "start_time \<le> instant_max"
    "install_context e eh start_time real_clock thread = Inr cx0" and o': "outside_call e cx0 cx"
    using assms by (auto simp: loop_start_def)
  obtain c where "install_context e eh start_time real_clock thread = Inr c"
    "sim_inv contents None c" "cell c = CellFree" "current_node c = INIT" "sim_time c = start_time"
    by (rule install_inv [OF t(1,2)])
  then have c: "sim_inv contents None cx0" "cell cx0 = CellFree" "current_node cx0 = INIT"
    "sim_time cx0 = start_time"
    using t(3) by simp_all
  note o = outside_call_inv [OF o' c(1)]
  show "sim_inv contents None cx" "cell cx = CellFree" "current_node cx = INIT" "sim_time cx = start_time"
    using o c(2-4) laterD(1,3) [OF o(2)] by simp_all
qed

text \<open>After a run that returned, the checks of \<open>destroy\<close> hold.\<close>

lemma destroy_checks:
  assumes inv: "sim_inv contents None cx" and free: "cell cx = CellFree" and node: "current_node cx = INIT"
    and run: "run_current_context e cx = Some (Inr cx')"
  shows "begin_destroy e panicking cx' =
    andThen (stop_simulation e cx') (\<lambda>(_, c). Inr (Some (sim_time cx'), c))"
proof -
  have "sim_inv contents None cx'" "cell cx' = CellFree" "current_node cx' = INIT"
    "final_stopped cx' \<or> queue cx' = Some []"
    using run_outcome [OF inv free] run node free by (simp_all add: no_earlier_def)
  moreover from this(1) have "once_set cx'" "\<exists>q. queue cx' = Some q"
    using exec_invD(1,2) unfolding sim_inv_def by blast+
  ultimately show ?thesis
    by (auto simp: begin_destroy_def cx_current_node_def none_ready_def)
qed

end

end
