(* ===== verification/Builder.thy ===== *)
theory Builder
  imports Runner
begin

text \<open>
  The rest of \<open>src/sim_builder.rs\<close>: the builder and its setters, the root future that \<open>run\<close> makes
  of the closure of the user, the cell through which its output leaves the simulation, and \<open>run\<close>.
\<close>

section \<open>The builder\<close>

record sim_builder =
  seed :: u64
  simulation_start_time :: duration
  builder_check :: determinism_check

definition default_builder :: sim_builder where
  "default_builder =
     \<lparr>seed = 0, simulation_start_time = 1648339195 * 10 ^ 9, builder_check = CheckFull 2\<rparr>"

definition new_builder :: sim_builder where
  "new_builder = default_builder"

definition with_seed :: "u64 \<Rightarrow> sim_builder \<Rightarrow> sim_builder" where
  "with_seed s b = b\<lparr>seed := s\<rparr>"

text \<open>A \<open>SystemTime\<close> is the signed time since the Unix epoch, in nanoseconds.\<close>

definition with_simulation_start_time :: "int \<Rightarrow> sim_builder \<Rightarrow> panic + sim_builder" where
  "with_simulation_start_time t b =
     andThen (unwrap (if t < 0 then None else Some (nat t))) (\<lambda>d.
     Inr (b\<lparr>simulation_start_time := d\<rparr>))"

definition with_determinism_check :: "determinism_check \<Rightarrow> sim_builder \<Rightarrow> sim_builder" where
  "with_determinism_check c b = b\<lparr>builder_check := c\<rparr>"

text \<open>
  \<open>new_test\<close>: the number of iterations comes from a variable of the process's environment, if it is
  set. \<open>usize::from_str\<close> takes decimal digits after an optional plus sign.
\<close>

definition digit :: "char \<Rightarrow> nat option" where
  "digit c = (let n = of_char c :: nat in if 48 \<le> n \<and> n \<le> 57 then Some (n - 48) else None)"

fun parse_digits :: "string \<Rightarrow> nat \<Rightarrow> nat option" where
  "parse_digits [] n = Some n"
| "parse_digits (c # cs) n =
     (case digit c of
        None \<Rightarrow> None
      | Some d \<Rightarrow> if 2 ^ 64 \<le> 10 * n + d then None else parse_digits cs (10 * n + d))"

definition parse_usize :: "string \<Rightarrow> nat option" where
  "parse_usize s =
     (let cs = (case s of [] \<Rightarrow> [] | c # r \<Rightarrow> if c = CHR ''+'' then r else s) in
      if cs = [] then None else parse_digits cs 0)"

definition test_iterations :: "string option \<Rightarrow> panic + nat" where
  "test_iterations var = (case var of None \<Rightarrow> Inr 3 | Some s \<Rightarrow> unwrap (parse_usize s))"

definition new_test :: "string option \<Rightarrow> panic + sim_builder" where
  "new_test var =
     andThen (test_iterations var) (\<lambda>n.
     Inr (with_determinism_check (CheckFull n) default_builder))"

section \<open>The root future\<close>

text \<open>
  The \<open>Arc<OnceLock>\<close> that \<open>run\<close> shares with the root future: its value and its reference count.
  It lives in the state of outside code, where \<open>get_ret\<close> and \<open>put_ret\<close> find it.
\<close>

record 'v ret_cell =
  ret_value :: "'v option"
  ret_count :: nat

text \<open>The states of the \<open>async\<close> block: before its end it holds the future and a reference.\<close>

datatype 'f root = RootAwaiting 'f | RootDone

record ('f, 'x, 'v) root_ops =
  root_future :: "'f root \<Rightarrow> 'f"
  get_ret :: "'x \<Rightarrow> 'v ret_cell"
  put_ret :: "'v ret_cell \<Rightarrow> 'x \<Rightarrow> 'x"

definition set_output ::
  "('f, 'x, 'v) root_ops \<Rightarrow> 'v \<Rightarrow> ('h, 'q, 'f, 's, 'x) sim \<Rightarrow> panic + ('h, 'q, 'f, 's, 'x) sim" where
  "set_output ro v cx =
     (let c = get_ret ro (ext cx) in
      if ret_value c \<noteq> None then Inl UnwrapNone
      else Inr (cx\<lparr>ext := put_ret ro (c\<lparr>ret_value := Some v\<rparr>) (ext cx)\<rparr>))"

definition release_output ::
  "('f, 'x, 'v) root_ops \<Rightarrow> ('h, 'q, 'f, 's, 'x) sim \<Rightarrow> ('h, 'q, 'f, 's, 'x) sim" where
  "release_output ro cx =
     (let c = get_ret ro (ext cx) in
      cx\<lparr>ext := put_ret ro (c\<lparr>ret_count := ret_count c - 1\<rparr>) (ext cx)\<rparr>)"

text \<open>
  Awaiting the future drops it when it is ready, before its result is stored; the reference goes
  when the block is done. A block that is dropped before drops the future and the reference.
\<close>

fun root_poll ::
  "('h, 'q, 'f, 's, 'x, 'v) env \<Rightarrow> ('f, 'x, 'v) root_ops \<Rightarrow> id \<Rightarrow> 'f root \<Rightarrow>
    ('h, 'q, 'f, 's, 'x) sim \<Rightarrow> panic + ('f root \<times> unit poll) \<times> ('h, 'q, 'f, 's, 'x) sim" where
  "root_poll e ro waker (RootAwaiting fut) cx =
     andThen (poll_future e waker fut cx) (\<lambda>((fut, r), cx).
     case r of
       Pending \<Rightarrow> Inr ((RootAwaiting fut, Pending), cx)
     | Ready v \<Rightarrow>
         andThen (drop_future e fut cx) (\<lambda>cx.
         andThen (set_output ro v cx) (\<lambda>cx.
         andThen (stop_simulation e cx) (\<lambda>(_, cx).
         Inr ((RootDone, Ready ()), release_output ro cx)))))"
| "root_poll e ro waker RootDone cx = Inl Unreachable"

fun root_drop ::
  "('h, 'q, 'f, 's, 'x, 'v) env \<Rightarrow> ('f, 'x, 'v) root_ops \<Rightarrow> 'f root \<Rightarrow>
    ('h, 'q, 'f, 's, 'x) sim \<Rightarrow> panic + ('h, 'q, 'f, 's, 'x) sim" where
  "root_drop e ro (RootAwaiting fut) cx =
     andThen (drop_future e fut cx) (\<lambda>cx. Inr (release_output ro cx))"
| "root_drop e ro RootDone cx = Inr cx"

section \<open>Running\<close>

text \<open>
  The closure \<open>init_fn\<close> of \<open>run_with_events\<close>: the closure of the user makes the future, the root
  future is spawned and its handle detached.
\<close>

definition init_fn ::
  "('h, 'q, 'f, 's, 'x, 'v) env \<Rightarrow> ('f, 'x, 'v) root_ops \<Rightarrow>
    (('h, 'q, 'f, 's, 'x) sim \<Rightarrow> panic + 'f \<times> ('h, 'q, 'f, 's, 'x) sim) \<Rightarrow>
    ('h, 'q, 'f, 's, 'x) sim \<Rightarrow> panic + ('h, 'q, 'f, 's, 'x) sim" where
  "init_fn e ro f cx =
     andThen (f cx) (\<lambda>(fut, cx).
     andThen (spawn e (root_future ro (RootAwaiting fut)) cx) (\<lambda>(_, cx). Inr cx))"

text \<open>The output of a run: that of the simulation with the output of the root future.\<close>

record 'v run_output = simulation_output +
  run_value :: "'v option"

definition run_result ::
  "('f, 'x, 'v) root_ops \<Rightarrow> duration \<Rightarrow> simulation_output \<Rightarrow> ('h, 'q, 'f, 's, 'x) sim \<Rightarrow>
    panic + 'v run_output \<times> 'x" where
  "run_result ro start_time out cx =
     (if time_elapsed out < start_time then Inl Overflow
      else
        let c = get_ret ro (ext cx) in
        andThen (unwrap (if ret_count c = 1 then Some (ret_value c) else None)) (\<lambda>v.
        Inr (\<lparr>time_elapsed = time_elapsed out - start_time, out_events = out_events out,
          run_value = v\<rparr>, ext cx)))"

text \<open>
  \<open>run_with_events\<close>: each run is on a new thread, and what lasts from one run to the next is the
  state of outside code.
\<close>

definition run_with_events ::
  "('h, 'q, 'f, 's, 'x, 'v) env \<Rightarrow> ('f, 'x, 'v) root_ops \<Rightarrow>
    (('h, 'q, 'f, 's, 'x) sim \<Rightarrow> panic + 'f \<times> ('h, 'q, 'f, 's, 'x) sim) \<Rightarrow>
    ('x \<Rightarrow> ('h, 'q, 'f, 's, 'x) sim) \<Rightarrow> ('x \<Rightarrow> instant) \<Rightarrow> sim_builder \<Rightarrow> 'h handler \<Rightarrow> 'x \<Rightarrow>
    (panic + 'v run_output \<times> 'x) option" where
  "run_with_events e ro f new_thread real_clock b eh x =
     (let x = put_ret ro \<lparr>ret_value = None, ret_count = 2\<rparr> x in
      andThenO (run_simulation e (init_fn e ro f) eh (simulation_start_time b) (real_clock x) (new_thread x))
        (\<lambda>(out, cx). Some (run_result ro (simulation_start_time b) out cx)))"

definition builder_run_all ::
  "('h, 'q, 'f, 's, 'x, 'v) env \<Rightarrow> ('f, 'x, 'v) root_ops \<Rightarrow>
    (('h, 'q, 'f, 's, 'x) sim \<Rightarrow> panic + 'f \<times> ('h, 'q, 'f, 's, 'x) sim) \<Rightarrow>
    ('x \<Rightarrow> ('h, 'q, 'f, 's, 'x) sim) \<Rightarrow> ('x \<Rightarrow> instant) \<Rightarrow> sim_builder \<Rightarrow> 'x \<Rightarrow>
    (panic + 'v run_output \<times> 'x) option" where
  "builder_run_all e ro f new_thread real_clock b =
     builder_run (env_hasher e) (builder_check b) (run_with_events e ro f new_thread real_clock b)"

text \<open>\<open>SimulationOutput::unwrap\<close>.\<close>

definition unwrap_output :: "'v run_output \<Rightarrow> panic + 'v" where
  "unwrap_output out = unwrap (run_value out)"

end
