(* ===== verification/Network.thy ===== *)
theory Network
  imports Nodes "HOL-Library.AList"
begin

text \<open>
  \<open>src/net.rs\<close>: the packet network. \<open>Net\<close> is a simulator: it is reached through the registry,
  and every operation below runs with it taken out of its slot. Its inboxes are channels of
  \<open>futures_intrusive\<close>, shared through \<open>Rc\<close> by the map of the network and the sockets; a channel is
  a number and lives in the state of outside code. Packets are values of the simulated program,
  of type \<open>'p\<close>; an \<open>io::Error\<close> has the type \<open>'er\<close>. Packets have no destructors here, and the
  strong count of an \<open>Rc\<close> enters only where \<open>Rc::try_unwrap\<close> asks for it.
\<close>

section \<open>Addresses, keys and service levels\<close>

datatype addr = Addr (addr_node: node_id) (addr_port: id)

text \<open>\<open>#[derive(Ord, PartialOrd)]\<close>: lexicographic in the order of the fields.\<close>

instantiation addr :: linorder
begin

definition less_eq_addr :: "addr \<Rightarrow> addr \<Rightarrow> bool" where
  "less_eq_addr a b \<longleftrightarrow>
     addr_node a < addr_node b \<or> addr_node a = addr_node b \<and> addr_port a \<le> addr_port b"

definition less_addr :: "addr \<Rightarrow> addr \<Rightarrow> bool" where
  "less_addr a b \<longleftrightarrow>
     addr_node a < addr_node b \<or> addr_node a = addr_node b \<and> addr_port a < addr_port b"

instance
proof
  fix a b c :: addr
  show "a < b \<longleftrightarrow> a \<le> b \<and> \<not> b \<le> a" and "a \<le> a" and "a \<le> b \<or> b \<le> a"
    by (auto simp: less_eq_addr_def less_addr_def)
  show "a \<le> c" if "a \<le> b" "b \<le> c"
    using that by (auto simp: less_eq_addr_def)
  show "a = b" if "a \<le> b" "b \<le> a"
    using that by (cases a; cases b) (auto simp: less_eq_addr_def)
qed

end

record ordering_key =
  key_ty :: "type_id option"
  key_dst_addr :: "addr option"

definition empty_key :: ordering_key where
  "empty_key = \<lparr>key_ty = None, key_dst_addr = None\<rparr>"

text \<open>The two refinements of a key assert that the part they add was not there.\<close>

definition with_dst_addr :: "addr \<Rightarrow> ordering_key \<Rightarrow> panic + ordering_key" where
  "with_dst_addr a key =
     (if key_dst_addr key \<noteq> None then Inl AssertFailed else Inr (key\<lparr>key_dst_addr := Some a\<rparr>))"

definition with_type :: "type_id \<Rightarrow> ordering_key \<Rightarrow> panic + ordering_key" where
  "with_type ty key =
     (if key_ty key \<noteq> None then Inl AssertFailed else Inr (key\<lparr>key_ty := Some ty\<rparr>))"

record service_level =
  ordering :: "ordering_key option"
  allow_drop :: bool
  allow_multiple :: bool

section \<open>Packets\<close>

text \<open>
  \<open>trait Packet\<close>: its three methods, and the type of the value, which \<open>packet_type_id\<close> returns
  unless it is overridden. The defaults of the other two are below.
\<close>

record 'p packet_ops =
  packet_concrete :: "'p \<Rightarrow> type_id"
  packet_type_id :: "'p \<Rightarrow> type_id"
  packet_level :: "'p \<Rightarrow> addr \<Rightarrow> addr \<Rightarrow> service_level"
  clone_packet :: "'p \<Rightarrow> panic + 'p"

definition default_level :: "addr \<Rightarrow> addr \<Rightarrow> service_level" where
  "default_level src dst = \<lparr>ordering = None, allow_drop = True, allow_multiple = False\<rparr>"

text \<open>The default \<open>clone_packet\<close> is \<open>unimplemented!()\<close>.\<close>

definition default_clone :: "'p \<Rightarrow> panic + 'p" where
  "default_clone p = Inl Unimplemented"

record packet_header =
  hd_src :: addr
  hd_dst :: addr
  hd_ty :: type_id
  hd_level :: service_level

record 'p packet_rc =
  header :: packet_header
  packet :: 'p

definition new_packet :: "'p packet_ops \<Rightarrow> addr \<Rightarrow> addr \<Rightarrow> 'p \<Rightarrow> 'p packet_rc" where
  "new_packet po src dst p =
     \<lparr>header = \<lparr>hd_src = src, hd_dst = dst, hd_ty = packet_type_id po p,
        hd_level = packet_level po p src dst\<rparr>, packet = p\<rparr>"

section \<open>The network\<close>

text \<open>
  An inbox belongs to an address and a packet type. What it holds is \<open>Result<PacketRc, Error>\<close>:
  \<open>Inr\<close> a packet or \<open>Inl\<close> an error.
\<close>

type_synonym inbox_key = "addr \<times> type_id"
type_synonym ('p, 'er) message = "'er + 'p packet_rc"

text \<open>The send functions: \<open>perfect_connectivity\<close> of this module, or a closure of the program.\<close>

datatype 'g send_function = PerfectConnectivity duration | UserFunction 'g

text \<open>\<open>SendFunctionOutput\<close>: a result at once or a future of the program.\<close>

datatype ('er, 'f) send_output = Immediate "'er + unit" | Deferred 'f

record 'g net =
  send_function :: "'g send_function"
  inboxes :: "(inbox_key \<times> nat) list"

definition new_net :: "'g send_function \<Rightarrow> 'g net" where
  "new_net f = \<lparr>send_function = f, inboxes = []\<rparr>"

text \<open>
  The future of \<open>Inboxes::enqueue\<close>, an \<open>async\<close> block: not polled yet, awaiting its \<open>Sleep\<close>, or
  finished.
\<close>

datatype ('p, 'er) delivery =
    Enqueued instant inbox_key "('p, 'er) message"
  | Sleeping nat inbox_key "('p, 'er) message"
  | Delivered

text \<open>
  What the network calls and does not define: the packets' trait methods and the uniqueness of
  an \<open>Rc\<close>, a send function of the program, boxing and downcasting a simulator, the delivery as a
  future, the operations of the channels and the iteration order of a \<open>HashMap\<close>.
\<close>

record ('h, 'q, 'f, 's, 'x, 'p, 'er, 'g) net_ops =
  packets :: "'p packet_ops"
  rc_unique :: "'p packet_rc \<Rightarrow> 'x \<Rightarrow> bool"
  call_send_function :: "'g \<Rightarrow> 'p packet_rc \<Rightarrow> ('h, 'q, 'f, 's, 'x) sim \<Rightarrow>
    panic + ('g \<times> ('er, 'f) send_output) \<times> ('h, 'q, 'f, 's, 'x) sim"
  box_net :: "'g net \<Rightarrow> 's"
  downcast_net :: "'s \<Rightarrow> 'g net option"
  delivery_future :: "('p, 'er) delivery \<Rightarrow> 'f"
  chan_new :: "'x \<Rightarrow> nat \<times> 'x"
  chan_try_send :: "nat \<Rightarrow> ('p, 'er) message \<Rightarrow> ('h, 'q, 'f, 's, 'x) sim \<Rightarrow>
    panic + bool \<times> ('h, 'q, 'f, 's, 'x) sim"
  chan_try_receive :: "nat \<Rightarrow> ('h, 'q, 'f, 's, 'x) sim \<Rightarrow>
    panic + ('p, 'er) message option \<times> ('h, 'q, 'f, 's, 'x) sim"
  chan_poll :: "nat \<Rightarrow> id \<Rightarrow> ('h, 'q, 'f, 's, 'x) sim \<Rightarrow>
    panic + ('p, 'er) message option poll \<times> ('h, 'q, 'f, 's, 'x) sim"
  map_order :: "inbox_key list \<Rightarrow> inbox_key list"

text \<open>The capacity of an inbox, the length of the array in the type \<open>Inbox\<close>.\<close>

definition INBOX_CAPACITY :: nat where
  "INBOX_CAPACITY = 8"

definition NET :: type_id where
  "NET = ''Net''"

text \<open>\<open>SimulatorHandle::<Net>::with\<close>, with the downcast that \<open>with_simulator_option\<close> ends with.\<close>

definition with_net ::
  "('h, 'q, 'f, 's, 'x, 'p, 'er, 'g) net_ops \<Rightarrow>
    ('g net \<Rightarrow> ('h, 'q, 'f, 's, 'x) sim \<Rightarrow> panic + ('a \<times> 'g net) \<times> ('h, 'q, 'f, 's, 'x) sim) \<Rightarrow>
    ('h, 'q, 'f, 's, 'x) sim \<Rightarrow> panic + 'a \<times> ('h, 'q, 'f, 's, 'x) sim" where
  "with_net n f =
     simulator_with NET (\<lambda>s cx.
       andThen (unwrap (downcast_net n s)) (\<lambda>net.
       andThen (f net cx) (\<lambda>((a, net'), cx). Inr ((a, box_net n net'), cx))))"

section \<open>Inboxes\<close>

text \<open>
  \<open>Inboxes::enqueue\<close>: a detached task on the initial node. It does not look at the inboxes when it
  is called, so whether there is a socket is decided when the packet arrives.
\<close>

definition enqueue ::
  "('h, 'q, 'f, 's, 'x, 'v) env \<Rightarrow> ('h, 'q, 'f, 's, 'x, 'p, 'er, 'g) net_ops \<Rightarrow> instant \<Rightarrow>
    inbox_key \<Rightarrow> ('p, 'er) message \<Rightarrow> ('h, 'q, 'f, 's, 'x) sim \<Rightarrow>
    panic + ('h, 'q, 'f, 's, 'x) sim" where
  "enqueue e n at_time key msg cx =
     andThen (spawn_task_on_node e INIT (delivery_future n (Enqueued at_time key msg)) cx)
       (\<lambda>(_, cx). Inr cx)"

definition enqueue_packet ::
  "('h, 'q, 'f, 's, 'x, 'v) env \<Rightarrow> ('h, 'q, 'f, 's, 'x, 'p, 'er, 'g) net_ops \<Rightarrow> instant \<Rightarrow>
    'p packet_rc \<Rightarrow> ('h, 'q, 'f, 's, 'x) sim \<Rightarrow> panic + ('h, 'q, 'f, 's, 'x) sim" where
  "enqueue_packet e n at_time msg =
     enqueue e n at_time (hd_dst (header msg), hd_ty (header msg)) (Inr msg)"

definition enqueue_error ::
  "('h, 'q, 'f, 's, 'x, 'v) env \<Rightarrow> ('h, 'q, 'f, 's, 'x, 'p, 'er, 'g) net_ops \<Rightarrow> instant \<Rightarrow>
    addr \<Rightarrow> type_id \<Rightarrow> 'er \<Rightarrow> ('h, 'q, 'f, 's, 'x) sim \<Rightarrow> panic + ('h, 'q, 'f, 's, 'x) sim" where
  "enqueue_error e n at_time dst ty error = enqueue e n at_time (dst, ty) (Inl error)"

text \<open>
  The task's future. When the sleep is over it is dropped, at the end of its statement, and the
  message is offered to the inbox that has the key then; a full inbox drops it.
\<close>

definition offer ::
  "('h, 'q, 'f, 's, 'x, 'p, 'er, 'g) net_ops \<Rightarrow> inbox_key \<Rightarrow> ('p, 'er) message \<Rightarrow> 'g net \<Rightarrow>
    ('h, 'q, 'f, 's, 'x) sim \<Rightarrow> panic + (unit \<times> 'g net) \<times> ('h, 'q, 'f, 's, 'x) sim" where
  "offer n key msg net cx =
     (case map_of (inboxes net) key of
        None \<Rightarrow> Inr (((), net), cx)
      | Some c \<Rightarrow> andThen (chan_try_send n c msg cx) (\<lambda>(_, cx). Inr (((), net), cx)))"

definition deliver ::
  "('h, 'q, 'f, 's, 'x, 'p, 'er, 'g) net_ops \<Rightarrow> inbox_key \<Rightarrow> ('p, 'er) message \<Rightarrow>
    ('h, 'q, 'f, 's, 'x) sim \<Rightarrow> panic + unit \<times> ('h, 'q, 'f, 's, 'x) sim" where
  "deliver n key msg cx =
     andThen (simulator_get NET cx) (\<lambda>(_, cx). with_net n (offer n key msg) cx)"

definition await_delivery ::
  "('h, 'q, 'f, 's, 'x, 'v) env \<Rightarrow> ('h, 'q, 'f, 's, 'x, 'p, 'er, 'g) net_ops \<Rightarrow> id \<Rightarrow> nat \<Rightarrow>
    inbox_key \<Rightarrow> ('p, 'er) message \<Rightarrow> ('h, 'q, 'f, 's, 'x) sim \<Rightarrow>
    panic + (('p, 'er) delivery \<times> unit poll) \<times> ('h, 'q, 'f, 's, 'x) sim" where
  "await_delivery e n waker k key msg cx =
     andThen (sleep_poll (env_pq e) k waker cx) (\<lambda>(r, cx).
     case r of
       Pending \<Rightarrow> Inr ((Sleeping k key msg, Pending), cx)
     | Ready _ \<Rightarrow>
         andThen (sleep_drop (env_pq e) k cx) (\<lambda>cx.
         andThen (deliver n key msg cx) (\<lambda>(_, cx). Inr ((Delivered, Ready ()), cx))))"

text \<open>Polling an \<open>async\<close> block again after it has finished panics.\<close>

fun delivery_poll ::
  "('h, 'q, 'f, 's, 'x, 'v) env \<Rightarrow> ('h, 'q, 'f, 's, 'x, 'p, 'er, 'g) net_ops \<Rightarrow> id \<Rightarrow>
    ('p, 'er) delivery \<Rightarrow> ('h, 'q, 'f, 's, 'x) sim \<Rightarrow>
    panic + (('p, 'er) delivery \<times> unit poll) \<times> ('h, 'q, 'f, 's, 'x) sim" where
  "delivery_poll e n waker (Enqueued at_time key msg) cx =
     (let (k, cx) = sleep_until at_time cx in await_delivery e n waker k key msg cx)"
| "delivery_poll e n waker (Sleeping k key msg) cx = await_delivery e n waker k key msg cx"
| "delivery_poll e n waker Delivered cx = Inl Unreachable"

fun delivery_drop ::
  "'q pq_ops \<Rightarrow> ('p, 'er) delivery \<Rightarrow> ('h, 'q, 'f, 's, 'x) sim \<Rightarrow>
    panic + ('h, 'q, 'f, 's, 'x) sim" where
  "delivery_drop pq (Sleeping k key msg) cx = sleep_drop pq k cx"
| "delivery_drop pq d cx = Inr cx"

section \<open>Sending\<close>

text \<open>\<open>(self.send_function)(&mut self.inboxes, packet)\<close>.\<close>

fun run_send_function ::
  "('h, 'q, 'f, 's, 'x, 'v) env \<Rightarrow> ('h, 'q, 'f, 's, 'x, 'p, 'er, 'g) net_ops \<Rightarrow>
    'g send_function \<Rightarrow> 'p packet_rc \<Rightarrow> ('h, 'q, 'f, 's, 'x) sim \<Rightarrow>
    panic + ('g send_function \<times> ('er, 'f) send_output) \<times> ('h, 'q, 'f, 's, 'x) sim" where
  "run_send_function e n (PerfectConnectivity latency) msg cx =
     andThen (instant_add (instant_now 0 cx) latency) (\<lambda>at_time.
     andThen (enqueue_packet e n at_time msg cx) (\<lambda>cx.
     Inr ((PerfectConnectivity latency, Immediate (Inr ())), cx)))"
| "run_send_function e n (UserFunction g) msg cx =
     andThen (call_send_function n g msg cx) (\<lambda>((g, out), cx). Inr ((UserFunction g, out), cx))"

definition send_wrapped ::
  "('h, 'q, 'f, 's, 'x, 'v) env \<Rightarrow> ('h, 'q, 'f, 's, 'x, 'p, 'er, 'g) net_ops \<Rightarrow>
    'p packet_rc \<Rightarrow> 'g net \<Rightarrow> ('h, 'q, 'f, 's, 'x) sim \<Rightarrow>
    panic + (('er, 'f) send_output \<times> 'g net) \<times> ('h, 'q, 'f, 's, 'x) sim" where
  "send_wrapped e n msg net cx =
     andThen (cx_current_node cx) (\<lambda>node.
     if addr_node (hd_src (header msg)) \<noteq> node then Inl AssertFailed
     else
       andThen (run_send_function e n (send_function net) msg cx) (\<lambda>((f, out), cx).
       Inr ((out, net\<lparr>send_function := f\<rparr>), cx)))"

definition net_send ::
  "('h, 'q, 'f, 's, 'x, 'v) env \<Rightarrow> ('h, 'q, 'f, 's, 'x, 'p, 'er, 'g) net_ops \<Rightarrow> id \<Rightarrow> addr \<Rightarrow> 'p \<Rightarrow>
    'g net \<Rightarrow> ('h, 'q, 'f, 's, 'x) sim \<Rightarrow>
    panic + (('er, 'f) send_output \<times> 'g net) \<times> ('h, 'q, 'f, 's, 'x) sim" where
  "net_send e n src_port dst p net cx =
     andThen (cx_current_node cx) (\<lambda>node.
     send_wrapped e n (new_packet (packets n) (Addr node src_port) dst p) net cx)"

section \<open>Sockets\<close>

text \<open>A \<open>Socket<T>\<close>, with the type parameter as a field. The handle of the simulator holds nothing.\<close>

record socket =
  socket_ty :: type_id
  inbox :: nat
  local_addr :: addr

datatype addr_in_use_error = AddrInUseError addr type_id

definition open_inbox ::
  "('h, 'q, 'f, 's, 'x, 'p, 'er, 'g) net_ops \<Rightarrow> addr \<Rightarrow> type_id \<Rightarrow> 'g net \<Rightarrow> ('h, 'q, 'f, 's, 'x) sim \<Rightarrow>
    panic + ((addr_in_use_error + socket) \<times> 'g net) \<times> ('h, 'q, 'f, 's, 'x) sim" where
  "open_inbox n addr ty net cx =
     (case map_of (inboxes net) (addr, ty) of
        Some _ \<Rightarrow> Inr ((Inl (AddrInUseError addr ty), net), cx)
      | None \<Rightarrow>
          let (c, x) = chan_new n (ext cx) in
          Inr ((Inr \<lparr>socket_ty = ty, inbox = c, local_addr = addr\<rparr>,
              net\<lparr>inboxes := AList.update (addr, ty) c (inboxes net)\<rparr>), cx\<lparr>ext := x\<rparr>))"

definition socket_open ::
  "('h, 'q, 'f, 's, 'x, 'p, 'er, 'g) net_ops \<Rightarrow> type_id \<Rightarrow> id \<Rightarrow> ('h, 'q, 'f, 's, 'x) sim \<Rightarrow>
    panic + (addr_in_use_error + socket) \<times> ('h, 'q, 'f, 's, 'x) sim" where
  "socket_open n ty port cx =
     andThen (cx_current_node cx) (\<lambda>node.
     andThen (simulator_get NET cx) (\<lambda>(_, cx).
     with_net n (open_inbox n (Addr node port) ty) cx))"

definition local_port :: "socket \<Rightarrow> id" where
  "local_port s = addr_port (local_addr s)"

definition socket_send ::
  "('h, 'q, 'f, 's, 'x, 'v) env \<Rightarrow> ('h, 'q, 'f, 's, 'x, 'p, 'er, 'g) net_ops \<Rightarrow> socket \<Rightarrow> addr \<Rightarrow>
    'p \<Rightarrow> ('h, 'q, 'f, 's, 'x) sim \<Rightarrow>
    panic + ('er, 'f) send_output \<times> ('h, 'q, 'f, 's, 'x) sim" where
  "socket_send e n s dst p =
     with_net n (send_wrapped e n (new_packet (packets n) (local_addr s) dst p))"

text \<open>
  The future of \<open>Socket::receive\<close>, whose state is the inbox it holds: the packet is downcast to the
  socket's type and taken out of its \<open>Rc\<close> or cloned.
\<close>

definition unwrap_message ::
  "('h, 'q, 'f, 's, 'x, 'p, 'er, 'g) net_ops \<Rightarrow> type_id \<Rightarrow> ('p, 'er) message \<Rightarrow>
    ('h, 'q, 'f, 's, 'x) sim \<Rightarrow> panic + ('er + 'p \<times> addr)" where
  "unwrap_message n ty msg cx =
     (case msg of
        Inl error \<Rightarrow> Inr (Inl error)
      | Inr wrapped \<Rightarrow>
          if packet_concrete (packets n) (packet wrapped) \<noteq> ty then Inl UnwrapNone
          else
            andThen
              (if rc_unique n wrapped (ext cx) then Inr (packet wrapped)
               else clone_packet (packets n) (packet wrapped)) (\<lambda>p.
            Inr (Inr (p, hd_src (header wrapped)))))"

definition socket_receive_poll ::
  "('h, 'q, 'f, 's, 'x, 'p, 'er, 'g) net_ops \<Rightarrow> type_id \<Rightarrow> nat \<Rightarrow> id \<Rightarrow> ('h, 'q, 'f, 's, 'x) sim \<Rightarrow>
    panic + ('er + 'p \<times> addr) poll \<times> ('h, 'q, 'f, 's, 'x) sim" where
  "socket_receive_poll n ty c waker cx =
     andThen (chan_poll n c waker cx) (\<lambda>(r, cx).
     case r of
       Pending \<Rightarrow> Inr (Pending, cx)
     | Ready msg \<Rightarrow>
         andThen (unwrap msg) (\<lambda>msg.
         andThen (unwrap_message n ty msg cx) (\<lambda>out. Inr (Ready out, cx))))"

text \<open>\<open>Socket\<close>'s \<open>Drop\<close>: the entry of its address goes out of the map.\<close>

definition close_inbox ::
  "('h, 'q, 'f, 's, 'x, 'v) env \<Rightarrow> socket \<Rightarrow> 'g net \<Rightarrow> ('h, 'q, 'f, 's, 'x) sim \<Rightarrow>
    panic + (unit \<times> 'g net) \<times> ('h, 'q, 'f, 's, 'x) sim" where
  "close_inbox e s net cx =
     (let key = (local_addr s, socket_ty s) in
      if debug_build e \<and> map_of (inboxes net) key \<noteq> Some (inbox s) then Inl AssertFailed
      else Inr (((), net\<lparr>inboxes := AList.delete key (inboxes net)\<rparr>), cx))"

definition socket_drop ::
  "('h, 'q, 'f, 's, 'x, 'v) env \<Rightarrow> ('h, 'q, 'f, 's, 'x, 'p, 'er, 'g) net_ops \<Rightarrow> socket \<Rightarrow>
    ('h, 'q, 'f, 's, 'x) sim \<Rightarrow> panic + unit \<times> ('h, 'q, 'f, 's, 'x) sim" where
  "socket_drop e n s = with_net n (close_inbox e s)"

section \<open>The network as a simulator\<close>

text \<open>
  The loop that empties an inbox, bounded by one turn more than an inbox can hold, and
  \<open>Net::start_node\<close>, which is \<open>Net::create_node\<close> too. \<open>Net::stop_node\<close> is the default, which does
  nothing.
\<close>

fun drain ::
  "('h, 'q, 'f, 's, 'x, 'p, 'er, 'g) net_ops \<Rightarrow> nat \<Rightarrow> nat \<Rightarrow> ('h, 'q, 'f, 's, 'x) sim \<Rightarrow>
    panic + ('h, 'q, 'f, 's, 'x) sim" where
  "drain n c 0 cx = Inl OutOfFuel"
| "drain n c (Suc fuel) cx =
     andThen (chan_try_receive n c cx) (\<lambda>(r, cx).
     case r of None \<Rightarrow> Inr cx | Some _ \<Rightarrow> drain n c fuel cx)"

definition restart_inbox ::
  "('h, 'q, 'f, 's, 'x, 'p, 'er, 'g) net_ops \<Rightarrow> 'g net \<Rightarrow> node_id \<Rightarrow> inbox_key \<Rightarrow>
    ('h, 'q, 'f, 's, 'x) sim \<Rightarrow> panic + ('h, 'q, 'f, 's, 'x) sim" where
  "restart_inbox n net node key cx =
     (case map_of (inboxes net) key of
        None \<Rightarrow> Inr cx
      | Some c \<Rightarrow>
          if addr_node (fst key) = node then drain n c (Suc INBOX_CAPACITY) cx else Inr cx)"

definition net_start_node ::
  "('h, 'q, 'f, 's, 'x, 'p, 'er, 'g) net_ops \<Rightarrow> 'g net \<Rightarrow> ('h, 'q, 'f, 's, 'x) sim \<Rightarrow>
    panic + 'g net \<times> ('h, 'q, 'f, 's, 'x) sim" where
  "net_start_node n net cx =
     andThen (cx_current_node cx) (\<lambda>node.
     andThen (foldE (restart_inbox n net node) (map_order n (map fst (inboxes net))) cx) (\<lambda>cx.
     Inr (net, cx)))"

definition net_create_node ::
  "('h, 'q, 'f, 's, 'x, 'p, 'er, 'g) net_ops \<Rightarrow> 'g net \<Rightarrow> ('h, 'q, 'f, 's, 'x) sim \<Rightarrow>
    panic + 'g net \<times> ('h, 'q, 'f, 's, 'x) sim" where
  "net_create_node n = net_start_node n"

end
