(* ===== verification/Inboxes.thy ===== *)
theory Inboxes
  imports Network Compound
begin

text \<open>
  What the network does to its inboxes, on any channel library that behaves as documented: the
  map of inboxes and the channels behind it implement a map from keys to bounded queues. Each
  operation of \<open>Network\<close> is matched with an operation on that map, and is shown to act on the
  runtime through the crate's functions only, as the contract of outside code asks.
\<close>

section \<open>The network as a map of bounded queues\<close>

type_synonym ('p, 'er) network = "inbox_key \<rightharpoonup> ('p, 'er) message list"

definition spec_open :: "inbox_key \<Rightarrow> ('p, 'er) network \<Rightarrow> ('p, 'er) network option" where
  "spec_open k w = (if w k \<noteq> None then None else Some (w(k \<mapsto> [])))"

definition spec_close :: "inbox_key \<Rightarrow> ('p, 'er) network \<Rightarrow> ('p, 'er) network" where
  "spec_close k w = w(k := None)"

text \<open>A message for a key without socket, or with a full inbox, is lost.\<close>

definition spec_deliver ::
  "inbox_key \<Rightarrow> ('p, 'er) message \<Rightarrow> ('p, 'er) network \<Rightarrow> ('p, 'er) network" where
  "spec_deliver k m w =
     (case w k of
        None \<Rightarrow> w
      | Some b \<Rightarrow> if length b < INBOX_CAPACITY then w(k \<mapsto> b @ [m]) else w)"

definition spec_restart :: "node_id \<Rightarrow> ('p, 'er) network \<Rightarrow> ('p, 'er) network" where
  "spec_restart node w = (\<lambda>k. if addr_node (fst k) = node then map_option (\<lambda>_. []) (w k) else w k)"

section \<open>The channel library\<close>

text \<open>
  The documented behaviour of a \<open>LocalChannel\<close> with a buffer of eight elements that is never
  closed: \<open>buffer\<close> reads the buffers in the state of outside code. Sending may wake a receiver,
  which is a call of outside code, but does not touch the registry of simulators.
\<close>

definition same_registry :: "('h, 'q, 'f, 's, 'x) sim \<Rightarrow> ('h, 'q, 'f, 's, 'x) sim \<Rightarrow> bool" where
  "same_registry cx cx' \<longleftrightarrow>
     simulators cx' = simulators cx \<and> simulators_by_type cx' = simulators_by_type cx \<and> cell cx' = cell cx"

locale inbox_channels =
  fixes e :: "('h, 'q, 'f, 's, 'x, 'v) env"
    and n :: "('h, 'q, 'f, 's, 'x, 'p, 'er, 'g) net_ops"
    and buffer :: "'x \<Rightarrow> nat \<rightharpoonup> ('p, 'er) message list"
  assumes downcast_box: "downcast_net n (box_net n net) = Some net"
    and order_set: "set (map_order n ks) = set ks"
    and oneshot_buffer: "oneshot_channel e x = (c, x') \<Longrightarrow> buffer x' = buffer x"
    and new_chan: "chan_new n x = (c, x') \<Longrightarrow> buffer x c = None \<and> buffer x' = (buffer x)(c \<mapsto> [])"
    and send_chan: "chan_try_send n c m cx = Inr (ok, cx') \<Longrightarrow> buffer (ext cx) c = Some b \<Longrightarrow>
        buffer (ext cx') =
          (buffer (ext cx))(c \<mapsto> if length b < INBOX_CAPACITY then b @ [m] else b) \<and>
        ok = (length b < INBOX_CAPACITY)"
    and send_frame: "chan_try_send n c m cx = Inr (ok, cx') \<Longrightarrow>
        outside_call e cx cx' \<and> same_registry cx cx'"
    and receive_chan: "chan_try_receive n c cx = Inr (r, cx') \<Longrightarrow> buffer (ext cx) c = Some b \<Longrightarrow>
        buffer (ext cx') = (buffer (ext cx))(c \<mapsto> tl b) \<and>
        r = (case b of [] \<Rightarrow> None | m # _ \<Rightarrow> Some m)"
    and receive_frame: "chan_try_receive n c cx = Inr (r, cx') \<Longrightarrow>
        outside_call e cx cx' \<and> same_registry cx cx'"
    and poll_chan: "chan_poll n c w cx = Inr (p, cx') \<Longrightarrow> buffer (ext cx) c = Some b \<Longrightarrow>
        buffer (ext cx') = (buffer (ext cx))(c \<mapsto> tl b) \<and>
        p = (case b of [] \<Rightarrow> Pending | m # _ \<Rightarrow> Ready (Some m))"
    and call_frame: "call_send_function n g pkt cx = Inr (out, cx') \<Longrightarrow> outside_call e cx cx'"
    and poll_frame: "chan_poll n c w cx = Inr (p, cx') \<Longrightarrow>
        outside_call e cx cx' \<and> same_registry cx cx'"

section \<open>The network in the registry\<close>

definition the_net ::
  "('h, 'q, 'f, 's, 'x, 'p, 'er, 'g) net_ops \<Rightarrow> ('h, 'q, 'f, 's, 'x) sim \<Rightarrow> 'g net option" where
  "the_net n cx =
     (case simulators_by_type cx NET of
        None \<Rightarrow> None
      | Some i \<Rightarrow>
          if length (simulators cx) \<le> i then None
          else Option.bind (simulators cx ! i) (downcast_net n))"

lemma the_net_same:
  "simulators cx' = simulators cx \<Longrightarrow> simulators_by_type cx' = simulators_by_type cx \<Longrightarrow>
    the_net n cx' = the_net n cx"
  by (simp add: the_net_def cong: option.case_cong if_cong)

text \<open>The abstraction: the contents of each inbox.\<close>

definition net_queues ::
  "('x \<Rightarrow> nat \<rightharpoonup> ('p, 'er) message list) \<Rightarrow> 'g net \<Rightarrow> 'x \<Rightarrow> ('p, 'er) network" where
  "net_queues buffer net x = (\<lambda>k. Option.bind (map_of (inboxes net) k) (buffer x))"

text \<open>No two keys share a channel, and the channels of the map exist and are within their capacity.\<close>

definition net_ok :: "('x \<Rightarrow> nat \<rightharpoonup> ('p, 'er) message list) \<Rightarrow> 'g net \<Rightarrow> 'x \<Rightarrow> bool" where
  "net_ok buffer net x \<longleftrightarrow>
     distinct (map fst (inboxes net)) \<and> inj_on (map_of (inboxes net)) (dom (map_of (inboxes net))) \<and>
     (\<forall>k c. map_of (inboxes net) k = Some c \<longrightarrow>
        (\<exists>b. buffer x c = Some b \<and> length b \<le> INBOX_CAPACITY))"

lemma with_net_cases:
  assumes "with_net n f cx = Inr (a, cx')"
  obtains i s net net' cx1 where "simulators_by_type cx NET = Some i" "i < length (simulators cx)"
    "simulators cx ! i = Some s" "downcast_net n s = Some net" "cell cx = CellFree"
    "f net (cx\<lparr>simulators := (simulators cx)[i := None]\<rparr>) = Inr ((a, net'), cx1)"
    "cell cx1 = CellFree" "i < length (simulators cx1)" "simulators cx1 ! i = None"
    "cx' = cx1\<lparr>simulators := (simulators cx1)[i := Some (box_net n net')]\<rparr>"
proof -
  obtain taken cx0 where t: "take_simulator NET cx = Inr (taken, cx0)"
    and rest: "(case taken of
        None \<Rightarrow> andThen (Inl UnwrapNone) (\<lambda>((a, _), cx). Inr (a, cx))
      | Some (index, s) \<Rightarrow>
         andThen (andThen (andThen (unwrap (downcast_net n s)) (\<lambda>net.
           andThen (f net cx0) (\<lambda>((a, net'), cx). Inr ((a, box_net n net'), cx))))
             (\<lambda>((a, s'), cx). Inr ((a, Some s'), cx))) (\<lambda>((a, s'), cx).
         andThen (put_back_simulator index (case s' of None \<Rightarrow> s | Some s' \<Rightarrow> s') cx) (\<lambda>(_, cx).
         Inr (a, cx)))) = Inr (a, cx')"
    using assms
    by (fastforce simp: with_net_def simulator_with_def with_simulator_option_def split: option.splits)
  obtain i s where taken: "taken = Some (i, s)" using rest by (cases taken) auto
  have reg: "simulators_by_type cx NET = Some i" "i < length (simulators cx)"
    "simulators cx ! i = Some s" "cell cx = CellFree"
    "cx0 = cx\<lparr>simulators := (simulators cx)[i := None]\<rparr>"
    using t taken
    by (auto simp: take_simulator_def with_cx_Inr split: option.splits if_splits)
  obtain net net' cx1 u where f: "downcast_net n s = Some net" "f net cx0 = Inr ((a, net'), cx1)"
    and p: "put_back_simulator i (box_net n net') cx1 = Inr (u, cx')"
    using rest taken by auto
  have "cell cx1 = CellFree" "i < length (simulators cx1)" "simulators cx1 ! i = None"
    "cx' = cx1\<lparr>simulators := (simulators cx1)[i := Some (box_net n net')]\<rparr>"
    using p by (auto simp: put_back_simulator_def with_cx_Inr split: if_splits)
  then show ?thesis using that reg f by blast
qed

text \<open>A closure that leaves the registry alone finds the network and puts its own back.\<close>

lemma with_net_the_net:
  assumes "with_net n f cx = Inr (a, cx')" and box: "\<And>net. downcast_net n (box_net n net) = Some net"
    and keep: "\<And>net cx a net' cx1. f net cx = Inr ((a, net'), cx1) \<Longrightarrow> same_registry cx cx1"
  obtains net net' cx0 cx1 where "the_net n cx = Some net" "the_net n cx' = Some net'"
    "f net cx0 = Inr ((a, net'), cx1)" "ext cx0 = ext cx" "ext cx' = ext cx1"
    "cx0 = cx\<lparr>simulators := simulators cx0\<rparr>" "cx' = cx1\<lparr>simulators := simulators cx'\<rparr>"
  using assms(1)
proof (cases rule: with_net_cases)
  case (1 i s net net' cx1)
  have reg: "simulators_by_type cx1 NET = Some i"
    using keep [OF 1(6)] 1(1) by (simp add: same_registry_def)
  show ?thesis
    by (rule that [OF _ _ 1(6)]) (use 1 reg box in \<open>auto simp: the_net_def\<close>)
qed

section \<open>The operations act through the crate only\<close>

lemma registry_call: "cell cx = CellFree \<Longrightarrow> outside_call e cx (cx\<lparr>simulators := s\<rparr>)"
  using ustep_call [OF u_simulators [where s = s and st = "simulators_by_type cx" and cx = cx and e = e]]
  by simp

lemma same_registry_refl [simp]: "same_registry cx cx"
  by (simp add: same_registry_def)

lemma with_net_call:
  assumes "with_net n f cx = Inr (a, cx')"
    and "\<And>net cx a net' cx1. f net cx = Inr ((a, net'), cx1) \<Longrightarrow> outside_call e cx cx1"
  shows "outside_call e cx cx'"
  using assms(1)
proof (cases rule: with_net_cases)
  case (1 i s net net' cx1)
  have "outside_call e cx (cx\<lparr>simulators := (simulators cx)[i := None]\<rparr>)"
    using 1(5) by (rule registry_call)
  also have "outside_call e \<dots> cx1" using assms(2) [OF 1(6)] .
  also have "outside_call e cx1 cx'" using registry_call [OF 1(7)] 1(10) by simp
  finally show ?thesis .
qed

lemma simulator_get_Inr [simp]:
  "simulator_get ty cx = Inr (u, cx') \<longleftrightarrow>
     cell cx = CellFree \<and> simulators_by_type cx ty \<noteq> None \<and> cx' = cx"
  by (auto simp: simulator_get_def with_cx_Inr)

lemma enqueue_call: "enqueue e n t k m cx = Inr cx' \<Longrightarrow> outside_call e cx cx'"
  by (auto simp: enqueue_def intro: spawn_on_call)

context inbox_channels
begin

lemma offer_frame:
  "offer n k m net cx = Inr ((a, net'), cx') \<Longrightarrow> outside_call e cx cx' \<and> same_registry cx cx'"
  by (auto simp: offer_def split: option.splits dest: send_frame)

lemma deliver_call: "deliver n k m cx = Inr (u, cx') \<Longrightarrow> outside_call e cx cx'"
  by (auto simp: deliver_def offer_frame elim!: with_net_call)

lemma await_delivery_call:
  assumes "await_delivery e n w k key m cx = Inr (r, cx')" and "arcs cx w \<noteq> None"
  shows "outside_call e cx cx'"
proof -
  obtain p cx1 where p: "sleep_poll (env_pq e) k w cx = Inr (p, cx1)"
    and rest: "(case p of
       Pending \<Rightarrow> Inr ((Sleeping k key m, Pending), cx1)
     | Ready _ \<Rightarrow>
         andThen (sleep_drop (env_pq e) k cx1) (\<lambda>cx.
         andThen (deliver n key m cx) (\<lambda>(_, cx). Inr ((Delivered, Ready ()), cx)))) = Inr (r, cx')"
    using assms(1) by (auto simp: await_delivery_def)
  note one = sleep_poll_outside_call [OF p assms(2)]
  show ?thesis
  proof (cases p)
    case (Ready t)
    then obtain cx2 u where d: "sleep_drop (env_pq e) k cx1 = Inr cx2" "deliver n key m cx2 = Inr (u, cx')"
      using rest by auto
    show ?thesis
      by (rule outside_call_trans [OF outside_call_trans [OF one sleep_drop_outside_call [OF d(1)]] deliver_call [OF d(2)]])
  qed (use one rest in simp)
qed

lemma delivery_poll_call:
  assumes "delivery_poll e n w d cx = Inr (r, cx')" and "arcs cx w \<noteq> None"
    and "\<And>t k m. d = Enqueued t k m \<Longrightarrow> t \<le> instant_max"
  shows "outside_call e cx cx'"
proof (cases d)
  case (Enqueued t key m)
  obtain k cx1 where s: "sleep_until t cx = (k, cx1)" by (cases "sleep_until t cx")
  have one: "outside_call e cx cx1"
    by (rule ustep_call [OF u_sleep [OF assms(3) [OF Enqueued] s]]) (use s in \<open>auto simp: sleep_until_def\<close>)
  have arcs1: "arcs cx1 w \<noteq> None" using s assms(2) by (auto simp: sleep_until_def)
  have "await_delivery e n w k key m cx1 = Inr (r, cx')" using assms(1) Enqueued s by simp
  from outside_call_trans [OF one await_delivery_call [OF this arcs1]] show ?thesis .
next
  case (Sleeping k key m)
  then show ?thesis using await_delivery_call [OF _ assms(2)] assms(1) by simp
next
  case Delivered
  then show ?thesis using assms(1) by simp
qed

lemma open_inbox_frame:
  "open_inbox n addr ty net cx = Inr ((a, net'), cx') \<Longrightarrow> outside_call e cx cx' \<and> same_registry cx cx'"
  by (auto simp: open_inbox_def same_registry_def Let_def ext_call split: option.splits prod.splits)

lemma socket_open_call: "socket_open n ty port cx = Inr (r, cx') \<Longrightarrow> outside_call e cx cx'"
  by (auto simp: socket_open_def open_inbox_frame elim!: with_net_call)

lemma close_inbox_frame:
  "close_inbox e s net cx = Inr ((a, net'), cx') \<Longrightarrow> outside_call e cx cx' \<and> same_registry cx cx'"
  by (auto simp: close_inbox_def Let_def split: if_splits)

lemma socket_drop_call: "socket_drop e n s cx = Inr (u, cx') \<Longrightarrow> outside_call e cx cx'"
  by (auto simp: socket_drop_def close_inbox_frame elim!: with_net_call)

lemma run_send_function_call:
  "run_send_function e n f p cx = Inr (out, cx') \<Longrightarrow> outside_call e cx cx'"
  by (cases f) (auto simp: enqueue_packet_def dest: enqueue_call call_frame)

lemma send_wrapped_call: "send_wrapped e n p net cx = Inr (out, cx') \<Longrightarrow> outside_call e cx cx'"
  by (auto simp: send_wrapped_def split: if_splits dest: run_send_function_call)

lemma net_send_call: "net_send e n port dst p net cx = Inr (out, cx') \<Longrightarrow> outside_call e cx cx'"
  by (auto simp: net_send_def dest: send_wrapped_call)

lemma socket_send_call: "socket_send e n s dst p cx = Inr (out, cx') \<Longrightarrow> outside_call e cx cx'"
  by (auto simp: socket_send_def send_wrapped_call elim!: with_net_call)

lemma socket_receive_poll_call:
  assumes "socket_receive_poll n ty c w cx = Inr (out, cx')"
  shows "outside_call e cx cx'"
proof -
  obtain r cx1 where r: "chan_poll n c w cx = Inr (r, cx1)"
    and "(case r of Pending \<Rightarrow> Inr (Pending, cx1)
      | Ready msg \<Rightarrow> andThen (unwrap msg) (\<lambda>msg.
          andThen (unwrap_message n ty msg cx1) (\<lambda>out. Inr (Ready out, cx1)))) = Inr (out, cx')"
    using assms by (auto simp: socket_receive_poll_def)
  then show ?thesis using poll_frame [OF r] by (cases r) auto
qed

lemma drain_call: "drain n c fuel cx = Inr cx' \<Longrightarrow> outside_call e cx cx' \<and> same_registry cx cx'"
proof (induction fuel arbitrary: cx)
  case (Suc fuel)
  then obtain r cx1 where r: "chan_try_receive n c cx = Inr (r, cx1)"
    and rest: "(case r of None \<Rightarrow> Inr cx1 | Some _ \<Rightarrow> drain n c fuel cx1) = Inr cx'"
    by auto
  note f = receive_frame [OF r]
  show ?case
  proof (cases r)
    case (Some a)
    then have "outside_call e cx1 cx' \<and> same_registry cx1 cx'" using Suc.IH rest by simp
    then show ?thesis using f outside_call_trans by (fastforce simp: same_registry_def)
  qed (use f rest in simp)
qed simp

lemma restart_inbox_call:
  "restart_inbox n net node key cx = Inr cx' \<Longrightarrow> outside_call e cx cx' \<and> same_registry cx cx'"
  by (auto simp: restart_inbox_def simp del: drain.simps split: option.splits if_splits dest: drain_call)

lemma net_start_node_call:
  assumes "net_start_node n net cx = Inr (net', cx')"
  shows "outside_call e cx cx' \<and> same_registry cx cx'"
proof -
  obtain node where f: "foldE (restart_inbox n net node) (map_order n (map fst (inboxes net))) cx = Inr cx'"
    using assms by (auto simp: net_start_node_def)
  show ?thesis
    by (rule foldE_inv [OF f, where P = "\<lambda>b. outside_call e cx b \<and> same_registry cx b"])
      (auto simp: same_registry_def dest!: restart_inbox_call intro: outside_call_trans)
qed

end

section \<open>The map of inboxes implements the map of queues\<close>

lemma net_ok_channel:
  assumes "net_ok buffer net x" and "map_of (inboxes net) k = Some c"
  obtains b where "buffer x c = Some b" "length b \<le> INBOX_CAPACITY"
    "\<And>k'. map_of (inboxes net) k' = Some c \<longleftrightarrow> k' = k"
proof -
  obtain b where b: "buffer x c = Some b" "length b \<le> INBOX_CAPACITY"
    using assms unfolding net_ok_def by blast
  have inj: "inj_on (map_of (inboxes net)) (dom (map_of (inboxes net)))"
    using assms(1) by (simp add: net_ok_def)
  have "map_of (inboxes net) k' = Some c \<longleftrightarrow> k' = k" for k'
    using inj_onD [OF inj, of k' k] assms(2) by (metis domI)
  then show ?thesis using that b by blast
qed

lemma net_ok_buffer:
  "net_ok buffer net x \<Longrightarrow> map_of (inboxes net) k = Some c \<Longrightarrow>
    \<exists>b. buffer x c = Some b \<and> length b \<le> INBOX_CAPACITY"
  unfolding net_ok_def by blast

lemma net_queues_change:
  assumes "net_ok buffer net x" and "map_of (inboxes net) k = Some c"
    and "buffer x' = (buffer x)(c \<mapsto> b)" and "length b \<le> INBOX_CAPACITY"
  shows "net_queues buffer net x' = (net_queues buffer net x)(k \<mapsto> b)" and "net_ok buffer net x'"
proof -
  obtain b0 where one: "\<And>k'. map_of (inboxes net) k' = Some c \<longleftrightarrow> k' = k"
    by (rule net_ok_channel [OF assms(1,2)]) blast
  show "net_queues buffer net x' = (net_queues buffer net x)(k \<mapsto> b)"
  proof
    fix k'
    show "net_queues buffer net x' k' = ((net_queues buffer net x)(k \<mapsto> b)) k'"
      using one [of k'] assms(3)
      by (cases "map_of (inboxes net) k'") (auto simp: net_queues_def)
  qed
  show "net_ok buffer net x'"
    using assms(1,3,4) by (auto simp: net_ok_def)
qed

lemma net_queues_key: "map_of (inboxes net) k = Some c \<Longrightarrow> net_queues buffer net x k = buffer x c"
  by (simp add: net_queues_def)

lemma net_queues_no_key: "map_of (inboxes net) k = None \<Longrightarrow> net_queues buffer net x k = None"
  by (simp add: net_queues_def)

context inbox_channels
begin

lemma try_send_queues:
  assumes ok: "net_ok buffer net (ext cx)" and c: "map_of (inboxes net) k = Some c"
    and s: "chan_try_send n c m cx = Inr (sent, cx')"
  shows "net_queues buffer net (ext cx') = spec_deliver k m (net_queues buffer net (ext cx))"
    and "net_ok buffer net (ext cx')"
proof -
  obtain b where b: "buffer (ext cx) c = Some b" "length b \<le> INBOX_CAPACITY"
    by (rule net_ok_channel [OF ok c])
  let ?b = "if length b < INBOX_CAPACITY then b @ [m] else b"
  have "buffer (ext cx') = (buffer (ext cx))(c \<mapsto> ?b)" "length ?b \<le> INBOX_CAPACITY"
    using send_chan [OF s b(1)] b(2) by auto
  note ch = net_queues_change [OF ok c this]
  show "net_ok buffer net (ext cx')" by (rule ch(2))
  show "net_queues buffer net (ext cx') = spec_deliver k m (net_queues buffer net (ext cx))"
    using ch(1) net_queues_key [OF c, of buffer] b(1) by (auto simp: spec_deliver_def)
qed

lemma drain_buffer:
  assumes "drain n c fuel cx = Inr cx'" and "buffer (ext cx) c = Some b"
  shows "buffer (ext cx') = (buffer (ext cx))(c \<mapsto> [])"
  using assms
proof (induction fuel arbitrary: cx b)
  case (Suc fuel)
  then obtain r cx1 where r: "chan_try_receive n c cx = Inr (r, cx1)"
    and rest: "(case r of None \<Rightarrow> Inr cx1 | Some _ \<Rightarrow> drain n c fuel cx1) = Inr cx'"
    by auto
  note e = receive_chan [OF r Suc.prems(2)]
  show ?case
  proof (cases b)
    case Nil
    then show ?thesis using e rest Suc.prems(2) by (auto simp: fun_upd_idem)
  next
    case (Cons m b')
    then show ?thesis using e rest Suc.IH [of cx1 b'] by auto
  qed
qed simp

lemma drain_never_out_of_fuel:
  assumes "length b < fuel" and "buffer (ext cx) c = Some b" and "drain n c fuel cx = Inl p"
  shows "\<exists>cx1. chan_try_receive n c cx1 = Inl p"
  using assms
proof (induction fuel arbitrary: cx b)
  case (Suc fuel)
  show ?case
  proof (cases "chan_try_receive n c cx")
    case (Inl q)
    then show ?thesis using Suc.prems(3) by auto
  next
    case (Inr a)
    obtain r cx1 where a: "a = (r, cx1)" by (cases a)
    note e = receive_chan [OF Inr [unfolded a] Suc.prems(2)]
    show ?thesis
      using Suc.prems Suc.IH [of "tl b" cx1] Inr a e by (cases b) auto
  qed
qed simp

text \<open>The network after each operation, in terms of the one before.\<close>

lemma deliver_queues:
  assumes "deliver n k m cx = Inr (u, cx')" and "the_net n cx = Some net" and "net_ok buffer net (ext cx)"
  shows "the_net n cx' = Some net" and "net_ok buffer net (ext cx')"
    and "net_queues buffer net (ext cx') = spec_deliver k m (net_queues buffer net (ext cx))"
proof -
  have w: "with_net n (offer n k m) cx = Inr (u, cx')" using assms(1) by (simp add: deliver_def)
  obtain net0 net' cx0 cx1 where r: "the_net n cx = Some net0" "the_net n cx' = Some net'"
    "offer n k m net0 cx0 = Inr ((u, net'), cx1)" "ext cx0 = ext cx" "ext cx' = ext cx1"
    by (rule with_net_the_net [OF w downcast_box]) (use offer_frame in blast)+
  have net0: "net0 = net" using r(1) assms(2) by simp
  have net': "net' = net" using r(3) net0 by (auto simp: offer_def split: option.splits)
  then show "the_net n cx' = Some net" using r(2) by simp
  have "net_ok buffer net (ext cx') \<and>
      net_queues buffer net (ext cx') = spec_deliver k m (net_queues buffer net (ext cx))"
  proof (cases "map_of (inboxes net) k")
    case None
    then show ?thesis
      using r(3-5) net0 assms(3) net_queues_no_key [OF None, of buffer]
      by (auto simp: spec_deliver_def offer_def)
  next
    case (Some c)
    then obtain sent where "chan_try_send n c m cx0 = Inr (sent, cx1)"
      using r(3) net0 by (auto simp: offer_def)
    from try_send_queues [OF _ Some this] show ?thesis using assms(3) r(4,5) by simp
  qed
  then show "net_ok buffer net (ext cx')"
    and "net_queues buffer net (ext cx') = spec_deliver k m (net_queues buffer net (ext cx))"
    by blast+
qed

lemma open_inbox_queues:
  assumes ok: "net_ok buffer net (ext cx)" and o: "open_inbox n addr ty net cx = Inr ((r, net'), cx')"
  shows "net_ok buffer net' (ext cx') \<and>
    (case r of
       Inl _ \<Rightarrow> net' = net \<and> ext cx' = ext cx \<and>
         spec_open (addr, ty) (net_queues buffer net (ext cx)) = None
     | Inr s \<Rightarrow> socket_ty s = ty \<and> local_addr s = addr \<and>
         map_of (inboxes net') (addr, ty) = Some (inbox s) \<and>
         spec_open (addr, ty) (net_queues buffer net (ext cx)) =
           Some (net_queues buffer net' (ext cx')))"
proof (cases "map_of (inboxes net) (addr, ty)")
  case (Some c)
  obtain b where "buffer (ext cx) c = Some b" by (rule net_ok_channel [OF ok Some])
  then have "net_queues buffer net (ext cx) (addr, ty) \<noteq> None" using Some by (simp add: net_queues_def)
  then show ?thesis using o ok Some by (auto simp: spec_open_def open_inbox_def)
next
  case None
  let ?k = "(addr, ty)"
  obtain c x where c: "chan_new n (ext cx) = (c, x)" by (cases "chan_new n (ext cx)")
  then have r: "r = Inr \<lparr>socket_ty = ty, inbox = c, local_addr = addr\<rparr>"
    "net' = net\<lparr>inboxes := AList.update ?k c (inboxes net)\<rparr>" "ext cx' = x"
    using o None by (auto simp: open_inbox_def)
  have m: "map_of (inboxes net') = (map_of (inboxes net))(?k \<mapsto> c)"
    using r(2) by (simp add: update_conv')
  have b: "buffer (ext cx) c = None" "buffer x = (buffer (ext cx))(c \<mapsto> [])"
    using new_chan [OF c] by auto
  have fresh: "map_of (inboxes net) k \<noteq> Some c" for k
    using ok b(1) unfolding net_ok_def by (metis option.distinct(1))
  have "distinct (map fst (inboxes net'))" using ok r(2) by (simp add: net_ok_def distinct_update)
  moreover have "inj_on (map_of (inboxes net')) (dom (map_of (inboxes net')))"
    using ok fresh unfolding m net_ok_def inj_on_def dom_def by (simp; metis)
  moreover have "\<exists>b. buffer (ext cx') d = Some b \<and> length b \<le> INBOX_CAPACITY"
    if "map_of (inboxes net') k = Some d" for k d
    using that net_ok_buffer [OF ok, of k d] b r(3) unfolding m
    by (cases "k = ?k"; cases "d = c") auto
  ultimately have "net_ok buffer net' (ext cx')" unfolding net_ok_def by blast
  moreover have "net_queues buffer net' (ext cx') = (net_queues buffer net (ext cx))(?k \<mapsto> [])"
  proof
    fix k
    show "net_queues buffer net' (ext cx') k = ((net_queues buffer net (ext cx))(?k \<mapsto> [])) k"
      using fresh [of k] b m r(3) by (cases "map_of (inboxes net) k") (auto simp: net_queues_def)
  qed
  ultimately show ?thesis
    using r(1) m net_queues_no_key [OF None, of buffer "ext cx"] by (simp add: spec_open_def)
qed

lemma socket_open_queues:
  assumes "socket_open n ty port cx = Inr (r, cx')" and "the_net n cx = Some net"
    and "net_ok buffer net (ext cx)"
  obtains net' where "the_net n cx' = Some net'" "net_ok buffer net' (ext cx')"
    "case r of
       Inl _ \<Rightarrow> net' = net \<and> ext cx' = ext cx \<and>
         spec_open (Addr (current_node cx) port, ty) (net_queues buffer net (ext cx)) = None
     | Inr s \<Rightarrow> socket_ty s = ty \<and> local_addr s = Addr (current_node cx) port \<and>
         map_of (inboxes net') (Addr (current_node cx) port, ty) = Some (inbox s) \<and>
         spec_open (Addr (current_node cx) port, ty) (net_queues buffer net (ext cx)) =
           Some (net_queues buffer net' (ext cx'))"
proof -
  have w: "with_net n (open_inbox n (Addr (current_node cx) port) ty) cx = Inr (r, cx')"
    using assms(1) by (auto simp: socket_open_def cx_current_node_def split: if_splits)
  obtain net0 net' cx0 cx1 where o: "the_net n cx = Some net0" "the_net n cx' = Some net'"
    "open_inbox n (Addr (current_node cx) port) ty net0 cx0 = Inr ((r, net'), cx1)"
    "ext cx0 = ext cx" "ext cx' = ext cx1"
    by (rule with_net_the_net [OF w downcast_box]) (use open_inbox_frame in blast)+
  have net0: "net0 = net" using o(1) assms(2) by simp
  have "net_ok buffer net0 (ext cx0)" using net0 assms(3) o(4) by simp
  from open_inbox_queues [OF this o(3)] show ?thesis
    unfolding net0 o(4) o(5) [symmetric] by (intro that [OF o(2)]) (elim conjE; assumption)+
qed

lemma socket_drop_queues:
  assumes "socket_drop e n s cx = Inr (u, cx')" and "the_net n cx = Some net"
    and "net_ok buffer net (ext cx)"
  obtains net' where "the_net n cx' = Some net'" "net_ok buffer net' (ext cx')"
    "net_queues buffer net' (ext cx') =
      spec_close (local_addr s, socket_ty s) (net_queues buffer net (ext cx))"
proof -
  let ?k = "(local_addr s, socket_ty s)"
  have w: "with_net n (close_inbox e s) cx = Inr (u, cx')"
    using assms(1) by (simp add: socket_drop_def)
  obtain net0 net' cx0 cx1 where o: "the_net n cx = Some net0" "the_net n cx' = Some net'"
    "close_inbox e s net0 cx0 = Inr ((u, net'), cx1)" "ext cx0 = ext cx" "ext cx' = ext cx1"
    by (rule with_net_the_net [OF w downcast_box]) (use close_inbox_frame in blast)+
  have r: "net' = net\<lparr>inboxes := AList.delete ?k (inboxes net)\<rparr>" "ext cx' = ext cx"
    using o assms(2) by (auto simp: close_inbox_def Let_def split: if_splits)
  have m: "map_of (inboxes net') = (map_of (inboxes net))(?k := None)"
    using r(1) by (simp add: delete_conv')
  have "distinct (map fst (inboxes net'))"
    using assms(3) r(1) by (simp add: net_ok_def distinct_delete)
  moreover have "inj_on (map_of (inboxes net')) (dom (map_of (inboxes net')))"
    using assms(3) unfolding m net_ok_def inj_on_def dom_def by (simp; metis)
  moreover have "\<exists>b. buffer (ext cx') d = Some b \<and> length b \<le> INBOX_CAPACITY"
    if "map_of (inboxes net') k = Some d" for k d
    using that net_ok_buffer [OF assms(3), of k d] r(2) unfolding m by (cases "k = ?k") auto
  ultimately have "net_ok buffer net' (ext cx')" unfolding net_ok_def by blast
  moreover have "net_queues buffer net' (ext cx') = spec_close ?k (net_queues buffer net (ext cx))"
    using m r(2) by (auto simp: net_queues_def spec_close_def fun_eq_iff)
  ultimately show ?thesis using that [OF o(2)] by blast
qed

text \<open>Restarting a node empties its inboxes and no other.\<close>

lemma restart_inbox_queues:
  assumes ok: "net_ok buffer net (ext cx)" and r: "restart_inbox n net node k cx = Inr cx'"
  shows "net_ok buffer net (ext cx') \<and>
    net_queues buffer net (ext cx') =
      (let w = net_queues buffer net (ext cx) in
       if addr_node (fst k) = node then w(k := map_option (\<lambda>_. []) (w k)) else w)"
proof (cases "map_of (inboxes net) k")
  case None
  then show ?thesis
    using ok r net_queues_no_key [OF None, of buffer "ext cx"]
    by (auto simp: restart_inbox_def Let_def fun_upd_idem)
next
  case (Some c)
  obtain b where b: "buffer (ext cx) c = Some b" "length b \<le> INBOX_CAPACITY"
    by (rule net_ok_channel [OF ok Some])
  show ?thesis
  proof (cases "addr_node (fst k) = node")
    case True
    then have "drain n c (Suc INBOX_CAPACITY) cx = Inr cx'"
      using r Some by (simp add: restart_inbox_def del: drain.simps)
    from net_queues_change [OF ok Some drain_buffer [OF this b(1)]] show ?thesis
      using True b net_queues_key [OF Some, of buffer "ext cx"] by simp
  qed (use ok r Some in \<open>simp add: restart_inbox_def\<close>)
qed

lemma restart_inboxes_queues:
  assumes "foldE (restart_inbox n net node) ks cx = Inr cx'" and "net_ok buffer net (ext cx)"
  shows "net_ok buffer net (ext cx') \<and>
    net_queues buffer net (ext cx') =
      (\<lambda>k. if k \<in> set ks then spec_restart node (net_queues buffer net (ext cx)) k
        else net_queues buffer net (ext cx) k)"
  using assms
proof (induction ks arbitrary: cx)
  case (Cons k ks)
  then obtain cx1 where one: "restart_inbox n net node k cx = Inr cx1"
    and rest: "foldE (restart_inbox n net node) ks cx1 = Inr cx'" by auto
  note r = restart_inbox_queues [OF Cons.prems(2) one]
  have ih: "net_ok buffer net (ext cx') \<and>
    net_queues buffer net (ext cx') =
      (\<lambda>k. if k \<in> set ks then spec_restart node (net_queues buffer net (ext cx1)) k
        else net_queues buffer net (ext cx1) k)"
    using Cons.IH [OF rest] r by blast
  let ?w = "net_queues buffer net (ext cx)"
  have w1: "net_queues buffer net (ext cx1) = (\<lambda>k'. if k' = k then spec_restart node ?w k else ?w k')"
    using r by (auto simp: spec_restart_def Let_def)
  have "spec_restart node (net_queues buffer net (ext cx1)) = spec_restart node ?w"
    unfolding w1 by (rule ext) (simp add: spec_restart_def option.map_comp o_def)
  with ih w1 show ?case by (auto simp del: foldE.simps)
qed simp

lemma net_start_node_queues:
  assumes "net_start_node n net cx = Inr (net', cx')" and "net_ok buffer net (ext cx)"
  shows "net' = net \<and> net_ok buffer net (ext cx') \<and>
    net_queues buffer net (ext cx') = spec_restart (current_node cx) (net_queues buffer net (ext cx))"
proof -
  have f: "foldE (restart_inbox n net (current_node cx)) (map_order n (map fst (inboxes net))) cx = Inr cx'"
    and "net' = net"
    using assms(1) by (auto simp: net_start_node_def cx_current_node_def split: if_splits)
  have "spec_restart (current_node cx) (net_queues buffer net (ext cx)) k = net_queues buffer net (ext cx) k"
    if "k \<notin> set (map_order n (map fst (inboxes net)))" for k
  proof -
    have "map_of (inboxes net) k = None" using that by (simp add: order_set map_of_eq_None_iff)
    from net_queues_no_key [OF this, of buffer "ext cx"] show ?thesis by (simp add: spec_restart_def)
  qed
  then show ?thesis
    using restart_inboxes_queues [OF f assms(2)] \<open>net' = net\<close> by (auto simp: fun_eq_iff)
qed

text \<open>Emptying the inboxes ends: its panics are those of the channel library.\<close>

lemma net_start_node_panics:
  assumes "net_start_node n net cx = Inl p" and "net_ok buffer net (ext cx)" and "once_set cx"
  shows "\<exists>c cx1. chan_try_receive n c cx1 = Inl p"
proof -
  have "foldE (restart_inbox n net node) ks cx = Inl p \<Longrightarrow> net_ok buffer net (ext cx) \<Longrightarrow>
    \<exists>c cx1. chan_try_receive n c cx1 = Inl p" for node ks and cx :: "('h, 'q, 'f, 's, 'x) sim"
  proof (induction ks arbitrary: cx)
    case (Cons k ks)
    show ?case
    proof (cases "restart_inbox n net node k cx")
      case (Inl q)
      then have q: "restart_inbox n net node k cx = Inl p" using Cons.prems(1) by simp
      then obtain c where c: "map_of (inboxes net) k = Some c" "drain n c (Suc INBOX_CAPACITY) cx = Inl p"
        by (auto simp: restart_inbox_def simp del: drain.simps split: option.splits if_splits)
      obtain b where "buffer (ext cx) c = Some b" "length b \<le> INBOX_CAPACITY"
        by (rule net_ok_channel [OF Cons.prems(2) c(1)])
      from drain_never_out_of_fuel [OF _ this(1) c(2)] this(2) show ?thesis by auto
    next
      case (Inr cx1)
      then show ?thesis
        using Cons.IH [of cx1] Cons.prems(1) restart_inbox_queues [OF Cons.prems(2) Inr] by auto
    qed
  qed simp
  then show ?thesis
    using assms by (auto simp: net_start_node_def cx_current_node_def andThen_eq_Inl)
qed

end

end
