(* ===== verification/PerNode.thy ===== *)
theory PerNode
  imports Nodes
begin

text \<open>
  \<open>PerNode\<close> of \<open>src/simulator.rs\<close>: a simulator that holds one node simulator per node, created by a
  closure. The node simulators of the program have the type \<open>'n\<close> and the state of the closure the
  type \<open>'k\<close>; the closure and the methods of \<open>trait NodeSimulator\<close> are code of the program.
\<close>

record ('n, 'k) per_node =
  node_simulators :: "'n list"
  per_node_closure :: 'k

record ('h, 'q, 'f, 's, 'x, 'n, 'k) per_node_ops =
  per_node_type :: type_id
  call_new :: "'k \<Rightarrow> ('h, 'q, 'f, 's, 'x) sim \<Rightarrow> panic + ('n \<times> 'k) \<times> ('h, 'q, 'f, 's, 'x) sim"
  on_stop :: "'n \<Rightarrow> ('h, 'q, 'f, 's, 'x) sim \<Rightarrow> panic + 'n \<times> ('h, 'q, 'f, 's, 'x) sim"
  on_start :: "'n \<Rightarrow> ('h, 'q, 'f, 's, 'x) sim \<Rightarrow> panic + 'n \<times> ('h, 'q, 'f, 's, 'x) sim"
  box_per_node :: "('n, 'k) per_node \<Rightarrow> 's"
  downcast_per_node :: "'s \<Rightarrow> ('n, 'k) per_node option"

text \<open>\<open>PerNode::new\<close>: the simulator of the initial node is created at once.\<close>

definition new_per_node ::
  "('h, 'q, 'f, 's, 'x, 'n, 'k) per_node_ops \<Rightarrow> 'k \<Rightarrow> ('h, 'q, 'f, 's, 'x) sim \<Rightarrow>
    panic + ('n, 'k) per_node \<times> ('h, 'q, 'f, 's, 'x) sim" where
  "new_per_node po k cx =
     andThen (call_new po k cx) (\<lambda>((s, k), cx).
     Inr (\<lparr>node_simulators = [s], per_node_closure = k\<rparr>, cx))"

text \<open>\<open>Index\<close> and \<open>IndexMut\<close>: the vector is indexed by the node's index and panics out of range.\<close>

definition per_node_index :: "('n, 'k) per_node \<Rightarrow> node_id \<Rightarrow> panic + 'n" where
  "per_node_index p node =
     (if to_index node < length (node_simulators p) then Inr (node_simulators p ! to_index node)
      else Inl IndexOutOfBounds)"

definition per_node_set :: "node_id \<Rightarrow> 'n \<Rightarrow> ('n, 'k) per_node \<Rightarrow> ('n, 'k) per_node" where
  "per_node_set node s p = p\<lparr>node_simulators := (node_simulators p)[to_index node := s]\<rparr>"

text \<open>The three callbacks of \<open>impl Simulator for PerNode\<close>.\<close>

definition per_node_create ::
  "('h, 'q, 'f, 's, 'x, 'n, 'k) per_node_ops \<Rightarrow> ('n, 'k) per_node \<Rightarrow> ('h, 'q, 'f, 's, 'x) sim \<Rightarrow>
    panic + ('n, 'k) per_node \<times> ('h, 'q, 'f, 's, 'x) sim" where
  "per_node_create po p cx =
     andThen (call_new po (per_node_closure p) cx) (\<lambda>((s, k), cx).
     Inr (p\<lparr>node_simulators := node_simulators p @ [s], per_node_closure := k\<rparr>, cx))"

definition per_node_stop ::
  "('h, 'q, 'f, 's, 'x, 'n, 'k) per_node_ops \<Rightarrow> ('n, 'k) per_node \<Rightarrow> ('h, 'q, 'f, 's, 'x) sim \<Rightarrow>
    panic + ('n, 'k) per_node \<times> ('h, 'q, 'f, 's, 'x) sim" where
  "per_node_stop po p cx =
     andThen (cx_current_node cx) (\<lambda>node.
     andThen (per_node_index p node) (\<lambda>s.
     andThen (on_stop po s cx) (\<lambda>(s', cx). Inr (per_node_set node s' p, cx))))"

definition per_node_start ::
  "('h, 'q, 'f, 's, 'x, 'n, 'k) per_node_ops \<Rightarrow> ('n, 'k) per_node \<Rightarrow> ('h, 'q, 'f, 's, 'x) sim \<Rightarrow>
    panic + ('n, 'k) per_node \<times> ('h, 'q, 'f, 's, 'x) sim" where
  "per_node_start po p cx =
     andThen (cx_current_node cx) (\<lambda>node.
     andThen (per_node_index p node) (\<lambda>s.
     andThen (on_start po s cx) (\<lambda>(s', cx). Inr (per_node_set node s' p, cx))))"

text \<open>
  \<open>with_node\<close> and \<open>with_current_node\<close> of the handle, and \<open>with_node_simulator\<close>. As in
  \<open>SimulatorHandle::with\<close>, the whole \<open>PerNode\<close> is locked while the closure runs.
\<close>

definition with_node ::
  "('h, 'q, 'f, 's, 'x, 'n, 'k) per_node_ops \<Rightarrow> node_id \<Rightarrow>
    ('n \<Rightarrow> ('h, 'q, 'f, 's, 'x) sim \<Rightarrow> panic + ('a \<times> 'n) \<times> ('h, 'q, 'f, 's, 'x) sim) \<Rightarrow>
    ('h, 'q, 'f, 's, 'x) sim \<Rightarrow> panic + 'a \<times> ('h, 'q, 'f, 's, 'x) sim" where
  "with_node po node f =
     simulator_with (per_node_type po) (\<lambda>b cx.
       andThen (unwrap (downcast_per_node po b)) (\<lambda>p.
       andThen (per_node_index p node) (\<lambda>s.
       andThen (f s cx) (\<lambda>((a, s'), cx). Inr ((a, box_per_node po (per_node_set node s' p)), cx)))))"

definition with_current_node ::
  "('h, 'q, 'f, 's, 'x, 'n, 'k) per_node_ops \<Rightarrow>
    ('n \<Rightarrow> ('h, 'q, 'f, 's, 'x) sim \<Rightarrow> panic + ('a \<times> 'n) \<times> ('h, 'q, 'f, 's, 'x) sim) \<Rightarrow>
    ('h, 'q, 'f, 's, 'x) sim \<Rightarrow> panic + 'a \<times> ('h, 'q, 'f, 's, 'x) sim" where
  "with_current_node po f cx = andThen (cx_current_node cx) (\<lambda>node. with_node po node f cx)"

definition with_node_simulator ::
  "('h, 'q, 'f, 's, 'x, 'n, 'k) per_node_ops \<Rightarrow>
    ('n \<Rightarrow> ('h, 'q, 'f, 's, 'x) sim \<Rightarrow> panic + ('a \<times> 'n) \<times> ('h, 'q, 'f, 's, 'x) sim) \<Rightarrow>
    ('h, 'q, 'f, 's, 'x) sim \<Rightarrow> panic + 'a \<times> ('h, 'q, 'f, 's, 'x) sim" where
  "with_node_simulator po f cx =
     andThen (simulator_get (per_node_type po) cx) (\<lambda>(_, cx). with_current_node po f cx)"

section \<open>Visiting all simulators\<close>

text \<open>
  What \<open>for_all_simulators\<close> does when the callbacks leave the registry alone: it is a pass over
  the simulators, each with the state that the previous one left.
\<close>

primrec notify ::
  "('s \<Rightarrow> ('h, 'q, 'f, 's, 'x) sim \<Rightarrow> panic + 's \<times> ('h, 'q, 'f, 's, 'x) sim) \<Rightarrow> 's list \<Rightarrow>
    ('h, 'q, 'f, 's, 'x) sim \<Rightarrow> panic + 's list \<times> ('h, 'q, 'f, 's, 'x) sim" where
  "notify f [] cx = Inr ([], cx)"
| "notify f (s # ss) cx =
     andThen (f s cx) (\<lambda>(s', cx).
     andThen (notify f ss cx) (\<lambda>(ss', cx). Inr (s' # ss', cx)))"

text \<open>Callbacks that neither read nor write the registry, and leave the context free.\<close>

definition registry_blind ::
  "('s \<Rightarrow> ('h, 'q, 'f, 's, 'x) sim \<Rightarrow> panic + 's \<times> ('h, 'q, 'f, 's, 'x) sim) \<Rightarrow> bool" where
  "registry_blind f \<longleftrightarrow>
     (\<forall>s cx r. f s (cx\<lparr>simulators := r\<rparr>) = andThen (f s cx) (\<lambda>(s', cx'). Inr (s', cx'\<lparr>simulators := r\<rparr>))) \<and>
     (\<forall>s cx s' cx'. f s cx = Inr (s', cx') \<longrightarrow>
        simulators cx' = simulators cx \<and> (cell cx = CellFree \<longrightarrow> cell cx' = CellFree))"

lemma notify_length: "notify f ss cx = Inr (ss', cx') \<Longrightarrow> length ss' = length ss"
  by (induction ss arbitrary: cx ss') auto

lemma registry_blindD:
  assumes "registry_blind f"
  shows "f s (cx\<lparr>simulators := r\<rparr>) = andThen (f s cx) (\<lambda>(s', cx'). Inr (s', cx'\<lparr>simulators := r\<rparr>))"
    and "f s cx = Inr (s', cx') \<Longrightarrow> simulators cx' = simulators cx"
    and "f s cx = Inr (s', cx') \<Longrightarrow> cell cx = CellFree \<Longrightarrow> cell cx' = CellFree"
  using assms unfolding registry_blind_def by blast+

lemma notify_registry:
  assumes "registry_blind f"
  shows "notify f ss (cx\<lparr>simulators := r\<rparr>) =
    andThen (notify f ss cx) (\<lambda>(ss', cx'). Inr (ss', cx'\<lparr>simulators := r\<rparr>))"
proof (induction ss arbitrary: cx)
  case (Cons s ss)
  show ?case
  proof (cases "f s cx")
    case (Inl p)
    then show ?thesis using registry_blindD(1) [OF assms, of s r cx] by simp
  next
    case (Inr a)
    obtain s' cx1 where a: "a = (s', cx1)" by (cases a)
    show ?thesis
      using registry_blindD(1) [OF assms, of s r cx] Inr a Cons.IH [of cx1]
      by (cases "notify f ss cx1") auto
  qed
qed simp

lemma notify_simulators:
  assumes "registry_blind f"
  shows "notify f ss cx = Inr (ss', cx') \<Longrightarrow>
    simulators cx' = simulators cx \<and> (cell cx = CellFree \<longrightarrow> cell cx' = CellFree)"
proof (induction ss arbitrary: cx ss')
  case (Cons s ss)
  then obtain s' cx1 ss1 where "f s cx = Inr (s', cx1)" "notify f ss cx1 = Inr (ss1, cx')" by auto
  then show ?case using Cons.IH registry_blindD(2,3) [OF assms] by force
qed simp

lemma same_cell: "cell cx = c \<Longrightarrow> cx\<lparr>cell := c\<rparr> = (cx :: ('h, 'q, 'f, 's, 'x) sim)"
  by simp

lemma swap_simulator_free:
  "cell cx = CellFree \<Longrightarrow> i < length (simulators cx) \<Longrightarrow>
    swap_simulator i s cx = Inr (simulators cx ! i, cx\<lparr>simulators := (simulators cx)[i := s]\<rparr>)"
  by (simp add: swap_simulator_def with_cx_def)

lemma visit_simulator_blind:
  assumes blind: "registry_blind f" and free: "cell cx = CellFree" and i: "i < length (simulators cx)"
    and s: "simulators cx ! i = Some s"
  shows "visit_simulator f i (None, cx) =
    andThen (f s cx) (\<lambda>(s', cx'). Inr (None, cx'\<lparr>simulators := (simulators cx)[i := Some s']\<rparr>))"
proof (cases "f s cx")
  case (Inl p)
  then show ?thesis
    using registry_blindD(1) [OF blind] swap_simulator_free [OF free i] s by (simp add: visit_simulator_def)
next
  case (Inr a)
  obtain s' cx1 where a: "a = (s', cx1)" by (cases a)
  have "cell cx1 = CellFree" using registry_blindD(3) [OF blind Inr [unfolded a] free] .
  then show ?thesis
    using registry_blindD(1) [OF blind, of s _ cx] swap_simulator_free [OF free i] s Inr a i
    by (simp add: visit_simulator_def swap_simulator_free)
qed

definition put_all :: "nat list \<Rightarrow> 's list \<Rightarrow> 's option list \<Rightarrow> 's option list" where
  "put_all is ss r = fold (\<lambda>(i, s) r. r[i := Some s]) (zip is ss) r"

lemma put_all_simps [simp]:
  "put_all [] ss r = r"
  "put_all (i # is) (s # ss) r = put_all is ss (r[i := Some s])"
  by (simp_all add: put_all_def)

lemma put_all_nth:
  "length ss = length is \<Longrightarrow> distinct is \<Longrightarrow>
    length (put_all is ss r) = length r \<and>
    (\<forall>k < length is. is ! k < length r \<longrightarrow> put_all is ss r ! (is ! k) = Some (ss ! k)) \<and>
    (\<forall>j. j \<notin> set is \<longrightarrow> put_all is ss r ! j = r ! j)"
proof (induction "is" arbitrary: ss r)
  case (Cons i "is")
  then obtain s ss' where ss: "ss = s # ss'" by (cases ss) auto
  have ih: "length (put_all is ss' (r[i := Some s])) = length (r[i := Some s]) \<and>
    (\<forall>k < length is. is ! k < length (r[i := Some s]) \<longrightarrow>
      put_all is ss' (r[i := Some s]) ! (is ! k) = Some (ss' ! k)) \<and>
    (\<forall>j. j \<notin> set is \<longrightarrow> put_all is ss' (r[i := Some s]) ! j = r[i := Some s] ! j)"
    by (rule Cons.IH) (use Cons.prems ss in auto)
  show ?case
    using ih Cons.prems ss by (auto simp: less_Suc_eq_0_disj nth_list_update)
qed simp

lemma visit_all_blind:
  assumes "registry_blind f" and "cell cx = CellFree" and "distinct is"
    and "\<And>i. i \<in> set is \<Longrightarrow> i < length (simulators cx) \<and> simulators cx ! i = Some (g i)"
  shows "foldE (visit_simulator f) is (None, cx) =
    andThen (notify f (map g is) cx) (\<lambda>(ss', cx').
      Inr (None, cx'\<lparr>simulators := put_all is ss' (simulators cx)\<rparr>))"
  using assms(2-)
proof (induction "is" arbitrary: cx)
  case (Cons i "is")
  have i: "i < length (simulators cx)" "simulators cx ! i = Some (g i)" using Cons.prems(3) by auto
  note v = visit_simulator_blind [OF assms(1) Cons.prems(1) i]
  show ?case
  proof (cases "f (g i) cx")
    case (Inr a)
    obtain s' cx1 where a: "a = (s', cx1)" by (cases a)
    let ?cx = "cx1\<lparr>simulators := (simulators cx)[i := Some s']\<rparr>"
    have free: "cell ?cx = CellFree"
      using registry_blindD(3) [OF assms(1) Inr [unfolded a] Cons.prems(1)] by simp
    have "foldE (visit_simulator f) is (None, ?cx) = andThen (notify f (map g is) ?cx) (\<lambda>(ss', cx').
        Inr (None, cx'\<lparr>simulators := put_all is ss' (simulators ?cx)\<rparr>))"
      by (rule Cons.IH) (use free Cons.prems in \<open>auto simp: nth_list_update\<close>)
    then show ?thesis
      using v Inr a notify_registry [OF assms(1), of "map g is" _ cx1]
      by (cases "notify f (map g is) cx1") auto
  qed (use v in simp)
qed simp

text \<open>The visit order: registration order, or its reverse.\<close>

lemma for_all_simulators_blind:
  assumes blind: "registry_blind f" and free: "cell cx = CellFree" and slots: "simulators cx = map Some ss"
  shows "for_all_simulators forward f cx =
    andThen (notify f (if forward then ss else rev ss) cx) (\<lambda>(ss', cx').
      Inr ((), cx'\<lparr>simulators := map Some (if forward then ss' else rev ss')\<rparr>))"
proof -
  let ?len = "length ss"
  let ?g = "\<lambda>i. if forward then i else ?len - 1 - i"
  let ?is = "map ?g [0..<?len]"
  have dist: "distinct ?is" by (auto simp: distinct_map inj_on_def)
  have order: "map (\<lambda>i. ss ! i) ?is = (if forward then ss else rev ss)"
    by (rule nth_equalityI) (auto simp: rev_nth)
  have v: "foldE (visit_simulator f) ?is (None, cx) =
    andThen (notify f (map (\<lambda>i. ss ! i) ?is) cx) (\<lambda>(ss', cx').
      Inr (None, cx'\<lparr>simulators := put_all ?is ss' (simulators cx)\<rparr>))"
    by (rule visit_all_blind [OF blind free dist]) (use slots in auto)
  have len: "with_cx (\<lambda>cx. Inr (length (simulators cx), cx)) cx = Inr (?len, cx)"
    using free slots by (simp add: with_cx_def)
  show ?thesis
  proof (cases "notify f (if forward then ss else rev ss) cx")
    case (Inl p)
    then show ?thesis using v len order by (simp add: for_all_simulators_def)
  next
    case (Inr a)
    obtain ss' cx' where a: "a = (ss', cx')" by (cases a)
    have l: "length ss' = ?len" using notify_length [OF Inr [unfolded a]] by (simp split: if_splits)
    have c: "cell cx' = CellFree" using notify_simulators [OF blind Inr [unfolded a]] free by simp
    have p: "length (put_all ?is ss' (simulators cx)) = ?len"
      "\<And>k. k < ?len \<Longrightarrow> put_all ?is ss' (simulators cx) ! (?is ! k) = Some (ss' ! k)"
      using put_all_nth [OF _ dist, of ss' "simulators cx"] l slots by auto
    have "put_all ?is ss' (simulators cx) = map Some (if forward then ss' else rev ss')"
    proof (rule nth_equalityI)
      fix j assume "j < length (put_all ?is ss' (simulators cx))"
      then have j: "j < ?len" using p(1) by simp
      show "put_all ?is ss' (simulators cx) ! j = map Some (if forward then ss' else rev ss') ! j"
        using p(2) [of "?g j"] j l by (auto simp: rev_nth)
    qed (use p(1) l in simp)
    then show ?thesis
      using v len order Inr a c l by (simp add: for_all_simulators_def with_cx_def)
  qed
qed

end
