(* ===== verification/Scripts.thy ===== *)
theory Scripts
  imports Builder Inboxes PerNode
begin

text \<open>
  Programs for the runtime: futures that are lists of calls of the crate's functions, with their
  one-shot channels, as \<open>async\<close> blocks and \<open>futures::channel::oneshot\<close> would be. They show that
  the contract of outside code can be met, by every such program, and give the properties
  concrete runs.
\<close>

section \<open>Futures\<close>

text \<open>
  A script is an \<open>async\<close> block: what it is awaiting, if anything, and the calls that follow. A
  \<open>Guarded\<close> one owns values (that it captured, or of \<open>scopeguard\<close>) whose destructors make calls, when
  the block ends or when it is dropped before. A \<open>SleepFut\<close> is the future of the crate itself, spawned
  directly, which owns its \<open>Sleep\<close> until it is dropped; \<open>Deliver\<close> is the future of the network and
  \<open>RootFut\<close> that of a simulation. Spawned tasks and opened sockets are numbered in their order. A
  packet is a number, an error too, all of one type.
\<close>

datatype action =
    Log nat
  | Spawn "action list"
  | SpawnOn nat "action list"
  | SpawnSleep nat
  | SpawnGuarded nat "action list" "action list"
  | SleepFor nat
  | Join nat
  | JoinOk nat
  | Wake nat
  | Abort nat
  | Forever
  | CreateNode
  | StopNode nat
  | StartNode nat
  | StopSimulation
  | AddNet duration
  | AddCounter nat
  | OpenSocket nat
  | SendTo nat nat nat nat
  | SendFrom nat nat nat nat
  | Receive nat
  | ReceiveFrom nat nat nat
  | CloseSocket nat
  | NewId
  | LogTime
  | Raise nat
  | CloneRc
  | DropRc
  | AssertRc nat
  | AssertLog "nat list"
  | AddSim
  | UseSim
  | SleepCounted

datatype await = AwaitSleep nat | AwaitJoin nat | AwaitOk nat | AwaitPacket nat "addr option"

datatype fut =
    Script "await option" "action list"
  | Guarded fut "action list"
  | SleepFut nat
  | Deliver "(nat, nat) delivery"
  | RootFut "fut root"

section \<open>Channels\<close>

datatype channel = Open "id option" | Sent | Closed

text \<open>An inbox: the messages in it and the task that waits for one.\<close>

record ('p, 'er) inbox_chan =
  chan_buf :: "('p, 'er) message list"
  chan_waiter :: "id option"

record ('p, 'er) heap =
  channels :: "channel list"
  handles :: "task_handle list"
  log :: "nat list"
  inbox_chans :: "('p, 'er) inbox_chan list"
  sockets :: "socket list"
  main_output :: "unit ret_cell"
  rc_count :: nat
  static_counter :: nat

text \<open>
  The simulators: the crate's network, the crate's \<open>PerNode\<close> over counters that count their node's
  stops, by one, and starts, by ten, and one with the default methods of \<open>Simulator\<close>. Besides, outside
  code has the reference count of an \<open>Rc\<close> and a static counter.
\<close>

datatype script_simulator = NetSim "unit net" | CounterSim "(nat, nat) per_node" | PlainSim

type_synonym script_heap = "(nat, nat) heap"
type_synonym 'h script_sim = "('h, (nat \<times> instant) list, fut, script_simulator, script_heap) sim"
type_synonym 'h script_env = "('h, (nat \<times> instant) list, fut, script_simulator, script_heap, unit) env"
type_synonym 'h script_net_ops =
  "('h, (nat \<times> instant) list, fut, script_simulator, script_heap, nat, nat, unit) net_ops"
type_synonym 'h counter_ops =
  "('h, (nat \<times> instant) list, fut, script_simulator, script_heap, nat, nat) per_node_ops"

text \<open>The channels below are those of any simulation whose outside code has such a state.\<close>

type_synonym ('h, 'q, 'f, 's, 'p, 'er, 'z) heap_sim = "('h, 'q, 'f, 's, ('p, 'er, 'z) heap_scheme) sim"

text \<open>Root futures, and the cell for the output of a main future.\<close>

definition script_root :: "(fut, script_heap, unit) root_ops" where
  "script_root =
     \<lparr>root_future = RootFut, get_ret = main_output,
      put_ret = (\<lambda>c x. x\<lparr>main_output := c\<rparr>)\<rparr>"

definition new_channel :: "('p, 'er, 'z) heap_scheme \<Rightarrow> nat \<times> ('p, 'er, 'z) heap_scheme" where
  "new_channel x = (length (channels x), x\<lparr>channels := channels x @ [Open None]\<rparr>)"

definition set_channel :: "nat \<Rightarrow> channel \<Rightarrow> ('h, 'q, 'f, 's, 'p, 'er, 'z) heap_sim \<Rightarrow> ('h, 'q, 'f, 's, 'p, 'er, 'z) heap_sim" where
  "set_channel c s cx = cx\<lparr>ext := (ext cx)\<lparr>channels := (channels (ext cx))[c := s]\<rparr>\<rparr>"

text \<open>Closing a channel, with a value or without one, wakes the receiver.\<close>

definition close_channel :: "channel \<Rightarrow> nat \<Rightarrow> ('h, 'q, 'f, 's, 'p, 'er, 'z) heap_sim \<Rightarrow> panic + ('h, 'q, 'f, 's, 'p, 'er, 'z) heap_sim" where
  "close_channel s c cx =
     (if length (channels (ext cx)) \<le> c then Inl IndexOutOfBounds
      else case channels (ext cx) ! c of
        Open (Some w) \<Rightarrow> wake_by_ref w (set_channel c s cx)
      | Open None \<Rightarrow> Inr (set_channel c s cx)
      | _ \<Rightarrow> Inr cx)"

definition poll_channel ::
  "nat \<Rightarrow> id \<Rightarrow> ('h, 'q, 'f, 's, 'p, 'er, 'z) heap_sim \<Rightarrow> panic + unit option poll \<times> ('h, 'q, 'f, 's, 'p, 'er, 'z) heap_sim" where
  "poll_channel c w cx =
     (if length (channels (ext cx)) \<le> c then Inl IndexOutOfBounds
      else case channels (ext cx) ! c of
        Open _ \<Rightarrow> Inr (Pending, set_channel c (Open (Some w)) cx)
      | Sent \<Rightarrow> Inr (Ready (Some ()), cx)
      | Closed \<Rightarrow> Inr (Ready None, cx))"

section \<open>Inboxes\<close>

definition set_inbox :: "nat \<Rightarrow> ('p, 'er) inbox_chan \<Rightarrow> ('h, 'q, 'f, 's, 'p, 'er, 'z) heap_sim \<Rightarrow> ('h, 'q, 'f, 's, 'p, 'er, 'z) heap_sim" where
  "set_inbox c ch cx = cx\<lparr>ext := (ext cx)\<lparr>inbox_chans := (inbox_chans (ext cx))[c := ch]\<rparr>\<rparr>"

definition inbox_new :: "('p, 'er, 'z) heap_scheme \<Rightarrow> nat \<times> ('p, 'er, 'z) heap_scheme" where
  "inbox_new x =
     (length (inbox_chans x),
      x\<lparr>inbox_chans := inbox_chans x @ [\<lparr>chan_buf = [], chan_waiter = None\<rparr>]\<rparr>)"

definition inbox_try_send ::
  "nat \<Rightarrow> ('p, 'er) message \<Rightarrow> ('h, 'q, 'f, 's, 'p, 'er, 'z) heap_sim \<Rightarrow> panic + bool \<times> ('h, 'q, 'f, 's, 'p, 'er, 'z) heap_sim" where
  "inbox_try_send c m cx =
     (if length (inbox_chans (ext cx)) \<le> c then Inl IndexOutOfBounds
      else
        let ch = inbox_chans (ext cx) ! c in
        if INBOX_CAPACITY \<le> length (chan_buf ch) then Inr (False, cx)
        else
          let cx = set_inbox c \<lparr>chan_buf = chan_buf ch @ [m], chan_waiter = None\<rparr> cx in
          (case chan_waiter ch of
             None \<Rightarrow> Inr (True, cx)
           | Some w \<Rightarrow> andThen (wake_by_ref w cx) (\<lambda>cx. Inr (True, cx))))"

definition inbox_try_receive ::
  "nat \<Rightarrow> ('h, 'q, 'f, 's, 'p, 'er, 'z) heap_sim \<Rightarrow> panic + ('p, 'er) message option \<times> ('h, 'q, 'f, 's, 'p, 'er, 'z) heap_sim" where
  "inbox_try_receive c cx =
     (if length (inbox_chans (ext cx)) \<le> c then Inl IndexOutOfBounds
      else
        let ch = inbox_chans (ext cx) ! c in
        (case chan_buf ch of
           [] \<Rightarrow> Inr (None, cx)
         | m # b \<Rightarrow> Inr (Some m, set_inbox c (ch\<lparr>chan_buf := b\<rparr>) cx)))"

definition inbox_poll ::
  "nat \<Rightarrow> id \<Rightarrow> ('h, 'q, 'f, 's, 'p, 'er, 'z) heap_sim \<Rightarrow> panic + ('p, 'er) message option poll \<times> ('h, 'q, 'f, 's, 'p, 'er, 'z) heap_sim" where
  "inbox_poll c w cx =
     (if length (inbox_chans (ext cx)) \<le> c then Inl IndexOutOfBounds
      else
        let ch = inbox_chans (ext cx) ! c in
        (case chan_buf ch of
           [] \<Rightarrow> Inr (Pending, set_inbox c (ch\<lparr>chan_waiter := Some w\<rparr>) cx)
         | m # b \<Rightarrow> Inr (Ready (Some m), set_inbox c (ch\<lparr>chan_buf := b\<rparr>) cx)))"

definition script_net :: "'h script_net_ops" where
  "script_net =
     \<lparr>packets = \<lparr>packet_concrete = (\<lambda>_. ''P''), packet_type_id = (\<lambda>_. ''P''),
        packet_level = (\<lambda>_. default_level), clone_packet = default_clone\<rparr>,
      rc_unique = (\<lambda>_ _. True),
      call_send_function = (\<lambda>g _ cx. Inr ((g, Immediate (Inr ())), cx)),
      box_net = NetSim,
      downcast_net = (\<lambda>s. case s of NetSim net \<Rightarrow> Some net | _ \<Rightarrow> None),
      delivery_future = Deliver,
      chan_new = inbox_new, chan_try_send = inbox_try_send,
      chan_try_receive = inbox_try_receive, chan_poll = inbox_poll, map_order = (\<lambda>ks. ks)\<rparr>"

definition script_counters :: "'h counter_ops" where
  "script_counters =
     \<lparr>per_node_type = ''Counters'', call_new = (\<lambda>k cx. Inr ((k, k + 1), cx)),
      on_stop = (\<lambda>c cx. Inr (c + 1, cx)), on_start = (\<lambda>c cx. Inr (c + 10, cx)),
      box_per_node = CounterSim,
      downcast_per_node = (\<lambda>s. case s of CounterSim p \<Rightarrow> Some p | _ \<Rightarrow> None)\<rparr>"

fun simulator_create ::
  "script_simulator \<Rightarrow> 'h script_sim \<Rightarrow> panic + script_simulator \<times> 'h script_sim" where
  "simulator_create (NetSim net) cx =
     andThen (net_create_node script_net net cx) (\<lambda>(net, cx). Inr (NetSim net, cx))"
| "simulator_create (CounterSim p) cx =
     andThen (per_node_create script_counters p cx) (\<lambda>(p, cx). Inr (CounterSim p, cx))"
| "simulator_create PlainSim cx = Inr (PlainSim, cx)"

fun simulator_stop ::
  "script_simulator \<Rightarrow> 'h script_sim \<Rightarrow> panic + script_simulator \<times> 'h script_sim" where
  "simulator_stop (NetSim net) cx = Inr (NetSim net, cx)"
| "simulator_stop (CounterSim p) cx =
     andThen (per_node_stop script_counters p cx) (\<lambda>(p, cx). Inr (CounterSim p, cx))"
| "simulator_stop PlainSim cx = Inr (PlainSim, cx)"

fun simulator_start ::
  "script_simulator \<Rightarrow> 'h script_sim \<Rightarrow> panic + script_simulator \<times> 'h script_sim" where
  "simulator_start (NetSim net) cx =
     andThen (net_start_node script_net net cx) (\<lambda>(net, cx). Inr (NetSim net, cx))"
| "simulator_start (CounterSim p) cx =
     andThen (per_node_start script_counters p cx) (\<lambda>(p, cx). Inr (CounterSim p, cx))"
| "simulator_start PlainSim cx = Inr (PlainSim, cx)"

section \<open>The environment without polling, and polling\<close>

text \<open>The environment with some destructor \<open>d\<close> of futures.\<close>

definition call_env ::
  "(fut \<Rightarrow> 'h script_sim \<Rightarrow> panic + 'h script_sim) \<Rightarrow> bool \<Rightarrow> 'h hasher \<Rightarrow> 'h script_env" where
  "call_env d debug hs =
     \<lparr>debug_build = debug, env_hasher = hs, env_pq = list_pq, set_order = (\<lambda>xs. xs),
      oneshot_channel = new_channel,
      oneshot_send = (\<lambda>c _. close_channel Sent c),
      oneshot_drop_sender = close_channel Closed,
      oneshot_poll = poll_channel,
      poll_future = (\<lambda>_ _ _. Inl (UserPanic 0)),
      drop_future = d,
      on_create_node = simulator_create,
      on_stop_node = simulator_stop,
      on_start_node = simulator_start,
      drop_simulator = (\<lambda>_ cx. Inr cx)\<rparr>"

lemma call_env_simps [simp]:
  "debug_build (call_env d debug hs) = debug" "env_hasher (call_env d debug hs) = hs"
  "env_pq (call_env d debug hs) = list_pq" "set_order (call_env d debug hs) xs = xs"
  "oneshot_channel (call_env d debug hs) = new_channel"
  "oneshot_send (call_env d debug hs) c v = close_channel Sent c"
  "oneshot_drop_sender (call_env d debug hs) = close_channel Closed"
  "oneshot_poll (call_env d debug hs) = poll_channel"
  "poll_future (call_env d debug hs) w f cx = Inl (UserPanic 0)"
  "drop_future (call_env d debug hs) = d"
  "on_create_node (call_env d debug hs) = simulator_create"
  "on_stop_node (call_env d debug hs) = simulator_stop"
  "on_start_node (call_env d debug hs) = simulator_start"
  "drop_simulator (call_env d debug hs) u cx = Inr cx"
  by (simp_all add: call_env_def)

definition add_handle :: "task_handle \<Rightarrow> ('h, 'q, 'f, 's, 'p, 'er, 'z) heap_sim \<Rightarrow> ('h, 'q, 'f, 's, 'p, 'er, 'z) heap_sim" where
  "add_handle h cx = cx\<lparr>ext := (ext cx)\<lparr>handles := handles (ext cx) @ [h]\<rparr>\<rparr>"

definition add_log :: "nat \<Rightarrow> ('h, 'q, 'f, 's, 'p, 'er, 'z) heap_sim \<Rightarrow> ('h, 'q, 'f, 's, 'p, 'er, 'z) heap_sim" where
  "add_log n cx = cx\<lparr>ext := (ext cx)\<lparr>log := log (ext cx) @ [n]\<rparr>\<rparr>"

definition handle_at :: "nat \<Rightarrow> ('h, 'q, 'f, 's, 'p, 'er, 'z) heap_sim \<Rightarrow> panic + task_handle" where
  "handle_at n cx =
     (if n < length (handles (ext cx)) then Inr (handles (ext cx) ! n) else Inl IndexOutOfBounds)"

definition add_socket :: "socket \<Rightarrow> ('h, 'q, 'f, 's, 'p, 'er, 'z) heap_sim \<Rightarrow> ('h, 'q, 'f, 's, 'p, 'er, 'z) heap_sim" where
  "add_socket s cx = cx\<lparr>ext := (ext cx)\<lparr>sockets := sockets (ext cx) @ [s]\<rparr>\<rparr>"

definition socket_at :: "nat \<Rightarrow> ('h, 'q, 'f, 's, 'p, 'er, 'z) heap_sim \<Rightarrow> panic + socket" where
  "socket_at i cx =
     (if i < length (sockets (ext cx)) then Inr (sockets (ext cx) ! i) else Inl IndexOutOfBounds)"

text \<open>A call that does not wait: \<open>Some\<close> the state after it, or \<open>None\<close> for the calls that do.\<close>

fun call :: "'h script_env \<Rightarrow> action \<Rightarrow> 'h script_sim \<Rightarrow> (panic + 'h script_sim) option" where
  "call e (Log n) cx = Some (Inr (add_log n cx))"
| "call e (Spawn as) cx =
     Some (andThen (spawn e (Script None as) cx) (\<lambda>(h, cx). Inr (add_handle h cx)))"
| "call e (SpawnOn n as) cx =
     Some (andThen (from_index n) (\<lambda>node.
       andThen (spawn_task_on_node e node (Script None as) cx) (\<lambda>(h, cx). Inr (add_handle h cx))))"
| "call e (SpawnSleep d) cx =
     Some (andThen (sleep 0 d cx) (\<lambda>(k, cx).
       andThen (spawn e (SleepFut k) cx) (\<lambda>(h, cx). Inr (add_handle h cx))))"
| "call e (SpawnGuarded n as ds) cx =
     Some (andThen (from_index n) (\<lambda>node.
       andThen (spawn_task_on_node e node (Guarded (Script None as) ds) cx) (\<lambda>(h, cx).
       Inr (add_handle h cx))))"
| "call e (Wake n) cx = Some (andThen (handle_at n cx) (\<lambda>h. wake_by_ref (handle_abort h) cx))"
| "call e (Abort n) cx =
     Some (andThen (handle_at n cx) (\<lambda>h.
       andThen (abort_inner e (handle_abort h) cx) (\<lambda>(_, cx). Inr cx)))"
| "call e CreateNode cx = Some (andThen (create_node e cx) (\<lambda>(_, cx). Inr cx))"
| "call e (StopNode n) cx =
     Some (andThen (from_index n) (\<lambda>node. andThen (stop_node e node False cx) (\<lambda>(_, cx). Inr cx)))"
| "call e (StartNode n) cx =
     Some (andThen (from_index n) (\<lambda>node. andThen (start_node e node cx) (\<lambda>(_, cx). Inr cx)))"
| "call e StopSimulation cx = Some (andThen (stop_simulation e cx) (\<lambda>(_, cx). Inr cx))"
| "call e (AddNet latency) cx =
     Some (andThen (add_simulator NET (NetSim (new_net (PerfectConnectivity latency))) cx)
       (\<lambda>(_, cx). Inr cx))"
| "call e (AddCounter k) cx =
     Some (andThen (new_per_node script_counters k cx) (\<lambda>(p, cx).
       andThen (add_simulator ''Counters'' (CounterSim p) cx) (\<lambda>(_, cx). Inr cx)))"
| "call e (OpenSocket p) cx =
     Some (andThen (socket_open script_net ''P'' (Id (of_nat p)) cx) (\<lambda>(r, cx).
       case r of Inl _ \<Rightarrow> Inl (UserPanic 0) | Inr s \<Rightarrow> Inr (add_socket s cx)))"
| "call e (SendTo i n p v) cx =
     Some (andThen (from_index n) (\<lambda>node.
       andThen (socket_at i cx) (\<lambda>s.
       andThen (socket_send e script_net s (Addr node (Id (of_nat p))) v cx) (\<lambda>(_, cx). Inr cx))))"
| "call e (SendFrom q n p v) cx =
     Some (andThen (from_index n) (\<lambda>node.
       andThen (simulator_get NET cx) (\<lambda>(_, cx).
       andThen (with_net script_net
           (net_send e script_net (Id (of_nat q)) (Addr node (Id (of_nat p))) v) cx) (\<lambda>(_, cx). Inr cx))))"
| "call e NewId cx = Some (andThen (new_id (debug_build e) cx) (\<lambda>(_, cx). Inr cx))"
| "call e LogTime cx = Some (Inr (add_log (instant_now 0 cx) cx))"
| "call e (CloseSocket i) cx =
     Some (andThen (socket_at i cx) (\<lambda>s.
       andThen (socket_drop e script_net s cx) (\<lambda>(_, cx). Inr cx)))"
| "call e (Raise n) cx = Some (Inl (UserPanic n))"
| "call e CloneRc cx = Some (Inr (cx\<lparr>ext := (ext cx)\<lparr>rc_count := rc_count (ext cx) + 1\<rparr>\<rparr>))"
| "call e DropRc cx = Some (Inr (cx\<lparr>ext := (ext cx)\<lparr>rc_count := rc_count (ext cx) - 1\<rparr>\<rparr>))"
| "call e (AssertRc n) cx = Some (if rc_count (ext cx) = n then Inr cx else Inl AssertFailed)"
| "call e (AssertLog l) cx = Some (if log (ext cx) = l then Inr cx else Inl AssertFailed)"
| "call e AddSim cx = Some (andThen (add_simulator ''Sim'' PlainSim cx) (\<lambda>(_, cx). Inr cx))"
| "call e UseSim cx =
     Some (andThen (with_simulator ''Sim'' (\<lambda>s cx. Inr (((), s), cx)) cx) (\<lambda>(_, cx). Inr cx))"
| "call e _ cx = None"

text \<open>
  Destructors: what was captured goes after the block's own values. A destructor that drops a future
  which has destructors of its own is not among the programs here.
\<close>

fun run_calls :: "'h script_env \<Rightarrow> action list \<Rightarrow> 'h script_sim \<Rightarrow> panic + 'h script_sim" where
  "run_calls e [] cx = Inr cx"
| "run_calls e (a # as) cx =
     (case call e a cx of None \<Rightarrow> Inl (UserPanic 0) | Some r \<Rightarrow> andThen r (run_calls e as))"

fun drop_plain :: "fut \<Rightarrow> 'h script_sim \<Rightarrow> panic + 'h script_sim" where
  "drop_plain (Script (Some (AwaitSleep k)) as) cx = sleep_drop list_pq k cx"
| "drop_plain (Script _ as) cx = Inr cx"
| "drop_plain (Guarded f ds) cx = Inl (UserPanic 0)"
| "drop_plain (SleepFut k) cx = sleep_drop list_pq k cx"
| "drop_plain (Deliver d) cx = delivery_drop list_pq d cx"
| "drop_plain (RootFut r) cx = Inl (UserPanic 0)"

fun drop_fut :: "bool \<Rightarrow> 'h hasher \<Rightarrow> fut \<Rightarrow> 'h script_sim \<Rightarrow> panic + 'h script_sim" where
  "drop_fut debug hs (Guarded f ds) cx =
     andThen (drop_fut debug hs f cx) (run_calls (call_env drop_plain debug hs) ds)"
| "drop_fut debug hs (RootFut (RootAwaiting f)) cx =
     andThen (drop_fut debug hs f cx) (\<lambda>cx. Inr (release_output script_root cx))"
| "drop_fut debug hs (RootFut RootDone) cx = Inr cx"
| "drop_fut debug hs f cx = drop_plain f cx"

abbreviation base_env :: "bool \<Rightarrow> 'h hasher \<Rightarrow> 'h script_env" where
  "base_env debug hs \<equiv> call_env (drop_fut debug hs) debug hs"

text \<open>
  The awaits: \<open>True\<close> when the awaited future is ready and dropped. A message received is logged, and it
  is a panic when it comes from another address than the one that is asserted.
\<close>

fun log_received ::
  "addr option \<Rightarrow> (nat + nat \<times> addr) poll \<Rightarrow> 'h script_sim \<Rightarrow> panic + bool \<times> 'h script_sim" where
  "log_received a Pending cx = Inr (False, cx)"
| "log_received a (Ready (Inl er)) cx = Inr (True, add_log er cx)"
| "log_received a (Ready (Inr (v, src))) cx =
     (if a \<noteq> None \<and> a \<noteq> Some src then Inl AssertFailed else Inr (True, add_log v cx))"

fun poll_await :: "id \<Rightarrow> await \<Rightarrow> 'h script_sim \<Rightarrow> panic + bool \<times> 'h script_sim" where
  "poll_await w (AwaitSleep k) cx =
     andThen (sleep_poll list_pq k w cx) (\<lambda>(r, cx).
     case r of
       Pending \<Rightarrow> Inr (False, cx)
     | Ready _ \<Rightarrow> andThen (sleep_drop list_pq k cx) (\<lambda>cx. Inr (True, cx)))"
| "poll_await w (AwaitJoin c) cx =
     andThen (poll_channel c w cx) (\<lambda>(r, cx). Inr (r \<noteq> Pending, cx))"
| "poll_await w (AwaitOk c) cx =
     andThen (poll_channel c w cx) (\<lambda>(r, cx).
     case r of
       Pending \<Rightarrow> Inr (False, cx)
     | Ready v \<Rightarrow> andThen (unwrap v) (\<lambda>_. Inr (True, cx)))"
| "poll_await w (AwaitPacket i a) cx =
     andThen (socket_at i cx) (\<lambda>s.
     andThen (socket_receive_poll script_net (socket_ty s) (inbox s) w cx) (\<lambda>(r, cx).
     log_received a r cx))"

fun await_of :: "action \<Rightarrow> 'h script_sim \<Rightarrow> panic + await option \<times> 'h script_sim" where
  "await_of (SleepFor d) cx = andThen (sleep 0 d cx) (\<lambda>(k, cx). Inr (Some (AwaitSleep k), cx))"
| "await_of (Join n) cx =
     andThen (handle_at n cx) (\<lambda>h. Inr (Some (AwaitJoin (handle_result h)), cx))"
| "await_of (JoinOk n) cx =
     andThen (handle_at n cx) (\<lambda>h. Inr (Some (AwaitOk (handle_result h)), cx))"
| "await_of (Receive i) cx = Inr (Some (AwaitPacket i None), cx)"
| "await_of (ReceiveFrom i n p) cx =
     andThen (from_index n) (\<lambda>node.
     Inr (Some (AwaitPacket i (Some (Addr node (Id (of_nat p))))), cx))"
| "await_of SleepCounted cx =
     (let n = static_counter (ext cx) in
      andThen (sleep 0 ((1 + n) * 1000000000) (cx\<lparr>ext := (ext cx)\<lparr>static_counter := n + 1\<rparr>\<rparr>)) (\<lambda>(k, cx).
      Inr (Some (AwaitSleep k), cx)))"
| "await_of _ cx = Inr (None, cx)"

primrec run_script ::
  "'h script_env \<Rightarrow> id \<Rightarrow> action list \<Rightarrow> 'h script_sim \<Rightarrow>
    panic + (fut \<times> unit poll) \<times> 'h script_sim" where
  "run_script e w [] cx = Inr ((Script None [], Ready ()), cx)"
| "run_script e w (a # as) cx =
     (case call e a cx of
        Some r \<Rightarrow> andThen r (run_script e w as)
      | None \<Rightarrow>
          andThen (await_of a cx) (\<lambda>(aw, cx).
          case aw of
            None \<Rightarrow> Inr ((Script None (a # as), Pending), cx)
          | Some aw \<Rightarrow>
              andThen (poll_await w aw cx) (\<lambda>(ok, cx).
              if ok then run_script e w as cx else Inr ((Script (Some aw) as, Pending), cx))))"

text \<open>No \<open>Instant\<close> is beyond the range of the type.\<close>

fun instant_range :: "('p, 'er) delivery \<Rightarrow> bool" where
  "instant_range (Enqueued at_time key m) \<longleftrightarrow> at_time \<le> instant_max"
| "instant_range _ \<longleftrightarrow> True"

fun poll_fut ::
  "'h script_env \<Rightarrow> id \<Rightarrow> fut \<Rightarrow> 'h script_sim \<Rightarrow>
    panic + (fut \<times> unit poll) \<times> 'h script_sim" where
  "poll_fut e w (Script None as) cx = run_script e w as cx"
| "poll_fut e w (Script (Some aw) as) cx =
     andThen (poll_await w aw cx) (\<lambda>(ok, cx).
     if ok then run_script e w as cx else Inr ((Script (Some aw) as, Pending), cx))"
| "poll_fut e w (SleepFut k) cx =
     andThen (sleep_poll list_pq k w cx) (\<lambda>(r, cx).
     Inr ((SleepFut k, case r of Pending \<Rightarrow> Pending | Ready _ \<Rightarrow> Ready ()), cx))"
| "poll_fut e w (Deliver d) cx =
     (if instant_range d then
        andThen (delivery_poll e script_net w d cx) (\<lambda>((d, r), cx). Inr ((Deliver d, r), cx))
      else Inl Overflow)"
| "poll_fut e w (Guarded f ds) cx =
     andThen (poll_fut e w f cx) (\<lambda>((f, r), cx).
     case r of
       Pending \<Rightarrow> Inr ((Guarded f ds, Pending), cx)
     | Ready _ \<Rightarrow>
         andThen (drop_future e f cx) (\<lambda>cx.
         andThen (run_calls e ds cx) (\<lambda>cx. Inr ((Script None [], Ready ()), cx))))"
| "poll_fut e w (RootFut (RootAwaiting f)) cx =
     andThen (poll_fut e w f cx) (\<lambda>(polled, cx).
     andThen (root_poll (e\<lparr>poll_future := \<lambda>_ _ cx. Inr (polled, cx)\<rparr>) script_root w (RootAwaiting f) cx)
       (\<lambda>((r, p), cx). Inr ((RootFut r, p), cx)))"
| "poll_fut e w (RootFut RootDone) cx = Inl Unreachable"

text \<open>The environment: none of the crate's functions that a script calls polls a future.\<close>

definition script_env :: "bool \<Rightarrow> 'h hasher \<Rightarrow> 'h script_env" where
  "script_env debug hs = (base_env debug hs)\<lparr>poll_future := poll_fut (base_env debug hs)\<rparr>"

section \<open>Every script meets the contract\<close>

lemma executor_spawn_poll [simp]: "executor_spawn (e\<lparr>poll_future := p\<rparr>) = executor_spawn e"
  by (simp add: executor_spawn_def fun_eq_iff cong: node_run_level.case_cong)

lemma spawn_task_on_node_poll [simp]:
  "spawn_task_on_node (e\<lparr>poll_future := p\<rparr>) = spawn_task_on_node e"
  by (simp add: spawn_task_on_node_def fun_eq_iff)

lemma executor_spawn_drop [simp]: "executor_spawn (e\<lparr>drop_future := p\<rparr>) = executor_spawn e"
  by (simp add: executor_spawn_def fun_eq_iff cong: node_run_level.case_cong)

lemma spawn_task_on_node_drop [simp]:
  "spawn_task_on_node (e\<lparr>drop_future := p\<rparr>) = spawn_task_on_node e"
  by (simp add: spawn_task_on_node_def fun_eq_iff)

lemma ustep_poll: "ustep e cx cx' \<Longrightarrow> ustep (e\<lparr>poll_future := p\<rparr>) cx cx'"
proof (induction rule: ustep.induct)
  case (u_push_node cx n cx')
  then show ?case by (intro ustep.u_push_node) simp
qed (auto intro: ustep.intros)

lemma ustep_drop: "ustep e cx cx' \<Longrightarrow> ustep (e\<lparr>drop_future := p\<rparr>) cx cx'"
proof (induction rule: ustep.induct)
  case (u_push_node cx n cx')
  then show ?case by (intro ustep.u_push_node) simp
qed (auto intro: ustep.intros)

lemma outside_call_mono:
  assumes "outside_call e cx cx'" and "\<And>a b. ustep e a b \<Longrightarrow> ustep e' a b"
  shows "outside_call e' cx cx'"
  using assms mono_rtranclp [of "ustep e" "ustep e'"] by (auto simp: outside_call_def)

lemma outside_call_poll: "outside_call e cx cx' \<Longrightarrow> outside_call (e\<lparr>poll_future := p\<rparr>) cx cx'"
  by (rule outside_call_mono [OF _ ustep_poll])

lemma outside_call_drop:
  assumes "outside_call (call_env d debug hs) cx cx'"
  shows "outside_call (call_env d' debug hs) cx cx'"
proof -
  have "call_env d' debug hs = (call_env d debug hs)\<lparr>drop_future := d'\<rparr>" by (simp add: call_env_def)
  then show ?thesis using outside_call_mono [OF assms ustep_drop] by metis
qed

lemma outside_call_script:
  "outside_call (base_env debug hs) cx cx' \<Longrightarrow> outside_call (script_env debug hs) cx cx'"
  by (simp add: script_env_def outside_call_poll)

text \<open>The pieces of a script, over the environment without polling.\<close>

lemma close_channel_call:
  fixes cx :: "('h, 'q, 'f, 's, 'p, 'er, 'z) heap_sim"
  assumes "close_channel s c cx = Inr cx'"
  shows "outside_call e cx cx'"
  using assms ext_call [of e cx] wake_call outside_call_trans
  by (fastforce simp: close_channel_def set_channel_def split: if_splits channel.splits option.splits)

lemma sleep_drop_call: "sleep_drop list_pq k cx = Inr cx' \<Longrightarrow> outside_call (call_env d debug hs) cx cx'"
  using sleep_drop_outside_call [of "call_env d debug hs"] by simp

lemma delivery_drop_call:
  "delivery_drop list_pq dl cx = Inr cx' \<Longrightarrow> outside_call (call_env d debug hs) cx cx'"
  by (cases dl) (auto intro: sleep_drop_call)

lemma drop_plain_call: "drop_plain f cx = Inr cx' \<Longrightarrow> outside_call (call_env d debug hs) cx cx'"
  by (induction f cx rule: drop_plain.induct)
    (auto intro: sleep_drop_call delivery_drop_call)

lemma inbox_set_call: "outside_call e cx (set_inbox c ch cx)"
  by (simp add: set_inbox_def ext_call)

lemma set_inbox_frame [simp]:
  "same_registry cx (set_inbox c ch cx)"
  "simulators (set_inbox c ch cx) = simulators cx"
  "simulators_by_type (set_inbox c ch cx) = simulators_by_type cx"
  "cell (set_inbox c ch cx) = cell cx"
  "inbox_chans (ext (set_inbox c ch cx)) = (inbox_chans (ext cx))[c := ch]"
  by (simp_all add: same_registry_def set_inbox_def)

text \<open>The inboxes behave as documented.\<close>

definition script_buffer :: "('p, 'er, 'z) heap_scheme \<Rightarrow> nat \<Rightarrow> ('p, 'er) message list option" where
  "script_buffer x c =
     (if c < length (inbox_chans x) then Some (chan_buf (inbox_chans x ! c)) else None)"

lemma script_buffer_set:
  "c < length (inbox_chans (ext cx)) \<Longrightarrow>
    script_buffer (ext (set_inbox c ch cx)) = (script_buffer (ext cx))(c \<mapsto> chan_buf ch)"
  by (auto simp: script_buffer_def fun_eq_iff)

lemma wake_frame_ext:
  "wake_by_ref w cx = Inr cx' \<Longrightarrow> ext cx' = ext cx \<and> same_registry cx cx'"
  by (auto simp: same_registry_def elim!: wake_by_ref_cases)

lemma inbox_try_send_effect:
  assumes "inbox_try_send c m cx = Inr (ok, cx')"
  shows "outside_call e cx cx' \<and> same_registry cx cx' \<and>
    (\<exists>b. script_buffer (ext cx) c = Some b \<and> ok = (length b < INBOX_CAPACITY) \<and>
      script_buffer (ext cx') =
        (script_buffer (ext cx))(c \<mapsto> if length b < INBOX_CAPACITY then b @ [m] else b))"
proof -
  let ?ch = "inbox_chans (ext cx) ! c"
  let ?cx = "set_inbox c \<lparr>chan_buf = chan_buf ?ch @ [m], chan_waiter = None\<rparr> cx"
  have c: "c < length (inbox_chans (ext cx))"
    using assms by (auto simp: inbox_try_send_def split: if_splits)
  then have b: "script_buffer (ext cx) c = Some (chan_buf ?ch)" by (simp add: script_buffer_def)
  show ?thesis
  proof (cases "INBOX_CAPACITY \<le> length (chan_buf ?ch)")
    case True
    then show ?thesis using assms c b by (auto simp: inbox_try_send_def fun_upd_idem)
  next
    case False
    note s = script_buffer_set [OF c, of "\<lparr>chan_buf = chan_buf ?ch @ [m], chan_waiter = None\<rparr>"]
    have "ok \<and> outside_call e ?cx cx' \<and> same_registry ?cx cx' \<and> ext cx' = ext ?cx"
      using assms c False wake_frame_ext wake_call
      by (fastforce simp: inbox_try_send_def Let_def split: option.splits)
    then show ?thesis
      using False b s outside_call_trans [OF inbox_set_call] by (simp add: same_registry_def) blast
  qed
qed

lemma inbox_take_effect:
  assumes "inbox_try_receive c cx = Inr (r, cx')"
  shows "outside_call e cx cx' \<and> same_registry cx cx' \<and>
    (\<exists>b. script_buffer (ext cx) c = Some b \<and> r = (case b of [] \<Rightarrow> None | m # _ \<Rightarrow> Some m) \<and>
      script_buffer (ext cx') = (script_buffer (ext cx))(c \<mapsto> tl b))"
proof -
  have c: "c < length (inbox_chans (ext cx))"
    using assms by (auto simp: inbox_try_receive_def split: if_splits)
  then have b: "script_buffer (ext cx) c = Some (chan_buf (inbox_chans (ext cx) ! c))"
    by (simp add: script_buffer_def)
  show ?thesis
    using assms c b
    by (auto simp: inbox_try_receive_def script_buffer_set inbox_set_call fun_upd_idem split: list.splits)
qed

lemma inbox_poll_effect:
  assumes "inbox_poll c w cx = Inr (r, cx')"
  shows "outside_call e cx cx' \<and> same_registry cx cx' \<and>
    (\<exists>b. script_buffer (ext cx) c = Some b \<and> r = (case b of [] \<Rightarrow> Pending | m # _ \<Rightarrow> Ready (Some m)) \<and>
      script_buffer (ext cx') = (script_buffer (ext cx))(c \<mapsto> tl b))"
proof -
  have c: "c < length (inbox_chans (ext cx))"
    using assms by (auto simp: inbox_poll_def split: if_splits)
  then have b: "script_buffer (ext cx) c = Some (chan_buf (inbox_chans (ext cx) ! c))"
    by (simp add: script_buffer_def)
  show ?thesis
    using assms c b
    by (auto simp: inbox_poll_def script_buffer_set inbox_set_call fun_upd_idem split: list.splits)
qed

lemma script_net_simps [simp]:
  "call_send_function script_net g p cx = Inr ((g, Immediate (Inr ())), cx)"
  "box_net script_net = NetSim" "downcast_net script_net (NetSim net) = Some net"
  "delivery_future script_net = Deliver" "chan_new script_net = inbox_new"
  "chan_try_send script_net = inbox_try_send" "chan_try_receive script_net = inbox_try_receive"
  "chan_poll script_net = inbox_poll" "map_order script_net ks = ks"
  by (simp_all add: script_net_def)

lemma heap_inbox_channels:
  assumes "oneshot_channel e = new_channel" and "chan_new n = inbox_new"
    and "chan_try_send n = inbox_try_send" and "chan_try_receive n = inbox_try_receive"
    and "chan_poll n = inbox_poll" and "\<And>ks. map_order n ks = ks"
    and "\<And>net. downcast_net n (box_net n net) = Some net"
    and "\<And>g p cx out cx'. call_send_function n g p cx = Inr (out, cx') \<Longrightarrow> outside_call e cx cx'"
  shows "inbox_channels e n script_buffer"
proof (rule inbox_channels.intro, goal_cases)
  case (3 x c x')
  then show ?case using assms(1) by (auto simp: new_channel_def script_buffer_def)
next
  case (4 x c x')
  then show ?case
    using assms(2) by (auto simp: inbox_new_def script_buffer_def nth_append fun_eq_iff)
next
  case (5 c m cx ok cx' b)
  then show ?case using assms(3) inbox_try_send_effect [of c m cx ok cx' e] by fastforce
next
  case (6 c m cx ok cx')
  then show ?case using assms(3) inbox_try_send_effect [of c m cx ok cx' e] by simp
next
  case (7 c cx r cx' b)
  then show ?case using assms(4) inbox_take_effect [of c cx r cx' e] by fastforce
next
  case (8 c cx r cx')
  then show ?case using assms(4) inbox_take_effect [of c cx r cx' e] by simp
next
  case (9 c w cx p cx' b)
  then show ?case using assms(5) inbox_poll_effect [of c w cx p cx' e] by fastforce
next
  case (11 c w cx p cx')
  then show ?case using assms(5) inbox_poll_effect [of c w cx p cx' e] by simp
qed (use assms in auto)

lemma script_inbox_channels: "oneshot_channel e = new_channel \<Longrightarrow> inbox_channels e script_net script_buffer"
  by (rule heap_inbox_channels) auto

interpretation base_net: inbox_channels "call_env d debug hs" script_net script_buffer
  for d :: "fut \<Rightarrow> 'h script_sim \<Rightarrow> panic + 'h script_sim" and debug :: bool and hs :: "'h hasher"
  by (rule script_inbox_channels) simp

lemma counter_calls:
  "per_node_create script_counters p cx = Inr (p', cx') \<Longrightarrow> cx' = cx"
  "per_node_stop script_counters p cx = Inr (p', cx') \<Longrightarrow> cx' = cx"
  "per_node_start script_counters p cx = Inr (p', cx') \<Longrightarrow> cx' = cx"
  by (auto simp: per_node_create_def per_node_stop_def per_node_start_def script_counters_def)

lemma simulator_calls:
  "simulator_create s cx = Inr (s', cx') \<Longrightarrow> outside_call (call_env d debug hs) cx cx'"
  "simulator_stop s cx = Inr (s', cx') \<Longrightarrow> outside_call (call_env d debug hs) cx cx'"
  "simulator_start s cx = Inr (s', cx') \<Longrightarrow> outside_call (call_env d debug hs) cx cx'"
  by (cases s; auto simp: net_create_node_def dest: counter_calls base_net.net_start_node_call)+

text \<open>The calls of a script.\<close>

lemma handle_call: "outside_call e cx (add_handle h cx)"
  by (simp add: add_handle_def ext_call)

lemma new_per_node_call: "new_per_node script_counters k cx = Inr (p, cx') \<Longrightarrow> cx' = cx"
  by (auto simp: new_per_node_def script_counters_def)

lemma open_socket_call:
  assumes "(case r of Inl _ \<Rightarrow> Inl (UserPanic 0) | Inr s \<Rightarrow> Inr (add_socket s cx)) = Inr cx'"
    and "socket_open script_net ''P'' p cx0 = Inr (r, cx)"
  shows "outside_call (call_env d debug hs) cx0 cx'"
  using assms(1) outside_call_trans [OF base_net.socket_open_call [OF assms(2)] ext_call]
  by (auto simp: add_socket_def split: sum.splits)

lemma new_id_call: "new_id debug cx = Inr (i, cx') \<Longrightarrow> outside_call (call_env d debug hs) cx cx'"
  using new_id_outside_call [of "call_env d debug hs"] by simp

lemma script_net_send_call:
  "with_net script_net (net_send (call_env d debug hs) script_net q a v) cx = Inr (r, cx') \<Longrightarrow>
    outside_call (call_env d debug hs) cx cx'"
  by (auto simp: base_net.net_send_call elim!: with_net_call)

lemma use_sim_call:
  assumes "with_simulator ty (\<lambda>s cx. Inr (((), s), cx)) cx = Inr (u, cx')"
  shows "outside_call e cx cx'"
proof -
  obtain taken cx1 where t: "take_simulator ty cx = Inr (taken, cx1)"
    and rest: "(case taken of
       None \<Rightarrow> andThen (Inl UnwrapNone) (\<lambda>((a, _), cx). Inr (a, cx))
     | Some (index, s) \<Rightarrow>
         andThen (put_back_simulator index s cx1) (\<lambda>(_, cx). Inr ((), cx))) = Inr (u, cx')"
    using assms
    by (fastforce simp: with_simulator_def simulator_with_def with_simulator_option_def split: option.splits)
  obtain i s v where taken: "taken = Some (i, s)" and put: "put_back_simulator i s cx1 = Inr (v, cx')"
    using rest by (cases taken) auto
  have "cx1 = cx\<lparr>simulators := (simulators cx)[i := None]\<rparr>" "cell cx = CellFree"
    using t by (auto simp: taken take_simulator_def with_cx_Inr split: option.splits if_splits)
  moreover have "cx' = cx1\<lparr>simulators := (simulators cx1)[i := Some s]\<rparr>"
    using put by (auto simp: put_back_simulator_def with_cx_Inr split: if_splits)
  ultimately show ?thesis by (simp add: registry_call)
qed

lemma release_call: "outside_call e cx (release_output ro cx)"
  by (simp add: release_output_def Let_def ext_call)

text \<open>
  A script's calls keep to the contract when the destructors do, which gives the destructors that run
  calls from those that do not.
\<close>

lemma call_call:
  assumes "call (call_env d debug hs) a cx = Some (Inr cx')" and oc: "outside_code (call_env d debug hs) map_of"
  shows "outside_call (call_env d debug hs) cx cx'"
  using assms(1)
  by (induction "call_env d debug hs" a cx rule: call.induct)
    (auto simp: add_log_def split: if_splits intro: ext_call wake_call outside_code.abort_inner_call [OF oc]
      outside_code.create_node_call [OF oc] outside_code.stop_node_call [OF oc]
      outside_code.start_node_call [OF oc] outside_code.stop_simulation_call [OF oc]
      outside_call_trans [OF spawn_call handle_call] outside_call_trans [OF spawn_on_call handle_call]
      outside_call_trans [OF sleep_call outside_call_trans [OF spawn_call handle_call]]
      add_simulator_call open_socket_call base_net.socket_send_call base_net.socket_drop_call
      new_id_call script_net_send_call use_sim_call
      dest: new_per_node_call)

lemma run_calls_call:
  assumes "run_calls (call_env d debug hs) as cx = Inr cx'" and oc: "outside_code (call_env d debug hs) map_of"
  shows "outside_call (call_env d debug hs) cx cx'"
  using assms(1)
proof (induction as arbitrary: cx)
  case (Cons a as)
  then obtain cx1 where "call (call_env d debug hs) a cx = Some (Inr cx1)"
    and "run_calls (call_env d debug hs) as cx1 = Inr cx'"
    by (auto split: option.splits)
  then show ?case using call_call [OF _ oc] Cons.IH outside_call_trans by blast
qed simp

lemma call_env_outside_code:
  assumes "\<And>f cx cx'. d f cx = Inr cx' \<Longrightarrow> outside_call (call_env d debug hs) cx cx'"
  shows "outside_code (call_env d debug hs) map_of"
proof (intro outside_code.intro outside_code_axioms.intro)
  show "priority_queue (env_pq (call_env d debug hs)) map_of"
    by (simp add: list_pq.priority_queue_axioms)
qed (use assms in \<open>auto intro: close_channel_call simulator_calls\<close>)

lemma plain_outside_code: "outside_code (call_env drop_plain debug hs) map_of"
  by (rule call_env_outside_code) (rule drop_plain_call)

lemma drop_fut_call:
  "drop_fut debug hs f cx = Inr cx' \<Longrightarrow> outside_call (base_env debug hs) cx cx'"
proof (induction debug hs f cx arbitrary: cx' rule: drop_fut.induct)
  case (1 debug hs f ds cx)
  then obtain cx1 where "outside_call (base_env debug hs) cx cx1"
    and "run_calls (call_env drop_plain debug hs) ds cx1 = Inr cx'" by auto
  then show ?case
    using outside_call_drop [OF run_calls_call [OF _ plain_outside_code]] outside_call_trans by blast
next
  case (2 debug hs f cx)
  then show ?case using outside_call_trans [OF _ release_call] by fastforce
qed (auto intro: drop_plain_call simp del: drop_plain.simps)

lemma base_outside_code: "outside_code (base_env debug hs) map_of"
  by (rule call_env_outside_code) (rule drop_fut_call)

interpretation base: outside_code "base_env debug hs" map_of
  for debug :: bool and hs :: "'h hasher"
  by (rule base_outside_code)

lemmas base_call = call_call [OF _ base_outside_code]
lemmas base_calls = run_calls_call [OF _ base_outside_code]

lemma sleep_poll_call:
  "sleep_poll list_pq k w cx = Inr (r, cx') \<Longrightarrow> arcs cx w \<noteq> None \<Longrightarrow>
    outside_call (call_env d debug hs) cx cx'"
  using sleep_poll_outside_call [of "call_env d debug hs"] by simp

lemma log_received_call: "log_received a r cx = Inr (ok, cx') \<Longrightarrow> outside_call e cx cx'"
  by (induction a r cx rule: log_received.induct) (auto simp: add_log_def ext_call split: if_splits)

lemma poll_await_call:
  assumes "poll_await w aw cx = Inr (ok, cx')" and "arcs cx w \<noteq> None"
  shows "outside_call (call_env d debug hs) cx cx'"
proof (cases aw)
  case (AwaitSleep k)
  then obtain r cx1 where r: "sleep_poll list_pq k w cx = Inr (r, cx1)"
    and rest: "(case r of Pending \<Rightarrow> Inr (False, cx1)
      | Ready _ \<Rightarrow> andThen (sleep_drop list_pq k cx1) (\<lambda>cx. Inr (True, cx))) = Inr (ok, cx')"
    using assms(1) by auto
  note one = sleep_poll_call [OF r assms(2)]
  show ?thesis
    using rest one outside_call_trans [OF one sleep_drop_call] by (cases r) auto
next
  case (AwaitJoin c)
  then show ?thesis
    using assms(1)
    by (auto simp: poll_channel_def set_channel_def split: if_splits channel.splits intro: ext_call)
next
  case (AwaitOk c)
  then show ?thesis
    using assms(1)
    by (auto simp: poll_channel_def set_channel_def split: if_splits channel.splits intro: ext_call)
next
  case (AwaitPacket i a)
  then obtain s :: socket and r cx1 where r: "socket_receive_poll script_net (socket_ty s) (inbox s) w cx = Inr (r, cx1)"
    and l: "log_received a r cx1 = Inr (ok, cx')"
    using assms(1) by auto
  show ?thesis
    using outside_call_trans [OF base_net.socket_receive_poll_call [OF r] log_received_call [OF l]] .
qed

lemma await_of_call: "await_of a cx = Inr (aw, cx') \<Longrightarrow> outside_call e cx cx'"
  by (cases a) (auto simp: Let_def intro: sleep_call outside_call_trans [OF ext_call sleep_call])

lemma run_script_call:
  assumes "run_script (base_env debug hs) w as cx = Inr ((f, r), cx')" and "arcs cx w \<noteq> None"
  shows "outside_call (base_env debug hs) cx cx'"
  using assms
proof (induction as arbitrary: cx)
  case (Cons a as)
  let ?e = "base_env debug hs"
  show ?case
  proof (cases "call ?e a cx")
    case (Some c)
    then obtain cx1 where c: "call ?e a cx = Some (Inr cx1)" and "run_script ?e w as cx1 = Inr ((f, r), cx')"
      using Cons.prems(1) by (cases c) auto
    then show ?thesis
      using Cons.IH [OF _ outside_call_arcs [OF base_call Cons.prems(2)]] base_call outside_call_trans by blast
  next
    case None
    obtain aw cx1 where aw: "await_of a cx = Inr (aw, cx1)"
      and rest: "(case aw of None \<Rightarrow> Inr ((Script None (a # as), Pending), cx1)
        | Some aw \<Rightarrow> andThen (poll_await w aw cx1) (\<lambda>(ok, cx).
            if ok then run_script ?e w as cx else Inr ((Script (Some aw) as, Pending), cx))) =
        Inr ((f, r), cx')"
      using Cons.prems(1) None by (auto split: option.splits)
    note one = await_of_call [OF aw, of ?e]
    have arcs1: "arcs cx1 w \<noteq> None" by (rule outside_call_arcs [OF one Cons.prems(2)])
    show ?thesis
    proof (cases aw)
      case None
      then show ?thesis using rest one by simp
    next
      case (Some b)
      then obtain ok cx2 where p: "poll_await w b cx1 = Inr (ok, cx2)"
        and rest2: "(if ok then run_script ?e w as cx2 else Inr ((Script (Some b) as, Pending), cx2)) =
          Inr ((f, r), cx')"
        using rest by auto
      note two = poll_await_call [OF p arcs1, of "drop_fut debug hs" debug hs]
      have "outside_call ?e cx2 cx'"
        using rest2 Cons.IH [OF _ outside_call_arcs [OF two arcs1]] by (cases ok) auto
      then show ?thesis using one two outside_call_trans by blast
    qed
  qed
qed simp

lemma outside_code_poll:
  assumes oc: "outside_code e contents"
    and poll: "\<And>w f cx r cx'. p w f cx = Inr (r, cx') \<Longrightarrow> arcs cx w \<noteq> None \<Longrightarrow> outside_call e cx cx'"
  shows "outside_code (e\<lparr>poll_future := p\<rparr>) contents"
proof (intro outside_code.intro outside_code_axioms.intro)
  show "priority_queue (env_pq (e\<lparr>poll_future := p\<rparr>)) contents"
    using outside_code.axioms(1) [OF oc] by simp
qed (use poll in \<open>auto intro: outside_call_poll outside_code.drop_call [OF oc] outside_code.send_call [OF oc]
    outside_code.drop_sender_call [OF oc] outside_code.create_call [OF oc] outside_code.stop_call [OF oc]
    outside_code.start_call [OF oc] outside_code.drop_simulator_call [OF oc]
    simp: outside_code.set_order_perm [OF oc]\<close>)

lemma set_output_call: "set_output ro v cx = Inr cx' \<Longrightarrow> outside_call e cx cx'"
  by (auto simp: set_output_def Let_def ext_call split: if_splits)

text \<open>A root future whose inner future has just been polled.\<close>

lemma root_poll_call:
  assumes poll: "root_poll (e\<lparr>poll_future := \<lambda>_ _ cx. Inr (polled, cx)\<rparr>) ro w (RootAwaiting f) cx = Inr (v, cx')"
    and oc: "outside_code e contents"
  shows "outside_call e cx cx'"
proof -
  let ?e = "e\<lparr>poll_future := \<lambda>_ _ cx. Inr (polled, cx)\<rparr>"
  have oc': "outside_code ?e contents" by (rule outside_code_poll [OF oc]) auto
  have convert: "outside_call e a b" if "outside_call ?e a b" for a b
    using outside_call_poll [OF that, of "poll_future e"] by simp
  obtain f' r where polled: "polled = (f', r)" by (cases polled)
  show ?thesis
  proof (cases r)
    case (Ready x)
    then obtain cx1 cx2 cx3 u where d: "drop_future e f' cx = Inr cx1" and o: "set_output ro x cx1 = Inr cx2"
      and s: "stop_simulation ?e cx2 = Inr (u, cx3)" and cx': "cx' = release_output ro cx3"
      using poll by (auto simp: polled)
    note convert [OF outside_code.stop_simulation_call [OF oc' s]]
    note this = outside_call_trans [OF this release_call]
    note this = outside_call_trans [OF set_output_call [OF o] this]
    from outside_call_trans [OF outside_code.drop_call [OF oc d] this]
    show ?thesis unfolding cx' .
  qed (use poll polled in simp)
qed

lemma script_poll_call:
  assumes "poll_fut (base_env debug hs) w (Script aw as) cx = Inr (v, cx')" and arcs: "arcs cx w \<noteq> None"
  shows "outside_call (base_env debug hs) cx cx'"
proof (cases aw)
  case None
  then show ?thesis using assms run_script_call by (cases v) simp
next
  case (Some b)
  then obtain ok cx1 where p: "poll_await w b cx = Inr (ok, cx1)"
    and rest: "(if ok then run_script (base_env debug hs) w as cx1
      else Inr ((Script (Some b) as, Pending), cx1)) = Inr (v, cx')"
    using assms(1) by auto
  note one = poll_await_call [OF p arcs, of "drop_fut debug hs" debug hs]
  have "outside_call (base_env debug hs) cx1 cx'"
    using rest run_script_call [OF _ outside_call_arcs [OF one arcs]] by (cases ok; cases v) auto
  then show ?thesis using one outside_call_trans by blast
qed

lemma poll_fut_call:
  assumes "poll_fut (base_env debug hs) w f cx = Inr ((f', r), cx')" and "arcs cx w \<noteq> None"
  shows "outside_call (base_env debug hs) cx cx'"
  using assms
proof (induction "base_env debug hs" w f cx arbitrary: f' r cx' rule: poll_fut.induct)
  case (1 w as cx)
  then show ?case using script_poll_call by blast
next
  case (2 w aw as cx)
  then show ?case using script_poll_call by blast
next
  case (3 w k cx)
  then show ?case by (auto intro: sleep_poll_call)
next
  case (4 w d cx)
  then obtain d' where d: "delivery_poll (base_env debug hs) script_net w d cx = Inr ((d', r), cx')"
    and range: "instant_range d"
    by (auto split: if_splits)
  show ?case by (rule base_net.delivery_poll_call [OF d 4(2)]) (use range in simp)
next
  case (5 w f ds cx)
  then obtain f1 r1 cx1 where p: "poll_fut (base_env debug hs) w f cx = Inr ((f1, r1), cx1)"
    and rest: "(case r1 of
       Pending \<Rightarrow> Inr ((Guarded f1 ds, Pending), cx1)
     | Ready _ \<Rightarrow>
         andThen (drop_future (base_env debug hs) f1 cx1) (\<lambda>cx.
         andThen (run_calls (base_env debug hs) ds cx) (\<lambda>cx. Inr ((Script None [], Ready ()), cx)))) =
      Inr ((f', r), cx')"
    by (auto simp del: call_env_simps)
  note one = 5(1) [OF p 5(3)]
  have "outside_call (base_env debug hs) cx1 cx'"
  proof (cases r1)
    case (Ready x)
    then obtain cx2 where "drop_fut debug hs f1 cx1 = Inr cx2" "run_calls (base_env debug hs) ds cx2 = Inr cx'"
      using rest by auto
    then show ?thesis using outside_call_trans [OF drop_fut_call base_calls] by blast
  qed (use rest in simp)
  then show ?case using one outside_call_trans by blast
next
  case (6 w f cx)
  then obtain f1 r1 cx1 v where p: "poll_fut (base_env debug hs) w f cx = Inr ((f1, r1), cx1)"
    and rest: "root_poll ((base_env debug hs)\<lparr>poll_future := \<lambda>_ _ cx. Inr ((f1, r1), cx)\<rparr>) script_root w
      (RootAwaiting f) cx1 = Inr (v, cx')"
    by fastforce
  show ?case
    using outside_call_trans [OF 6(1) [OF p 6(3)] root_poll_call [OF rest base_outside_code]] .
qed simp

lemma script_env_simps [simp]:
  "debug_build (script_env debug hs) = debug" "env_hasher (script_env debug hs) = hs"
  "env_pq (script_env debug hs) = list_pq" "set_order (script_env debug hs) xs = xs"
  "oneshot_channel (script_env debug hs) = new_channel"
  "oneshot_send (script_env debug hs) c v = close_channel Sent c"
  "oneshot_drop_sender (script_env debug hs) = close_channel Closed"
  "oneshot_poll (script_env debug hs) = poll_channel"
  "poll_future (script_env debug hs) = poll_fut (base_env debug hs)"
  "drop_future (script_env debug hs) = drop_fut debug hs"
  "on_create_node (script_env debug hs) = simulator_create"
  "on_stop_node (script_env debug hs) = simulator_stop"
  "on_start_node (script_env debug hs) = simulator_start"
  "drop_simulator (script_env debug hs) u cx = Inr cx"
  by (simp_all add: script_env_def)

lemma script_outside_code: "outside_code (script_env debug hs) map_of"
proof (intro outside_code.intro outside_code_axioms.intro)
  show "priority_queue (env_pq (script_env debug hs)) map_of"
    by (simp add: list_pq.priority_queue_axioms)
next
  fix p f r and cx cx' :: "'a script_sim"
  assume "poll_future (script_env debug hs) p f cx = Inr (r, cx')" and "arcs cx p \<noteq> None"
  then show "outside_call (script_env debug hs) cx cx'"
    by (cases r) (auto intro: outside_call_script poll_fut_call)
qed (auto intro: outside_call_script drop_fut_call close_channel_call simulator_calls)

interpretation script: outside_code "script_env debug hs" map_of
  for debug :: bool and hs :: "'h hasher"
  by (rule script_outside_code)

section \<open>Runs\<close>

text \<open>
  A new thread, and a simulation on it whose root task is a script. The root future of
  \<open>SimBuilder::run\<close> ends by stopping the simulation.
\<close>

definition script_thread :: "nat script_sim" where
  "script_thread =
     \<lparr>once_set = False, current_node = INIT, pre_next_global_id = 0, sim_time = 0,
      cell = CellNone, event_handler = NoopEventHandler,
      sleep_cells = Map.empty, next_cell = 0, upcoming_events = [], now = 0,
      arcs = Map.empty, queue = None,
      tasks = Map.empty, final_stopped = False, nodes = [],
      simulators_by_type = Map.empty, simulators = [],
      ext = \<lparr>channels = [], handles = [], log = [], inbox_chans = [], sockets = [],
        main_output = \<lparr>ret_value = None, ret_count = 2\<rparr>, rc_count = 0, static_counter = 0\<rparr>\<rparr>"

definition count_hasher :: "nat hasher" where
  "count_hasher = \<lparr>hash_default = 0, hash_event = (\<lambda>_ n. n + 1), hash_finish = of_nat\<rparr>"

definition spawn_root :: "'h script_env \<Rightarrow> action list \<Rightarrow> 'h script_sim \<Rightarrow> panic + 'h script_sim" where
  "spawn_root e as cx =
     andThen (spawn e (Script None (as @ [StopSimulation])) cx) (\<lambda>(h, cx). Inr (add_handle h cx))"

definition start_script :: "nat handler \<Rightarrow> duration \<Rightarrow> action list \<Rightarrow> panic + nat script_sim" where
  "start_script eh t as =
     andThen (install_context (script_env True count_hasher) eh t 0 script_thread)
       (spawn_root (script_env True count_hasher) as)"

definition run_script_simulation ::
  "nat handler \<Rightarrow> duration \<Rightarrow> action list \<Rightarrow>
    (panic + simulation_output \<times> nat script_sim) option" where
  "run_script_simulation eh t as =
     run_simulation (script_env True count_hasher) (spawn_root (script_env True count_hasher) as)
       eh t 0 script_thread"

lemma script_thread_fresh: "fresh_thread script_thread"
  by (simp add: fresh_thread_def script_thread_def)

lemma start_script_loop_start:
  assumes "start_script eh t as = Inr cx" and "t \<le> instant_max"
  shows "loop_start (script_env True count_hasher) t cx"
proof -
  obtain cx0 h cx1 where i: "install_context (script_env True count_hasher) eh t 0 script_thread = Inr cx0"
    and s: "spawn (script_env True count_hasher) (Script None (as @ [StopSimulation])) cx0 = Inr (h, cx1)"
    and cx: "cx = add_handle h cx1"
    using assms(1) by (auto simp: start_script_def spawn_root_def)
  have "outside_call (script_env True count_hasher) cx0 cx"
    using outside_call_trans [OF spawn_call [OF s] handle_call] cx by simp
  then show ?thesis
    using i assms(2) script_thread_fresh unfolding loop_start_def by blast
qed

lemma start_script_inv:
  assumes "start_script eh t as = Inr cx" and "t \<le> instant_max"
  shows "sim_inv map_of None cx" and "exec_inv None cx" and "cell cx = CellFree"
  using script.loop_start_inv(1,2) [OF start_script_loop_start [OF assms]] by (simp_all add: sim_inv_def)

lemma instant_max_ge [simp]: "100 \<le> instant_max"
  by (simp add: instant_max_def)

text \<open>Any property of a start that evaluation decides.\<close>

lemma start_script_obtain:
  assumes "case start_script eh t as of Inr cx \<Rightarrow> P cx | Inl _ \<Rightarrow> False"
  obtains cx where "start_script eh t as = Inr cx" "P cx"
  using assms by (auto split: sum.splits)

definition ends_in_panic :: "panic \<Rightarrow> (panic + 'a) option \<Rightarrow> bool" where
  "ends_in_panic p r = (case r of Some (Inl q) \<Rightarrow> q = p | _ \<Rightarrow> False)"

definition ends_with :: "('a \<Rightarrow> bool) \<Rightarrow> (panic + 'a) option \<Rightarrow> bool" where
  "ends_with P r = (case r of Some (Inr a) \<Rightarrow> P a | _ \<Rightarrow> False)"

lemma ends_in_panic_iff: "ends_in_panic p r \<longleftrightarrow> r = Some (Inl p)"
  by (auto simp: ends_in_panic_def split: option.splits sum.splits)

lemma ends_with_iff: "ends_with P r \<longleftrightarrow> (\<exists>a. r = Some (Inr a) \<and> P a)"
  by (auto simp: ends_with_def split: option.splits sum.splits)

section \<open>States for witnesses\<close>

abbreviation witness_env :: "nat script_env" where
  "witness_env \<equiv> script_env True count_hasher"

text \<open>A simulation at time 100 whose root task has made some calls.\<close>

definition after_calls :: "action list \<Rightarrow> panic + nat script_sim" where
  "after_calls as =
     andThen (start_script NoopEventHandler 100 []) (\<lambda>cx.
     andThen (run_script (base_env True count_hasher) (Id 1) as cx) (\<lambda>(_, cx). Inr cx))"

lemma after_calls_inv:
  assumes "after_calls as = Inr cx"
  shows "sim_inv map_of None cx" and "exec_inv None cx" and "timers_inv map_of cx" and "once_set cx"
proof -
  obtain cx0 f r where s: "start_script NoopEventHandler 100 [] = Inr cx0"
    and c: "run_script (base_env True count_hasher) (Id 1) as cx0 = Inr ((f, r), cx)"
    using assms by (auto simp: after_calls_def)
  note inv = start_script_inv [OF s instant_max_ge]
  have "case start_script NoopEventHandler 100 [] of Inr cx \<Rightarrow> arcs cx (Id 1) \<noteq> None | Inl _ \<Rightarrow> False"
    by code_simp
  then have "arcs cx0 (Id 1) \<noteq> None" using s by simp
  from base.outside_call_inv(1) [OF run_script_call [OF c this] inv(1)]
  show "sim_inv map_of None cx" .
  then show "exec_inv None cx" "timers_inv map_of cx" by (simp_all add: sim_inv_def)
  then show "once_set cx" using exec_invD(1) by blast
qed

lemma after_calls_step:
  assumes "case after_calls as of
      Inr cx \<Rightarrow> Q cx \<and> (case f cx of Inr (a, cx') \<Rightarrow> P a cx' | Inl _ \<Rightarrow> False) | Inl _ \<Rightarrow> False"
  obtains cx a cx' where "after_calls as = Inr cx" "Q cx" "f cx = Inr (a, cx')" "P a cx'"
  using assms by (auto split: sum.splits)

end
