(* ===== verification/Guarantees.thy ===== *)
theory Guarantees
  imports Scripts
begin

text \<open>
  What a simulation guarantees to the program it runs, for every program, channel library and
  priority queue that meet the contract \<open>outside_code\<close>. It lets the program make any sequence of calls
  into the crate; only a range of ids that wraps the id counter, which a build without overflow checks
  does not refuse, is outside of it.
\<close>

section \<open>The main loop\<close>

text \<open>
  C1: A panic that ends the main loop was raised by the event handler or by code of the simulated
  program, called in a state that satisfies the runtime's invariants: none of the \<open>unreachable!\<close>,
  \<open>unwrap\<close>, \<open>assert!\<close> and \<open>debug_assert!\<close> that the loop itself runs into, of the executor and
  the scheduler, fires, whatever the program spawned, woke, aborted, stopped, started or slept for, as
  long as its ranges of ids do not wrap the id counter. A panic that the program raises counts as its own
  even where it comes out of a call that the program made into the crate; those calls are the subject of
  \<open>CallGuarantees\<close>.
\<close>

theorem loop_panics_come_from_outside:
  assumes "outside_code e contents" and "loop_start e start_time cx"
    and "run_current_context e cx = Some (Inl p)"
  shows "handler_panic (env_hasher e) p \<or> outside_panic contents e p"
  using outside_code.run_outcome [OF assms(1) outside_code.loop_start_inv(1,2) [OF assms(1,2)]] assms(3)
  by simp

theorem loop_panics_come_from_outside_witness:
  "handler_panic count_hasher (UserPanic 3) \<or>
   outside_panic map_of (script_env True count_hasher) (UserPanic 3)"
proof -
  have "case start_script NoopEventHandler 100 [Raise 3] of
      Inr cx \<Rightarrow> ends_in_panic (UserPanic 3) (run_current_context (script_env True count_hasher) cx)
    | Inl _ \<Rightarrow> False"
    by code_simp
  then obtain cx where "start_script NoopEventHandler 100 [Raise 3] = Inr cx"
    and run: "run_current_context (script_env True count_hasher) cx = Some (Inl (UserPanic 3))"
    unfolding ends_in_panic_iff by (rule start_script_obtain)
  from start_script_loop_start [OF this(1)]
  have "loop_start (script_env True count_hasher) 100 cx" by (simp add: instant_max_def)
  from loop_panics_come_from_outside [OF script_outside_code this run] show ?thesis by simp
qed

text \<open>
  C12: A main loop that returns has nothing left to do: either the simulation was stopped, or no
  task is ready; and no sleep is pending. The invariants still hold, the simulated time has not
  gone back, and the thread is back on the initial node with its context free.
\<close>

theorem loop_returns_with_nothing_to_do:
  assumes "outside_code e contents" and "loop_start e start_time cx"
    and "run_current_context e cx = Some (Inr cx')"
  shows "(final_stopped cx' \<or> queue cx' = Some []) \<and> contents (upcoming_events cx') = Map.empty \<and>
    sim_inv contents None cx' \<and> start_time \<le> sim_time cx' \<and> cell cx' = CellFree \<and>
    current_node cx' = INIT"
proof -
  note l = outside_code.loop_start_inv [OF assms(1,2)]
  show ?thesis
    using outside_code.run_outcome [OF assms(1) l(1,2)] assms(3) l(2-4) by (simp add: no_earlier_def)
qed

theorem loop_returns_with_nothing_to_do_witness:
  "\<exists>cx'. final_stopped cx' \<and> upcoming_events cx' = [] \<and>
     sim_inv map_of None (cx' :: nat script_sim) \<and> 100 \<le> sim_time cx'"
proof -
  have "case start_script NoopEventHandler 100 [SleepFor 5] of
      Inr cx \<Rightarrow> ends_with (\<lambda>cx'. final_stopped cx' \<and> upcoming_events cx' = [])
        (run_current_context (script_env True count_hasher) cx)
    | Inl _ \<Rightarrow> False"
    by code_simp
  then obtain cx cx' where s: "start_script NoopEventHandler 100 [SleepFor 5] = Inr cx"
    and run: "run_current_context (script_env True count_hasher) cx = Some (Inr cx')"
    and r: "final_stopped cx' \<and> upcoming_events cx' = []"
    unfolding ends_with_iff by (auto split: sum.splits)
  have "loop_start (script_env True count_hasher) 100 cx"
    by (rule start_script_loop_start [OF s instant_max_ge])
  from loop_returns_with_nothing_to_do [OF script_outside_code this run] r show ?thesis by blast
qed

text \<open>
  C2: The executor's invariant holds before every turn of the main loop: the ready queue has no
  duplicates and holds exactly the ready tasks and the finished ones that are to be retired, each
  task that is not being polled and not finished is in its map entry, and a node's task set is
  the set of the tasks that run on it; so does the timers' invariant.
\<close>

theorem invariants_hold_at_every_turn:
  assumes "outside_code e contents" and "loop_start e start_time cx" and "(turn e)\<^sup>*\<^sup>* cx cx'"
  shows "exec_inv None cx' \<and> timers_inv contents cx' \<and> cell cx' = CellFree"
proof -
  note l = outside_code.loop_start_inv [OF assms(1,2)]
  show ?thesis
    using outside_code.turns_inv [OF assms(1,3) l(1,2)] l(2) by (simp add: sim_inv_def no_earlier_def)
qed

theorem invariants_hold_at_every_turn_witness:
  "\<exists>cx cx'. turn (script_env True count_hasher) cx cx' \<and> exec_inv None cx' \<and>
     timers_inv map_of cx'"
proof -
  have "case start_script NoopEventHandler 100 [Log 1] of
      Inr cx \<Rightarrow> (case loop_turn (script_env True count_hasher) cx of Inr (b, _) \<Rightarrow> b | Inl _ \<Rightarrow> False)
    | Inl _ \<Rightarrow> False"
    by code_simp
  then obtain cx cx' where s: "start_script NoopEventHandler 100 [Log 1] = Inr cx"
    and t: "turn (script_env True count_hasher) cx cx'"
    by (auto simp: turn_def split: sum.splits)
  have "loop_start (script_env True count_hasher) 100 cx"
    by (rule start_script_loop_start [OF s instant_max_ge])
  from invariants_hold_at_every_turn [OF script_outside_code this, of cx'] t
  show ?thesis by blast
qed

text \<open>
  C7: Scheduling is first in, first out: the task the loop takes next is the first one in the
  ready queue that is not finished. What was before it in the queue is retired, what was behind
  it stays in order, and the event handler is told which task runs.
\<close>

theorem next_task_is_first_ready:
  assumes "exec_inv None cx" and "queue cx = Some q" and "\<not> final_stopped cx"
    and "next_task e cx = Inr (Some t, cx')"
  shows "\<exists>finished q'. q = finished @ tk_shared t # q' \<and> queue cx' = Some q' \<and> runnable cx t \<and>
    (\<forall>i \<in> set finished. retirable cx i) \<and> exec_inv (Some (tk_shared t)) cx' \<and>
    handle_event (env_hasher e) (TaskRun (tk_shared t)) (event_handler cx) = Inr (event_handler cx')"
proof -
  have "next_ready e q cx = Inr (Some t, cx')"
    using assms(2-4) by (simp add: next_task_def)
  then show ?thesis
    using next_ready_outcome [OF assms(1,2), of e] by auto
qed

theorem next_task_is_first_ready_witness:
  "\<exists>cx t cx'. next_task (script_env True count_hasher) cx = Inr (Some t, cx') \<and>
     tk_shared t = Id 1 \<and> runnable cx t \<and> exec_inv (Some (Id 1)) cx'"
proof -
  have "case start_script NoopEventHandler 100 [Log 1] of
      Inr cx \<Rightarrow> queue cx = Some [Id 1] \<and> \<not> final_stopped cx \<and>
        (case next_task (script_env True count_hasher) cx of
           Inr (Some t, _) \<Rightarrow> tk_shared t = Id 1 | _ \<Rightarrow> False)
    | Inl _ \<Rightarrow> False"
    by code_simp
  then obtain cx t cx' where s: "start_script NoopEventHandler 100 [Log 1] = Inr cx"
    and q: "queue cx = Some [Id 1]" "\<not> final_stopped cx"
    and n: "next_task (script_env True count_hasher) cx = Inr (Some t, cx')" and t: "tk_shared t = Id 1"
    by (auto split: sum.splits option.splits)
  from next_task_is_first_ready [OF start_script_inv(2) [OF s instant_max_ge] q n] n t show ?thesis by auto
qed

section \<open>Aborting\<close>

text \<open>
  Aborting a task that is ready or waiting takes its future out of the executor, marks the
  task aborted and leaves it in the ready queue once, so that the loop retires it; aborting a
  task that was aborted or has completed, whether or not the loop has retired it, changes nothing.
\<close>

lemma abort_takes_the_future:
  assumes "exec_inv run cx" and "arcs cx i = Some sh"
  shows "abort_local i cx =
    (if sh_state sh \<in> {TASK_READY, TASK_WAITING}
     then Inr (te_task (the (tasks cx i)),
       take_task i (the (tasks cx i)) (store_state i TASK_ABORTED_READY cx)
         \<lparr>queue := Some (if sh_state sh = TASK_WAITING then ready cx @ [i] else ready cx)\<rparr>)
     else Inr (None, cx))"
proof -
  obtain q where q: "queue cx = Some q" using exec_invD(2) [OF assms(1)] by blast
  show ?thesis
  proof (cases "tasks cx i")
    case None
    then show ?thesis
      using task_ok_no_entry(3) [OF exec_invD(4) [OF assms(1)] None assms(2)] q
      by (auto simp: abort_local_def)
  next
    case (Some te)
    obtain sh' where "te_shared te = i" "arcs cx i = Some sh'" "entry_ok run (ready cx) i te (sh_state sh')"
      by (rule task_ok_entry [OF exec_invD(4) [OF assms(1)] Some])
    then have te: "te_shared te = i" and "entry_ok run (ready cx) i te (sh_state sh)"
      using assms(2) by auto
    note st = entry_ok_states [OF this(2)]
    have "take_task i te (store_state i TASK_ABORTED_READY cx)\<lparr>queue := Some q\<rparr> =
      take_task i te (store_state i TASK_ABORTED_READY cx)"
      by (rule sim.equality) (simp_all add: q)
    then show ?thesis
      using q Some te st assms(2) by (auto simp: abort_local_def take_task_def store_state_def)
  qed
qed

lemma abort_takes_the_future_example:
  "\<exists>cx. exec_inv None cx \<and> abort_local (Id 1) cx =
     Inr (te_task (the (tasks cx (Id 1))),
       take_task (Id 1) (the (tasks cx (Id 1))) (store_state (Id 1) TASK_ABORTED_READY (cx :: nat script_sim))
         \<lparr>queue := Some (ready cx)\<rparr>)"
proof -
  have "case start_script NoopEventHandler 100 [Log 1] of
      Inr cx \<Rightarrow> arcs cx (Id 1) = Some \<lparr>sh_state = TASK_READY, sh_id = Id 1, sh_node = INIT\<rparr>
    | Inl _ \<Rightarrow> False"
    by code_simp
  then obtain cx where s: "start_script NoopEventHandler 100 [Log 1] = Inr cx"
    and a: "arcs cx (Id 1) = Some \<lparr>sh_state = TASK_READY, sh_id = Id 1, sh_node = INIT\<rparr>"
    by (rule start_script_obtain)
  note inv = start_script_inv(2) [OF s instant_max_ge]
  from abort_takes_the_future [OF inv a] inv show ?thesis by auto
qed

text \<open>
  C4: \<open>AbortHandle::abort\<close> ends its task for good: when it returns, the task is aborted or
  complete and its map entry, if it still has one, holds no future; and so it stays whatever
  outside code does afterwards.
\<close>

theorem abort_ends_the_task:
  assumes oc: "outside_code e contents" and inv: "sim_inv contents run cx"
    and "abort_inner e p cx = Inr (u, cx1)" and out: "outside_call e cx1 cx'"
  shows "gone cx' p \<and> (\<forall>te. tasks cx' p = Some te \<longrightarrow> te_task te = None)"
proof -
  have "gone cx1 p" by (rule outside_code.abort_inner_gone [OF oc inv assms(3)])
  have "sim_inv contents run cx1"
    using outside_code.outside_call_inv(1) [OF oc outside_code.abort_inner_call [OF oc assms(3)] inv] .
  note o = outside_code.outside_call_inv [OF oc out this]
  have "gone cx' p" using later_gone [OF o(2) \<open>gone cx1 p\<close>] .
  then show ?thesis
    using gone_no_future [of run cx' p] o(1) by (auto simp: sim_inv_def)
qed

text \<open>Scripts before the first turn, and what a function of the crate returns on them.\<close>

lemma start_script_step:
  assumes "case start_script NoopEventHandler 100 as of
      Inr cx \<Rightarrow> Q cx \<and> (case f cx of Inr (a, cx') \<Rightarrow> P a cx' | Inl _ \<Rightarrow> False) | Inl _ \<Rightarrow> False"
  obtains cx a cx' where "start_script NoopEventHandler 100 as = Inr cx" "sim_inv map_of None cx"
    "exec_inv None cx" "cell cx = CellFree" "Q cx" "f cx = Inr (a, cx')" "P a cx'"
  using assms start_script_inv [OF _ instant_max_ge, of NoopEventHandler as]
  by (auto split: sum.splits)

theorem abort_ends_the_task_witness:
  "\<exists>cx u cx'. abort_inner (script_env True count_hasher) (Id 1) cx = Inr (u, cx') \<and> gone cx' (Id 1)"
proof -
  have "case start_script NoopEventHandler 100 [Log 1] of
      Inr cx \<Rightarrow> True \<and>
        (case abort_inner (script_env True count_hasher) (Id 1) cx of Inr (a, cx') \<Rightarrow> True | Inl _ \<Rightarrow> False)
    | Inl _ \<Rightarrow> False"
    by code_simp
  then obtain cx u cx' where inv: "sim_inv map_of None cx"
    and a: "abort_inner (script_env True count_hasher) (Id 1) cx = Inr (u, cx')"
    by (rule start_script_step)
  from abort_ends_the_task [OF script_outside_code inv a outside_call_refl] a show ?thesis by blast
qed

text \<open>
  C3: A task that was aborted or has completed is never polled again: no later turn of the main
  loop takes it.
\<close>

theorem finished_task_is_never_polled:
  assumes oc: "outside_code e contents" and inv: "sim_inv contents None cx" and free: "cell cx = CellFree"
    and gone: "gone cx p" and turns: "(turn e)\<^sup>*\<^sup>* cx cx'"
    and "next_task e cx' = Inr (Some t, cx'')"
  shows "tk_shared t \<noteq> p"
proof -
  note i = outside_code.turns_inv [OF oc turns inv free]
  have ei: "exec_inv None cx'" and g: "gone cx' p" using i gone by (simp_all add: sim_inv_def no_earlier_def)
  obtain q where q: "queue cx' = Some q" using exec_invD(2) [OF ei] by blast
  have "next_ready e q cx' = Inr (Some t, cx'')"
    using assms(6) q by (auto simp: next_task_def split: if_splits)
  then have "runnable cx' t" using next_ready_outcome [OF ei q, of e] by auto
  then show ?thesis using g by (auto simp: runnable_def gone_def)
qed

theorem finished_task_is_never_polled_witness:
  "\<exists>cx t cx'. gone cx (Id 1) \<and> next_task (script_env True count_hasher) cx = Inr (Some t, cx') \<and>
     tk_shared t \<noteq> Id 1"
proof -
  let ?e = "script_env True count_hasher"
  let ?f = "\<lambda>cx. andThen (spawn ?e (Script None [Log 2]) cx) (\<lambda>(_, cx). abort_inner ?e (Id 1) cx)"
  have "case start_script NoopEventHandler 100 [Log 1] of
      Inr cx \<Rightarrow> True \<and> (case ?f cx of
        Inr (a, cx') \<Rightarrow> (case next_task ?e cx' of Inr (Some _, _) \<Rightarrow> True | _ \<Rightarrow> False)
      | Inl _ \<Rightarrow> False)
    | Inl _ \<Rightarrow> False"
    by code_simp
  then obtain cx a cx' where inv: "sim_inv map_of None cx" and free: "cell cx = CellFree"
    and f: "?f cx = Inr (a, cx')"
    and n: "case next_task ?e cx' of Inr (Some _, _) \<Rightarrow> True | _ \<Rightarrow> False"
    by (rule start_script_step)
  obtain h cx1 where s: "spawn ?e (Script None [Log 2]) cx = Inr (h, cx1)"
    and ab: "abort_inner ?e (Id 1) cx1 = Inr (a, cx')"
    using f by auto
  note o1 = script.outside_call_inv [OF spawn_call [OF s] inv]
  note o2 = script.outside_call_inv [OF script.abort_inner_call [OF ab] o1(1)]
  have g: "gone cx' (Id 1)" by (rule script.abort_inner_gone [OF o1(1) ab])
  have free': "cell cx' = CellFree" using laterD(1) [OF o1(2)] laterD(1) [OF o2(2)] free by simp
  obtain t c where n': "next_task ?e cx' = Inr (Some t, c)"
    using n by (auto split: sum.splits option.splits)
  from finished_task_is_never_polled [OF script_outside_code o2(1) free' g rtranclp.rtrancl_refl n'] g n'
  show ?thesis by blast
qed

section \<open>Stopping\<close>

text \<open>
  C5: Stopping a running node ends every task that ran on it: when \<open>stop_node\<close> returns, each is
  aborted or complete and its future is out of the executor, whatever the destructors and the
  simulators that were called on the way did, spawning new tasks included.
\<close>

theorem stop_node_ends_its_tasks:
  assumes oc: "outside_code e contents" and inv: "sim_inv contents run cx"
    and stop: "stop_node e n is_final cx = Inr (u, cx')"
    and "run_level (nodes cx ! to_index n) = Running" and "i \<in> set (node_tasks (nodes cx ! to_index n))"
  shows "gone cx' i \<and> (\<forall>te. tasks cx' i = Some te \<longrightarrow> te_task te = None)"
proof -
  have "gone cx' i" by (rule outside_code.stop_node_gone [OF oc inv stop assms(4,5)])
  moreover have "exec_inv run cx'"
    using outside_code.outside_call_inv(1) [OF oc outside_code.stop_node_call [OF oc stop] inv]
    by (simp add: sim_inv_def)
  ultimately show ?thesis using gone_no_future by blast
qed

theorem stop_node_ends_its_tasks_witness:
  "\<exists>cx u cx'. stop_node (script_env True count_hasher) INIT False cx = Inr (u, cx') \<and>
     Id 1 \<in> set (node_tasks (nodes cx ! to_index INIT)) \<and> gone cx' (Id 1)"
proof -
  let ?e = "script_env True count_hasher"
  have "case start_script NoopEventHandler 100 [Log 1] of
      Inr cx \<Rightarrow> (run_level (nodes cx ! to_index INIT) = Running \<and>
          Id 1 \<in> set (node_tasks (nodes cx ! to_index INIT))) \<and>
        (case stop_node ?e INIT False cx of Inr (a, cx') \<Rightarrow> True | Inl _ \<Rightarrow> False)
    | Inl _ \<Rightarrow> False"
    by code_simp
  then obtain cx u cx' where inv: "sim_inv map_of None cx"
    and n: "run_level (nodes cx ! to_index INIT) = Running \<and> Id 1 \<in> set (node_tasks (nodes cx ! to_index INIT))"
    and s: "stop_node ?e INIT False cx = Inr (u, cx')"
    by (rule start_script_step)
  from stop_node_ends_its_tasks [OF script_outside_code inv s conjunct1 [OF n] conjunct2 [OF n]] n s
  show ?thesis by blast
qed

text \<open>
  C6: When \<open>stop_simulation\<close> returns, every node is in its final stop, no node was added on the
  way, and the main loop takes no task any more; the final stops and the number of nodes stay so
  whatever outside code does.
\<close>

theorem stop_simulation_is_final:
  assumes oc: "outside_code e contents" and inv: "sim_inv contents run cx"
    and stop: "stop_simulation e cx = Inr (u, cx1)" and out: "outside_call e cx1 cx'"
  shows "length (nodes cx') = length (nodes cx) \<and>
    (\<forall>k < length (nodes cx'). run_level (nodes cx' ! k) = FinalStopped) \<and>
    next_task e cx' = Inr (None, cx')"
proof -
  note lev = outside_code.stop_simulation_levels [OF oc inv stop]
  have "sim_inv contents run cx1"
    using outside_code.outside_call_inv(1) [OF oc outside_code.stop_simulation_call [OF oc stop] inv] .
  then have l: "later cx1 cx'" by (rule outside_code.outside_call_inv(2) [OF oc out])
  have len: "length (nodes cx') = length (nodes cx1)" using laterD(11) [OF l lev(1)] .
  have "run_level (nodes cx' ! k) = FinalStopped" if "k < length (nodes cx')" for k
    using laterD(10) [OF l, of k] lev(3) [of k] that len by simp
  then show ?thesis
    using len lev(2) laterD(5) [OF l lev(1)] by (simp add: next_task_def)
qed

theorem stop_simulation_is_final_witness:
  "\<exists>cx u cx'. stop_simulation (script_env True count_hasher) cx = Inr (u, cx') \<and>
     length (nodes cx') = length (nodes cx) \<and> next_task (script_env True count_hasher) cx' = Inr (None, cx')"
proof -
  have "case start_script NoopEventHandler 100 [Log 1] of
      Inr cx \<Rightarrow> True \<and>
        (case stop_simulation (script_env True count_hasher) cx of Inr (a, cx') \<Rightarrow> True | Inl _ \<Rightarrow> False)
    | Inl _ \<Rightarrow> False"
    by code_simp
  then obtain cx u cx' where inv: "sim_inv map_of None cx"
    and s: "stop_simulation (script_env True count_hasher) cx = Inr (u, cx')"
    by (rule start_script_step)
  from stop_simulation_is_final [OF script_outside_code inv s outside_call_refl] s show ?thesis by blast
qed

section \<open>Beginning and end of a simulation\<close>

text \<open>
  C15: Installing the context on a fresh thread succeeds and establishes the invariants, with the
  clock at the start time, one running node, an empty ready queue and ids starting at one.
\<close>

theorem install_establishes_invariants:
  assumes "outside_code e contents" and "fresh_thread thread" and "start_time \<le> instant_max"
  shows "\<exists>cx. install_context e eh start_time real_clock thread = Inr cx \<and>
    sim_inv contents None cx \<and> sim_time cx = start_time \<and> current_node cx = INIT \<and>
    queue cx = Some [] \<and> nodes cx = [\<lparr>run_level = Running, node_tasks = []\<rparr>] \<and>
    event_handler cx = eh"
  by (rule outside_code.install_inv [OF assms]) blast

theorem install_establishes_invariants_witness:
  "\<exists>cx. install_context (script_env True count_hasher) NoopEventHandler 100 0 script_thread = Inr cx \<and>
     sim_inv map_of None cx \<and> sim_time cx = 100"
  using install_establishes_invariants [OF script_outside_code script_thread_fresh instant_max_ge] by blast

text \<open>
  After a main loop that returned, the checks with which \<open>ContextInstallGuard::destroy\<close> begins
  hold, in debug builds too: it goes on to stop the simulation, and its output is the simulated
  time at the end of the loop, whatever time the destructors may see.
\<close>

lemma destroy_checks_hold:
  assumes oc: "outside_code e contents" and start: "loop_start e start_time cx"
    and run: "run_current_context e cx = Some (Inr cx')"
  shows "begin_destroy e panicking cx' =
    andThen (stop_simulation e cx') (\<lambda>(_, c). Inr (Some (sim_time cx'), c))"
  by (rule outside_code.destroy_checks [OF oc outside_code.loop_start_inv(1-3) [OF oc start] run])

lemma destroy_checks_hold_example:
  "\<exists>cx'. begin_destroy (script_env True count_hasher) False cx' =
     andThen (stop_simulation (script_env True count_hasher) cx') (\<lambda>(_, c). Inr (Some (sim_time cx'), c))"
proof -
  have "case start_script NoopEventHandler 100 [Log 1] of
      Inr cx \<Rightarrow> ends_with (\<lambda>_. True) (run_current_context (script_env True count_hasher) cx)
    | Inl _ \<Rightarrow> False"
    by code_simp
  then obtain cx cx' where s: "start_script NoopEventHandler 100 [Log 1] = Inr cx"
    and run: "run_current_context (script_env True count_hasher) cx = Some (Inr cx')"
    unfolding ends_with_iff by (auto split: sum.splits)
  from destroy_checks_hold [OF script_outside_code start_script_loop_start [OF s instant_max_ge] run]
  show ?thesis by blast
qed

end
