(* ===== verification/NetGuarantees.thy ===== *)
theory NetGuarantees
  imports Scripts
begin

text \<open>
  What the network guarantees, for every program and every channel library that behaves as
  documented: its inboxes are bounded first-in-first-out queues, and a packet sent over perfect
  connectivity arrives after the latency, not before, and once.
\<close>

section \<open>States with a network, for the witnesses\<close>

abbreviation "witness_net \<equiv> (script_net :: nat script_net_ops)"

definition key7 :: inbox_key where
  "key7 = (Addr INIT (Id 7), ''P'')"

text \<open>The network of a state, for evaluation: the send function and the keys with their contents.\<close>

definition net_is ::
  "(inbox_key \<times> (nat, nat) message list) list \<Rightarrow> nat script_sim \<Rightarrow> bool" where
  "net_is qs cx =
     (case the_net witness_net cx of
        None \<Rightarrow> False
      | Some net \<Rightarrow>
          map fst (inboxes net) = map fst qs \<and> map snd (inboxes net) = [0..<length qs] \<and>
          map (script_buffer (ext cx)) [0..<length qs] = map Some (map snd qs))"

lemma net_is_empty:
  assumes "net_is [] cx"
  obtains net where "the_net witness_net cx = Some net" "net_ok script_buffer net (ext cx)" "inboxes net = []"
  using assms by (auto simp: net_is_def net_ok_def split: option.splits)

lemma net_is_one:
  assumes "net_is [(k, b)] cx" and "length b \<le> INBOX_CAPACITY"
  obtains net where "the_net witness_net cx = Some net" "net_ok script_buffer net (ext cx)"
    "inboxes net = [(k, 0)]" "net_queues script_buffer net (ext cx) = [k \<mapsto> b]"
  using assms by (auto simp: net_is_def net_ok_def net_queues_def fun_eq_iff split: option.splits)

lemma witness_channels: "inbox_channels witness_env witness_net script_buffer"
  by (rule script_inbox_channels) simp

section \<open>The inboxes\<close>

text \<open>
  C22: Opening a socket succeeds exactly when no socket of the current node has its port and type;
  it then has an empty inbox of its own, and the other inboxes keep their messages. When the
  address is in use, nothing changes.
\<close>

theorem socket_open_refines:
  assumes "inbox_channels e n buffer" and "the_net n cx = Some net" and "net_ok buffer net (ext cx)"
    and "socket_open n ty port cx = Inr (r, cx')"
  shows "\<exists>net'. the_net n cx' = Some net' \<and> net_ok buffer net' (ext cx') \<and>
    (case r of
       Inl _ \<Rightarrow> net' = net \<and> ext cx' = ext cx \<and>
         spec_open (Addr (current_node cx) port, ty) (net_queues buffer net (ext cx)) = None
     | Inr s \<Rightarrow> socket_ty s = ty \<and> local_addr s = Addr (current_node cx) port \<and>
         map_of (inboxes net') (Addr (current_node cx) port, ty) = Some (inbox s) \<and>
         spec_open (Addr (current_node cx) port, ty) (net_queues buffer net (ext cx)) =
           Some (net_queues buffer net' (ext cx')))"
  by (rule inbox_channels.socket_open_queues [OF assms(1,4,2,3)]) blast

theorem socket_open_refines_witness:
  "\<exists>cx s cx' net'. socket_open witness_net ''P'' (Id 7) cx = Inr (Inr s, cx') \<and>
     the_net witness_net cx' = Some net' \<and>
     spec_open key7 Map.empty = Some (net_queues script_buffer net' (ext cx'))"
proof -
  have "case after_calls [AddNet 20] of
      Inr cx \<Rightarrow> (net_is [] cx \<and> current_node cx = INIT) \<and>
        (case socket_open witness_net ''P'' (Id 7) cx of
           Inr (r, _) \<Rightarrow> (case r of Inr _ \<Rightarrow> True | Inl _ \<Rightarrow> False) | Inl _ \<Rightarrow> False)
    | Inl _ \<Rightarrow> False"
    by code_simp
  then obtain cx r cx' where net: "net_is [] cx" and node: "current_node cx = INIT"
    and o: "socket_open witness_net ''P'' (Id 7) cx = Inr (r, cx')"
    and r: "case r of Inr _ \<Rightarrow> True | Inl _ \<Rightarrow> False"
    by (rule after_calls_step) blast
  obtain net where n: "the_net witness_net cx = Some net" "net_ok script_buffer net (ext cx)"
    "inboxes net = []"
    by (rule net_is_empty [OF net])
  have "net_queues script_buffer net (ext cx) = Map.empty" using n(3) by (simp add: net_queues_def fun_eq_iff)
  then show ?thesis
    using socket_open_refines [OF witness_channels n(1,2) o] o r node
    by (cases r) (auto simp: key7_def)
qed

text \<open>
  Dropping a socket removes its inbox, with what was in it, and leaves the others alone.
\<close>

lemma socket_drop_refines:
  assumes "inbox_channels e n buffer" and "the_net n cx = Some net" and "net_ok buffer net (ext cx)"
    and "socket_drop e n s cx = Inr (u, cx')"
  shows "\<exists>net'. the_net n cx' = Some net' \<and> net_ok buffer net' (ext cx') \<and>
    net_queues buffer net' (ext cx') =
      spec_close (local_addr s, socket_ty s) (net_queues buffer net (ext cx))"
  by (rule inbox_channels.socket_drop_queues [OF assms(1,4,2,3)]) blast

lemma socket_drop_refines_example:
  "\<exists>cx s cx' net'. socket_drop witness_env witness_net s cx = Inr ((), cx') \<and>
     the_net witness_net cx' = Some net' \<and> net_queues script_buffer net' (ext cx') = Map.empty"
proof -
  let ?s = "\<lparr>socket_ty = ''P'', inbox = 0, local_addr = Addr INIT (Id 7)\<rparr>"
  have "case after_calls [AddNet 20, OpenSocket 7] of
      Inr cx \<Rightarrow> net_is [(key7, [])] cx \<and>
        (case socket_drop witness_env witness_net ?s cx of Inr (a, cx') \<Rightarrow> True | Inl _ \<Rightarrow> False)
    | Inl _ \<Rightarrow> False"
    by code_simp
  then obtain cx u cx' where net: "net_is [(key7, [])] cx"
    and d: "socket_drop witness_env witness_net ?s cx = Inr (u, cx')"
    by (rule after_calls_step)
  obtain net where n: "the_net witness_net cx = Some net" "net_ok script_buffer net (ext cx)"
    "net_queues script_buffer net (ext cx) = [key7 \<mapsto> []]"
    by (rule net_is_one [OF net]) auto
  from socket_drop_refines [OF witness_channels n(1,2) d] n(3) d
  show ?thesis by (auto simp: spec_close_def key7_def)
qed

text \<open>
  C23: Restarting a node empties every inbox of the node and no other, whatever the iteration order
  of the map, and the loop that empties an inbox ends: a panic in it is one of the channel library.
\<close>

theorem node_restart_refines:
  assumes "inbox_channels e n buffer" and "net_ok buffer net (ext cx)" and "once_set cx"
  shows "case net_start_node n net cx of
      Inr (net', cx') \<Rightarrow> net' = net \<and> net_ok buffer net (ext cx') \<and>
        net_queues buffer net (ext cx') =
          spec_restart (current_node cx) (net_queues buffer net (ext cx))
    | Inl p \<Rightarrow> \<exists>c cx1. chan_try_receive n c cx1 = Inl p"
  using inbox_channels.net_start_node_queues [OF assms(1) _ assms(2)]
    inbox_channels.net_start_node_panics [OF assms(1) _ assms(2,3)]
  by (simp split: sum.split prod.split)

theorem node_restart_refines_witness:
  "\<exists>(net :: unit net) cx cx'. net_queues script_buffer net (ext cx) = [key7 \<mapsto> [Inl 3]] \<and>
     net_start_node witness_net net cx = Inr (net, cx') \<and>
     net_queues script_buffer net (ext cx') = [key7 \<mapsto> []]"
proof -
  let ?f = "deliver witness_net key7 (Inl 3)"
  have "case after_calls [AddNet 20, OpenSocket 7] of
      Inr cx \<Rightarrow> once_set cx \<and> (case ?f cx of
        Inr (a, cx') \<Rightarrow> net_is [(key7, [Inl 3])] cx' \<and> once_set cx' \<and> current_node cx' = INIT \<and>
          (case the_net witness_net cx' of None \<Rightarrow> False | Some net \<Rightarrow>
             (case net_start_node witness_net net cx' of Inr _ \<Rightarrow> True | Inl _ \<Rightarrow> False))
      | Inl _ \<Rightarrow> False)
    | Inl _ \<Rightarrow> False"
    by code_simp
  then obtain cx0 u cx where s: "net_is [(key7, [Inl 3])] cx" "once_set cx" "current_node cx = INIT"
    "case the_net witness_net cx of None \<Rightarrow> False | Some net \<Rightarrow>
       (case net_start_node witness_net net cx of Inr _ \<Rightarrow> True | Inl _ \<Rightarrow> False)"
    by (rule after_calls_step) blast
  obtain net where n: "the_net witness_net cx = Some net" "net_ok script_buffer net (ext cx)"
    "net_queues script_buffer net (ext cx) = [key7 \<mapsto> [Inl 3]]"
    by (rule net_is_one [OF s(1)]) (auto simp: INBOX_CAPACITY_def)
  from node_restart_refines [OF witness_channels n(2) s(2)] s(3,4) n(1,3)
  show ?thesis
    by (auto simp: spec_restart_def key7_def fun_eq_iff split: sum.splits prod.splits intro!: exI)
qed

text \<open>
  C24: Receiving takes the oldest message of the socket's inbox, and waits when there is none. A
  packet comes with the address it was sent from.
\<close>

theorem receive_takes_the_oldest:
  assumes ch: "inbox_channels e n buffer" and ok: "net_ok buffer net (ext cx)"
    and c: "map_of (inboxes net) k = Some c" and b: "net_queues buffer net (ext cx) k = Some b"
    and r: "socket_receive_poll n ty c w cx = Inr (r, cx')"
  shows "net_ok buffer net (ext cx') \<and>
    net_queues buffer net (ext cx') = (net_queues buffer net (ext cx))(k \<mapsto> tl b) \<and>
    (case b of
       [] \<Rightarrow> r = Pending
     | Inl er # _ \<Rightarrow> r = Ready (Inl er)
     | Inr m # _ \<Rightarrow> packet_concrete (packets n) (packet m) = ty \<and>
         (\<exists>p. r = Ready (Inr (p, hd_src (header m))) \<and>
           (p = packet m \<or> clone_packet (packets n) (packet m) = Inr p)))"
proof -
  have buf: "buffer (ext cx) c = Some b" using b net_queues_key [OF c, of buffer] by simp
  then have len: "length (tl b) \<le> INBOX_CAPACITY" using net_ok_buffer [OF ok c] by auto
  obtain q cx1 where q: "chan_poll n c w cx = Inr (q, cx1)"
    and rest: "(case q of Pending \<Rightarrow> Inr (Pending, cx1)
      | Ready msg \<Rightarrow> andThen (unwrap msg) (\<lambda>msg.
          andThen (unwrap_message n ty msg cx1) (\<lambda>out. Inr (Ready out, cx1)))) = Inr (r, cx')"
    using r by (auto simp: socket_receive_poll_def)
  note p = inbox_channels.poll_chan [OF ch q buf]
  have cx': "cx' = cx1" using rest by (cases q) auto
  note ch = net_queues_change [OF ok c conjunct1 [OF p] len]
  show ?thesis
  proof (intro conjI)
    show "net_ok buffer net (ext cx')" using ch(2) cx' by simp
    show "net_queues buffer net (ext cx') = (net_queues buffer net (ext cx))(k \<mapsto> tl b)"
      using ch(1) cx' by simp
    show "case b of [] \<Rightarrow> r = Pending | Inl er # _ \<Rightarrow> r = Ready (Inl er)
     | Inr m # _ \<Rightarrow> packet_concrete (packets n) (packet m) = ty \<and>
         (\<exists>p. r = Ready (Inr (p, hd_src (header m))) \<and>
           (p = packet m \<or> clone_packet (packets n) (packet m) = Inr p))"
      using rest conjunct2 [OF p]
      by (auto simp: unwrap_message_def split: list.splits sum.splits if_splits)
  qed
qed

theorem receive_takes_the_oldest_witness:
  "\<exists>(net :: unit net) cx cx'. net_queues script_buffer net (ext cx) = [key7 \<mapsto> [Inl 3, Inl 4]] \<and>
     socket_receive_poll witness_net ''P'' 0 (Id 1) cx = Inr (Ready (Inl 3), cx') \<and>
     net_queues script_buffer net (ext cx') = [key7 \<mapsto> [Inl 4]]"
proof -
  let ?f = "\<lambda>cx. andThen (deliver witness_net key7 (Inl 3) cx) (\<lambda>(_, cx). deliver witness_net key7 (Inl 4) cx)"
  have "case after_calls [AddNet 20, OpenSocket 7] of
      Inr cx \<Rightarrow> True \<and> (case ?f cx of
        Inr (a, cx') \<Rightarrow> net_is [(key7, [Inl 3, Inl 4])] cx' \<and>
          (case socket_receive_poll witness_net ''P'' 0 (Id 1) cx' of Inr _ \<Rightarrow> True | Inl _ \<Rightarrow> False)
      | Inl _ \<Rightarrow> False)
    | Inl _ \<Rightarrow> False"
    by code_simp
  then obtain cx0 u cx r where s: "net_is [(key7, [Inl 3, Inl 4])] cx"
    and "socket_receive_poll witness_net ''P'' 0 (Id 1) cx = Inr r"
    by (rule after_calls_step) (auto split: sum.splits)
  then obtain p cx' where r: "socket_receive_poll witness_net ''P'' 0 (Id 1) cx = Inr (p, cx')"
    by (cases r) auto
  obtain net where n: "net_ok script_buffer net (ext cx)" "inboxes net = [(key7, 0)]"
    "net_queues script_buffer net (ext cx) = [key7 \<mapsto> [Inl 3, Inl 4]]"
    "the_net witness_net cx = Some net"
    by (rule net_is_one [OF s]) (auto simp: INBOX_CAPACITY_def)
  have "map_of (inboxes net) key7 = Some 0"
    "net_queues script_buffer net (ext cx) key7 = Some [Inl 3, Inl 4]"
    using n by simp_all
  from receive_takes_the_oldest [OF witness_channels n(1) this r] n(3) r show ?thesis
    by (intro exI [of _ net] exI [of _ cx] exI [of _ cx']) simp
qed

section \<open>Delivery\<close>

text \<open>
  C25: Over perfect connectivity, sending a packet from the current node succeeds at once and spawns
  one task, on the initial node: the delivery of the packet to its destination at the present time
  plus the latency. Nothing is delivered yet.
\<close>

theorem perfect_connectivity_delivers_later:
  assumes "send_function net = PerfectConnectivity latency" and "exec_inv run cx"
    and "send_wrapped e n msg net cx = Inr ((out, net'), cx')"
  shows "addr_node (hd_src (header msg)) = current_node cx \<and> out = Immediate (Inr ()) \<and> net' = net \<and>
    (\<exists>i chan. arcs cx i = None \<and> queue cx' = Some (ready cx @ [i]) \<and>
       arcs cx' i = Some \<lparr>sh_state = TASK_READY, sh_id = i, sh_node = INIT\<rparr> \<and>
       tasks cx' = (tasks cx)(i \<mapsto> \<lparr>te_shared = i, te_task = Some \<lparr>tk_shared = i, tk_snd = Some chan,
         tk_fut = delivery_future n
           (Enqueued (sim_time cx + latency) (hd_dst (header msg), hd_ty (header msg)) (Inr msg))\<rparr>\<rparr>))"
proof -
  have once: "once_set cx" using exec_invD(1) [OF assms(2)] .
  have src: "addr_node (hd_src (header msg)) = current_node cx"
    and out: "out = Immediate (Inr ())" "net' = net"
    and enq: "enqueue_packet e n (sim_time cx + latency) msg cx = Inr cx'"
    using assms(1,3) once
    by (auto simp: send_wrapped_def cx_current_node_def instant_add_def instant_now_def split: if_splits)
  let ?d = "Enqueued (sim_time cx + latency) (hd_dst (header msg), hd_ty (header msg)) (Inr msg)"
  obtain h where "spawn_task_on_node e INIT (delivery_future n ?d) cx = Inr (h, cx')"
    using enq by (auto simp: enqueue_packet_def enqueue_def)
  then show ?thesis
  proof (cases rule: spawn_task_effect)
    case (1 chan x i eh q)
    have "unat (pre_next_global_id cx) < unat (id_val i)" using 1(6) by simp
    note fresh = fresh_task [OF assms(2) this]
    show ?thesis
      using src out fresh(1) 1(2) by (intro conjI exI [of _ i] exI [of _ chan]) (simp_all add: 1(9))
  qed
qed

theorem perfect_connectivity_delivers_later_witness:
  "\<exists>(cx :: nat script_sim) msg i. addr_node (hd_src (header msg)) = current_node cx \<and>
     (\<exists>chan. tasks cx i = Some \<lparr>te_shared = i, te_task = Some \<lparr>tk_shared = i, tk_snd = Some chan,
       tk_fut = Deliver (Enqueued 120 key7 (Inr msg))\<rparr>\<rparr>)"
proof -
  let ?msg = "new_packet (packets witness_net) (Addr INIT (Id 9)) (Addr INIT (Id 7)) 5"
  let ?net = "new_net (PerfectConnectivity 20) :: unit net"
  have "case after_calls [AddNet 20] of
      Inr cx \<Rightarrow> sim_time cx = 100 \<and> current_node cx = INIT \<and>
        (case send_wrapped witness_env witness_net ?msg ?net cx of
           Inr ((out, net'), cx') \<Rightarrow> current_node cx' = INIT | Inl _ \<Rightarrow> False)
    | Inl _ \<Rightarrow> False"
    by code_simp
  then obtain cx out net' cx' where a: "after_calls [AddNet 20] = Inr cx"
    and t: "sim_time cx = 100" "current_node cx' = INIT"
    and s: "send_wrapped witness_env witness_net ?msg ?net cx = Inr ((out, net'), cx')"
    by (auto split: sum.splits)
  have "send_function ?net = PerfectConnectivity 20" by (simp add: new_net_def)
  from perfect_connectivity_delivers_later [OF this after_calls_inv(2) [OF a] s] t
  obtain i chan where "tasks cx' = (tasks cx)(i \<mapsto> \<lparr>te_shared = i, te_task = Some \<lparr>tk_shared = i,
      tk_snd = Some chan, tk_fut = Deliver (Enqueued 120 key7 (Inr ?msg))\<rparr>\<rparr>)"
    by (auto simp: key7_def new_packet_def script_net_def)
  then show ?thesis
    using t(2) by (intro exI [of _ cx'] exI [of _ ?msg] exI [of _ i]) (simp add: new_packet_def)
qed

text \<open>A delivery stands for a deadline: given, or that of the sleep it awaits.\<close>

definition delivers_at ::
  "('q \<Rightarrow> nat \<rightharpoonup> instant) \<Rightarrow> ('h, 'q, 'f, 's, 'x) sim \<Rightarrow> ('p, 'er) delivery \<Rightarrow>
    instant \<Rightarrow> inbox_key \<Rightarrow> ('p, 'er) message \<Rightarrow> bool" where
  "delivers_at contents cx d t key msg \<longleftrightarrow>
     d = Enqueued t key msg \<or> (\<exists>k. d = Sleeping k key msg \<and> deadline_of contents cx k = Some t)"

lemma await_delivery_outcome:
  assumes ch: "inbox_channels e n buffer" and pq: "priority_queue (env_pq e) contents"
    and inv: "timers_inv contents cx" and dl: "deadline_of contents cx k = Some t"
    and net: "the_net n cx = Some net" "net_ok buffer net (ext cx)"
    and r: "await_delivery e n w k key msg cx = Inr ((d', r), cx')"
  shows "if sim_time cx < t
    then r = Pending \<and> delivers_at contents cx' d' t key msg \<and> ext cx' = ext cx \<and> the_net n cx' = Some net
    else r = Ready () \<and> d' = Delivered \<and> the_net n cx' = Some net \<and> net_ok buffer net (ext cx') \<and>
      net_queues buffer net (ext cx') = spec_deliver key msg (net_queues buffer net (ext cx))"
proof -
  obtain p cx1 where p: "sleep_poll (env_pq e) k w cx = Inr (p, cx1)"
    and rest: "(case p of Pending \<Rightarrow> Inr ((Sleeping k key msg, Pending), cx1)
      | Ready _ \<Rightarrow> andThen (sleep_drop (env_pq e) k cx1) (\<lambda>cx.
          andThen (deliver n key msg cx) (\<lambda>(_, cx). Inr ((Delivered, Ready ()), cx)))) =
        Inr ((d', r), cx')"
    using r by (auto simp: await_delivery_def)
  note rest1 = sleep_poll_rest [OF p]
  have net1: "the_net n cx1 = Some net" using net(1) by (simp add: the_net_same [OF rest1(5,6)])
  have now: "now cx = sim_time cx" using inv by (simp add: timers_inv_def)
  obtain st where st: "sleep_cells cx k = Some st"
    using dl by (auto simp: deadline_of_def split: option.splits)
  note ok = timers_inv_cell [OF inv, of k, unfolded st]
  have poll: "if t \<le> sim_time cx then p = Ready t
    else p = Pending \<and> deadline_of contents cx1 k = Some t"
    using p dl st ok now
    by (cases st)
      (auto simp: deadline_of_def sleep_poll_def Let_def with_cx_Inr
        priority_queue.contents_push [OF pq] split: if_splits)
  show ?thesis
  proof (cases "sim_time cx < t")
    case True
    then have "p = Pending" "deadline_of contents cx1 k = Some t" using poll by auto
    then show ?thesis using rest rest1(7) net1 True by (auto simp: delivers_at_def)
  next
    case False
    then obtain cx2 u where cx2: "sleep_drop (env_pq e) k cx1 = Inr cx2"
      and dv: "deliver n key msg cx2 = Inr (u, cx')" and d': "d' = Delivered" "r = Ready ()"
      using poll rest by auto
    note rest2 = sleep_drop_rest [OF cx2]
    have "the_net n cx2 = Some net" using net1 by (simp add: the_net_same [OF rest2(5,6)])
    moreover have "ext cx2 = ext cx" using rest1(7) rest2(7) by simp
    ultimately show ?thesis
      using inbox_channels.deliver_queues [OF ch dv] net(2) False d' by simp
  qed
qed

text \<open>
  C26: A delivery is neither early nor late: polled before its time it waits, and the network is as
  it was; polled at its time or later it is over, and the message is in the inbox of its key, last,
  if there is one and it is not full, and is lost otherwise.
\<close>

theorem delivery_happens_at_its_time:
  assumes ch: "inbox_channels e n buffer" and pq: "priority_queue (env_pq e) contents"
    and inv: "timers_inv contents cx" and d: "delivers_at contents cx d t key msg"
    and net: "the_net n cx = Some net" "net_ok buffer net (ext cx)"
    and r: "delivery_poll e n w d cx = Inr ((d', r), cx')"
    and range: "t \<le> instant_max"
  shows "if sim_time cx < t
    then r = Pending \<and> delivers_at contents cx' d' t key msg \<and> ext cx' = ext cx \<and> the_net n cx' = Some net
    else r = Ready () \<and> d' = Delivered \<and> the_net n cx' = Some net \<and> net_ok buffer net (ext cx') \<and>
      net_queues buffer net (ext cx') = spec_deliver key msg (net_queues buffer net (ext cx))"
proof -
  consider "d = Enqueued t key msg" | "\<exists>k. d = Sleeping k key msg \<and> deadline_of contents cx k = Some t"
    using d unfolding delivers_at_def by blast
  then show ?thesis
  proof cases
    case 1
    obtain k cx0 where s: "sleep_until t cx = (k, cx0)" by (cases "sleep_until t cx")
    have r0: "await_delivery e n w k key msg cx0 = Inr ((d', r), cx')"
      using r 1 s by simp
    have same: "sim_time cx0 = sim_time cx" "ext cx0 = ext cx" "the_net n cx0 = the_net n cx"
      using s by (auto simp: sleep_until_def intro: the_net_same)
    have "timers_inv contents cx0" "deadline_of contents cx0 k = Some t"
      using s timers_inv_sleep_until [OF inv range s] by (auto simp: sleep_until_def deadline_of_def)
    from await_delivery_outcome [OF ch pq this _ _ r0] show ?thesis
      using net unfolding same by blast
  next
    case 2
    then obtain k where k: "d = Sleeping k key msg" "deadline_of contents cx k = Some t" by blast
    then have "await_delivery e n w k key msg cx = Inr ((d', r), cx')" using r by simp
    from await_delivery_outcome [OF ch pq inv k(2) net this] show ?thesis .
  qed
qed

theorem delivery_happens_at_its_time_witness:
  "\<exists>cx cx' d. sim_time cx = 100 \<and> net_queues script_buffer (the (the_net witness_net cx)) (ext cx) = [key7 \<mapsto> []] \<and>
     delivery_poll witness_env witness_net (Id 1) (Enqueued 90 key7 (Inl 3)) cx = Inr (d, cx') \<and>
     net_queues script_buffer (the (the_net witness_net cx)) (ext cx') = [key7 \<mapsto> [Inl 3]]"
proof -
  let ?d = "Enqueued 90 key7 (Inl 3) :: (nat, nat) delivery"
  let ?f = "delivery_poll witness_env witness_net (Id 1) ?d"
  have "case after_calls [AddNet 20, OpenSocket 7] of
      Inr cx \<Rightarrow> (net_is [(key7, [])] cx \<and> sim_time cx = 100) \<and>
        (case ?f cx of Inr (a, cx') \<Rightarrow> True | Inl _ \<Rightarrow> False)
    | Inl _ \<Rightarrow> False"
    by code_simp
  then obtain cx r cx' where a: "after_calls [AddNet 20, OpenSocket 7] = Inr cx"
    and net: "net_is [(key7, [])] cx" and t: "sim_time cx = 100" and f: "?f cx = Inr (r, cx')"
    by (rule after_calls_step) blast
  obtain net where n: "the_net witness_net cx = Some net" "net_ok script_buffer net (ext cx)"
    "net_queues script_buffer net (ext cx) = [key7 \<mapsto> []]"
    by (rule net_is_one [OF net]) auto
  obtain d p where r: "r = (d, p)" by (cases r)
  have pq: "priority_queue (env_pq witness_env) map_of" by (simp add: list_pq.priority_queue_axioms)
  have d: "delivers_at map_of cx ?d 90 key7 (Inl 3)" by (simp add: delivers_at_def)
  have le: "(90 :: nat) \<le> instant_max" by (simp add: instant_max_def)
  from delivery_happens_at_its_time [OF witness_channels pq after_calls_inv(3) [OF a] d n(1,2) f [unfolded r] le]
  show ?thesis
    using n t f r
    by (intro exI [of _ cx] exI [of _ cx'] exI [of _ r]) (simp add: spec_deliver_def INBOX_CAPACITY_def)
qed

end
