(* ===== verification/NodeGuarantees.thy ===== *)
theory NodeGuarantees
  imports Scripts
begin

text \<open>
  What nodes, simulators and the spawning of tasks guarantee: who is told of a new node and in
  which order, one node simulator per node, exclusive access to simulators, the effect of a spawn
  and of starting and stopping, and what goes wrong when a finished future still owns a sleep.
\<close>

section \<open>The simulators of scripts keep to themselves\<close>

lemma set_inbox_simulators:
  "set_inbox c ch (cx\<lparr>simulators := r\<rparr>) = (set_inbox c ch cx)\<lparr>simulators := r\<rparr>"
  by (simp add: set_inbox_def)

lemma inbox_try_receive_blind:
  "inbox_try_receive c (cx\<lparr>simulators := r\<rparr>) =
    andThen (inbox_try_receive c cx) (\<lambda>(m, cx'). Inr (m, cx'\<lparr>simulators := r\<rparr>))"
  by (simp add: inbox_try_receive_def Let_def set_inbox_simulators split: list.split)

lemma drain_blind:
  "drain script_net c fuel (cx\<lparr>simulators := r\<rparr>) =
    andThen (drain script_net c fuel cx) (\<lambda>cx'. Inr (cx'\<lparr>simulators := r\<rparr>))"
proof (induction fuel arbitrary: cx)
  case (Suc fuel)
  show ?case
  proof (cases "inbox_try_receive c cx")
    case (Inr a)
    then show ?thesis
      using Suc.IH by (cases a; cases "fst a") (auto simp: inbox_try_receive_blind)
  qed (simp add: inbox_try_receive_blind)
qed simp

lemma restart_inbox_blind:
  "restart_inbox script_net net node k (cx\<lparr>simulators := r\<rparr>) =
    andThen (restart_inbox script_net net node k cx) (\<lambda>cx'. Inr (cx'\<lparr>simulators := r\<rparr>))"
  by (simp add: restart_inbox_def drain_blind del: drain.simps split: option.split)

lemma restart_inboxes_blind:
  "foldE (restart_inbox script_net net node) ks (cx\<lparr>simulators := r\<rparr>) =
    andThen (foldE (restart_inbox script_net net node) ks cx) (\<lambda>cx'. Inr (cx'\<lparr>simulators := r\<rparr>))"
proof (induction ks arbitrary: cx)
  case (Cons k ks)
  then show ?case
    by (cases "restart_inbox script_net net node k cx") (simp_all add: restart_inbox_blind)
qed simp

lemma inbox_try_receive_frame:
  "inbox_try_receive c cx = Inr (m, cx') \<Longrightarrow>
    nodes cx' = nodes cx \<and> simulators cx' = simulators cx \<and> cell cx' = cell cx"
  by (auto simp: inbox_try_receive_def Let_def set_inbox_def split: if_splits list.splits)

lemma drain_frame:
  "drain script_net c fuel cx = Inr cx' \<Longrightarrow>
    nodes cx' = nodes cx \<and> simulators cx' = simulators cx \<and> cell cx' = cell cx"
proof (induction fuel arbitrary: cx)
  case (Suc fuel)
  then obtain m cx1 where m: "inbox_try_receive c cx = Inr (m, cx1)"
    and "(case m of None \<Rightarrow> Inr cx1 | Some _ \<Rightarrow> drain script_net c fuel cx1) = Inr cx'" by auto
  then show ?case using Suc.IH [of cx1] inbox_try_receive_frame [OF m] by (cases m) auto
qed simp

lemma simulator_create_frame:
  assumes "simulator_create s cx = Inr (s', cx')"
  shows "nodes cx' = nodes cx \<and> simulators cx' = simulators cx \<and> cell cx' = cell cx"
proof (cases s)
  case (NetSim net)
  then obtain node where f: "foldE (restart_inbox script_net net node) (map fst (inboxes net)) cx = Inr cx'"
    using assms by (auto simp: net_create_node_def net_start_node_def)
  have one: "nodes b = nodes a \<and> simulators b = simulators a \<and> cell b = cell a"
    if "restart_inbox script_net net node k a = Inr b" for k a b
    using that drain_frame
    by (fastforce simp: restart_inbox_def simp del: drain.simps split: option.splits if_splits)
  show ?thesis
    using foldE_frame [OF f, where g = nodes] foldE_frame [OF f, where g = simulators]
      foldE_frame [OF f, where g = cell] one by metis
qed (use assms counter_calls(1) in auto)

lemma simulator_create_blind: "registry_blind simulator_create"
  unfolding registry_blind_def
proof (intro conjI allI impI)
  fix s r and cx :: "'h script_sim"
  show "simulator_create s (cx\<lparr>simulators := r\<rparr>) =
    andThen (simulator_create s cx) (\<lambda>(s', cx'). Inr (s', cx'\<lparr>simulators := r\<rparr>))"
  proof (cases s)
    case (NetSim net)
    then show ?thesis
      by (cases "foldE (restart_inbox script_net net (current_node cx)) (map fst (inboxes net)) cx")
        (simp_all add: net_create_node_def net_start_node_def cx_current_node_def restart_inboxes_blind)
  qed (simp_all add: per_node_create_def script_counters_def)
qed (auto dest: simulator_create_frame)

section \<open>Creating nodes\<close>

lemma create_node_in_order:
  assumes blind: "registry_blind (on_create_node e)"
    and free: "cell cx = CellFree" and once: "once_set cx" and running: "\<not> final_stopped cx"
    and slots: "simulators cx = map Some ss" and room: "Suc (length (nodes cx)) < 2 ^ 64"
    and eh: "handle_event (env_hasher e) (NodeSpawned (NodeId (Suc (length (nodes cx))))) (event_handler cx) =
      Inr eh"
  shows "create_node e cx =
    (let n = NodeId (Suc (length (nodes cx)));
         cx1 = cx\<lparr>nodes := nodes cx @ [\<lparr>run_level = Running, node_tasks = []\<rparr>],
           event_handler := eh, current_node := n\<rparr>
     in andThen (notify (on_create_node e) ss cx1) (\<lambda>(ss', c).
        Inr (n, c\<lparr>simulators := map Some ss', current_node := current_node cx\<rparr>)))"
proof -
  let ?n = "NodeId (Suc (length (nodes cx)))"
  let ?cx1 = "cx\<lparr>nodes := nodes cx @ [\<lparr>run_level = Running, node_tasks = []\<rparr>],
    event_handler := eh, current_node := ?n\<rparr>"
  have "for_all_simulators True (on_create_node e) ?cx1 =
    andThen (notify (on_create_node e) ss ?cx1) (\<lambda>(ss', c). Inr ((), c\<lparr>simulators := map Some ss'\<rparr>))"
    using for_all_simulators_blind [OF blind, of ?cx1 ss True] free slots by simp
  moreover have "from_index (node_count cx) = Inr ?n"
    using room by (simp add: from_index_def node_count_def)
  ultimately show ?thesis
    using free once running eh
    by (cases "notify (on_create_node e) ss ?cx1")
      (auto simp: create_node_def with_cx_def push_new_node_def node_count_def report_event_def
        node_scope_def Let_def)
qed

text \<open>
  C18: Creating a node adds one running node, reports it, and then calls every simulator once, in
  the order in which they were added, in the scope of the new node; afterwards the calling node is
  current again. (The simulators are assumed not to reach for the registry while they are called.)
\<close>

theorem create_node_notifies_in_order:
  assumes blind: "registry_blind (on_create_node e)"
    and free: "cell cx = CellFree" and once: "once_set cx" and running: "\<not> final_stopped cx"
    and slots: "simulators cx = map Some ss" and room: "Suc (length (nodes cx)) < 2 ^ 64"
    and eh: "handle_event (env_hasher e) (NodeSpawned (NodeId (Suc (length (nodes cx))))) (event_handler cx) =
      Inr eh"
  shows "create_node e cx =
    (let n = NodeId (Suc (length (nodes cx)));
         cx1 = cx\<lparr>nodes := nodes cx @ [\<lparr>run_level = Running, node_tasks = []\<rparr>],
           event_handler := eh, current_node := n\<rparr>
     in andThen (notify (on_create_node e) ss cx1) (\<lambda>(ss', c).
        Inr (n, c\<lparr>simulators := map Some ss', current_node := current_node cx\<rparr>)))"
  by (rule create_node_in_order [OF assms])

theorem create_node_notifies_in_order_witness:
  "\<exists>cx cx'. simulators cx = map Some [CounterSim \<lparr>node_simulators = [5], per_node_closure = 6\<rparr>] \<and>
     create_node witness_env cx = Inr (NodeId 2, cx') \<and>
     simulators cx' = map Some [CounterSim \<lparr>node_simulators = [5, 6], per_node_closure = 7\<rparr>]"
proof -
  let ?ss = "[CounterSim \<lparr>node_simulators = [5], per_node_closure = 6\<rparr>]"
  have "case after_calls [AddCounter 5] of
      Inr cx \<Rightarrow> cell cx = CellFree \<and> once_set cx \<and> \<not> final_stopped cx \<and> simulators cx = map Some ?ss \<and>
        length (nodes cx) = 1 \<and> event_handler cx = NoopEventHandler
    | Inl _ \<Rightarrow> False"
    by code_simp
  then obtain cx :: "nat script_sim" where s: "cell cx = CellFree" "once_set cx" "\<not> final_stopped cx"
    "simulators cx = map Some ?ss" and l: "length (nodes cx) = 1" and h: "event_handler cx = NoopEventHandler"
    by (auto split: sum.splits)
  have room: "Suc (length (nodes cx)) < 2 ^ 64" using l by simp
  have eh: "handle_event (env_hasher witness_env) (NodeSpawned (NodeId (Suc (length (nodes cx)))))
      (event_handler cx) = Inr NoopEventHandler"
    using h by simp
  have blind: "registry_blind (on_create_node witness_env)" by (simp add: simulator_create_blind)
  from create_node_notifies_in_order [OF blind s room eh] l
  have "\<exists>cx'. create_node witness_env cx = Inr (NodeId 2, cx') \<and>
      simulators cx' = map Some [CounterSim \<lparr>node_simulators = [5, 6], per_node_closure = 7\<rparr>]"
    by (auto simp: Let_def per_node_create_def script_counters_def numeral_2_eq_2 [symmetric])
  with s(4) show ?thesis by blast
qed

lemma notify_nth:
  "notify f ss cx = Inr (ss', cx') \<Longrightarrow> i < length ss \<Longrightarrow>
    \<exists>c c'. f (ss ! i) c = Inr (ss' ! i, c')"
proof (induction ss arbitrary: cx ss' i)
  case (Cons s ss)
  then obtain s' c1 ss1 where "f s cx = Inr (s', c1)" "notify f ss c1 = Inr (ss1, cx')" "ss' = s' # ss1"
    by auto
  then show ?case using Cons.IH [of c1 ss1 "i - 1"] Cons.prems(2) by (cases i) auto
qed simp

lemma notify_frame:
  assumes "notify f ss cx = Inr (ss', cx')" and "\<And>s c s' c'. f s c = Inr (s', c') \<Longrightarrow> g c' = g c"
  shows "g cx' = g cx"
  using assms(1)
proof (induction ss arbitrary: cx ss')
  case (Cons s ss)
  then obtain s' c1 ss1 where "f s cx = Inr (s', c1)" "notify f ss c1 = Inr (ss1, cx')" by auto
  then show ?case using Cons.IH assms(2) by metis
qed simp

text \<open>
  C19: There is one node simulator per node: if a \<open>PerNode\<close> has one for each node, it has one for
  each node again after a node was created, the new one last, and those of the other nodes are
  untouched. (The simulators are assumed not to create nodes or reach for the registry while they
  are called.)
\<close>

theorem one_node_simulator_per_node:
  assumes blind: "registry_blind (on_create_node e)"
    and nodes: "\<And>s c s' c'. on_create_node e s c = Inr (s', c') \<Longrightarrow> length (nodes c') = length (nodes c)"
    and per_node: "\<And>p c s' c'. on_create_node e (box_per_node po p) c = Inr (s', c') \<Longrightarrow>
      \<exists>p'. per_node_create po p c = Inr (p', c') \<and> s' = box_per_node po p'"
    and slots: "simulators cx = map Some ss" and i: "i < length ss" "ss ! i = box_per_node po p"
    and one_each: "length (node_simulators p) = length (nodes cx)"
    and new: "create_node e cx = Inr (n, cx')"
  shows "\<exists>p' s. simulators cx' ! i = Some (box_per_node po p') \<and>
    node_simulators p' = node_simulators p @ [s] \<and>
    length (node_simulators p') = length (nodes cx') \<and> to_index n = length (node_simulators p)"
proof -
  obtain eh where free: "cell cx = CellFree" and once: "once_set cx" and running: "\<not> final_stopped cx"
    and room: "Suc (length (nodes cx)) < 2 ^ 64" and n: "n = NodeId (Suc (length (nodes cx)))"
    and eh: "handle_event (env_hasher e) (NodeSpawned (NodeId (Suc (length (nodes cx))))) (event_handler cx) =
      Inr eh"
    using new
    by (auto simp: create_node_def with_cx_Inr push_new_node_def node_count_def from_index_def
        report_event_Inr node_scope_Inr split: if_splits)
  let ?cx1 = "cx\<lparr>nodes := nodes cx @ [\<lparr>run_level = Running, node_tasks = []\<rparr>],
    event_handler := eh, current_node := n\<rparr>"
  obtain ss' c where no: "notify (on_create_node e) ss ?cx1 = Inr (ss', c)"
    and cx': "cx' = c\<lparr>simulators := map Some ss', current_node := current_node cx\<rparr>"
    using new unfolding create_node_in_order [OF blind free once running slots room eh]
    by (auto simp: Let_def n)
  have "length (nodes c) = length (nodes ?cx1)"
    using notify_frame [OF no, of "\<lambda>c. length (nodes c)"] nodes by blast
  moreover obtain a b where "on_create_node e (box_per_node po p) a = Inr (ss' ! i, b)"
    using notify_nth [OF no i(1)] i(2) by auto
  then obtain p' where "per_node_create po p a = Inr (p', b)" and "ss' ! i = box_per_node po p'"
    using per_node by blast
  moreover have "length ss' = length ss" by (rule notify_length [OF no])
  ultimately show ?thesis
    using i(1) one_each
    by (auto simp: cx' n to_index_def per_node_create_def intro!: exI [of _ p'])
qed

abbreviation "witness_counters \<equiv> (script_counters :: nat counter_ops)"

theorem one_node_simulator_per_node_witness:
  "\<exists>cx cx' p'. create_node witness_env cx = Inr (NodeId 2, cx') \<and>
     simulators cx' ! 0 = Some (CounterSim p') \<and> length (node_simulators p') = 2 \<and> length (nodes cx') = 2"
proof -
  let ?p = "\<lparr>node_simulators = [5], per_node_closure = 6\<rparr> :: (nat, nat) per_node"
  have "case after_calls [AddCounter 5] of
      Inr cx \<Rightarrow> (simulators cx = map Some [CounterSim ?p] \<and> length (nodes cx) = 1) \<and>
        (case create_node witness_env cx of Inr (n, cx') \<Rightarrow> n = NodeId 2 | Inl _ \<Rightarrow> False)
    | Inl _ \<Rightarrow> False"
    by code_simp
  then obtain cx n cx' where s: "simulators cx = map Some [CounterSim ?p]" and l: "length (nodes cx) = 1"
    and c: "create_node witness_env cx = Inr (n, cx')" and n: "n = NodeId 2"
    by (rule after_calls_step) blast
  have blind: "registry_blind (on_create_node witness_env)" by (simp add: simulator_create_blind)
  have dispatch: "\<exists>p'. per_node_create witness_counters p a = Inr (p', b) \<and> s' = box_per_node witness_counters p'"
    if "on_create_node witness_env (box_per_node witness_counters p) a = Inr (s', b)" for p a s' b
    using that by (auto simp: script_counters_def)
  have keep: "length (nodes b) = length (nodes a)" if "on_create_node witness_env s a = Inr (s', b)" for s a s' b
    using that by (auto dest: simulator_create_frame)
  have p: "[CounterSim ?p] ! 0 = box_per_node witness_counters ?p" by (simp add: script_counters_def)
  have len: "length (node_simulators ?p) = length (nodes cx)" using l by simp
  have "\<exists>p' s. simulators cx' ! 0 = Some (box_per_node witness_counters p') \<and>
      node_simulators p' = node_simulators ?p @ [s] \<and>
      length (node_simulators p') = length (nodes cx') \<and> to_index n = length (node_simulators ?p)"
    by (rule one_node_simulator_per_node [OF blind _ _ s _ p len c])
      (rule keep, assumption, rule dispatch, assumption, simp)
  then show ?thesis
    using c n by (intro exI [of _ cx] exI [of _ cx']) (auto simp: script_counters_def)
qed

section \<open>Access to simulators\<close>

lemma simulator_with_registered:
  assumes "simulators_by_type cx ty = Some i" and "i < length (simulators cx)"
    and "simulators cx ! i = Some s" and "cell cx = CellFree"
    and keep: "\<And>s c a s' c'. f s c = Inr ((a, s'), c') \<Longrightarrow> same_registry c c'"
  shows "simulator_with ty f cx =
    andThen (f s (cx\<lparr>simulators := (simulators cx)[i := None]\<rparr>)) (\<lambda>((a, s'), c).
      Inr (a, c\<lparr>simulators := (simulators c)[i := Some s']\<rparr>))"
proof -
  let ?cx = "cx\<lparr>simulators := (simulators cx)[i := None]\<rparr>"
  have t: "take_simulator ty cx = Inr (Some (i, s), ?cx)"
    using assms(1-4) by (simp add: take_simulator_def with_cx_def)
  show ?thesis
  proof (cases "f s ?cx")
    case (Inl p)
    then show ?thesis using t by (simp add: simulator_with_def with_simulator_option_def)
  next
    case (Inr r)
    obtain a s' c where r: "r = ((a, s'), c)" by (cases r) auto
    have "same_registry ?cx c" using keep Inr r by blast
    then have "put_back_simulator i s' c = Inr ((), c\<lparr>simulators := (simulators c)[i := Some s']\<rparr>)"
      using assms(2,4) by (simp add: put_back_simulator_def with_cx_def same_registry_def)
    then show ?thesis using t Inr r by (simp add: simulator_with_def with_simulator_option_def)
  qed
qed

text \<open>
  A loop that cannot get past one of its elements panics; of which panic it ends, each of its turns
  has a say.
\<close>

lemma foldE_stuck:
  assumes "x \<in> set xs" and "set xs \<subseteq> Y" and "P s"
    and stuck: "\<And>s. P s \<Longrightarrow> \<exists>p. f x s = Inl p"
    and keep: "\<And>y s t. y \<in> Y \<Longrightarrow> P s \<Longrightarrow> f y s = Inr t \<Longrightarrow> P t"
    and panics: "\<And>y s p. y \<in> Y \<Longrightarrow> P s \<Longrightarrow> f y s = Inl p \<Longrightarrow> Q p"
  shows "\<exists>p. foldE f xs s = Inl p \<and> Q p"
  using assms(1-3)
proof (induction xs arbitrary: s)
  case Nil
  then show ?case by simp
next
  case (Cons y xs)
  have y: "y \<in> Y" using Cons.prems(2) by simp
  show ?case
  proof (cases "f y s")
    case (Inl p)
    then show ?thesis using panics [OF y Cons.prems(3) Inl] by simp
  next
    case (Inr t)
    have "x \<noteq> y" using stuck [OF Cons.prems(3)] Inr by auto
    then have "x \<in> set xs" using Cons.prems(1) by simp
    then show ?thesis using Cons.IH [OF _ _ keep [OF y Cons.prems(3) Inr]] Cons.prems(2) Inr by simp
  qed
qed

definition slot_taken :: "nat \<Rightarrow> ('h, 'q, 'f, 's, 'x) sim \<Rightarrow> bool" where
  "slot_taken i cx \<longleftrightarrow> i < length (simulators cx) \<and> simulators cx ! i = None \<and> cell cx = CellFree"

definition leaves_slot_taken ::
  "nat \<Rightarrow> ('s \<Rightarrow> ('h, 'q, 'f, 's, 'x) sim \<Rightarrow> panic + 's \<times> ('h, 'q, 'f, 's, 'x) sim) \<Rightarrow> bool" where
  "leaves_slot_taken i k \<longleftrightarrow>
     (\<forall>s c s' c'. k s c = Inr (s', c') \<longrightarrow> slot_taken i c \<longrightarrow>
        slot_taken i c' \<and> length (simulators c) \<le> length (simulators c'))"

lemma visit_keeps_taken:
  assumes keep: "leaves_slot_taken i k"
    and "n \<le> length (simulators (snd a))" "slot_taken i (snd a)" "m < n"
  shows "case visit_simulator k m a of
      Inl p \<Rightarrow> p = SimulatorBorrowed \<or> (\<exists>s c. k s c = Inl p)
    | Inr b \<Rightarrow> m \<noteq> i \<and> n \<le> length (simulators (snd b)) \<and> slot_taken i (snd b)"
proof -
  obtain held cx where a: "a = (held, cx)" by (cases a)
  let ?cx = "cx\<lparr>simulators := (simulators cx)[m := held]\<rparr>"
  have m: "m < length (simulators cx)" "cell cx = CellFree" "i < length (simulators cx)"
    "simulators cx ! i = None"
    using assms(2-4) a by (simp_all add: slot_taken_def)
  have sw: "swap_simulator m held cx = Inr (simulators cx ! m, ?cx)"
    using m by (simp add: swap_simulator_def with_cx_def)
  show ?thesis
  proof (cases "simulators cx ! m")
    case None
    then show ?thesis using sw a by (simp add: visit_simulator_def)
  next
    case (Some s)
    then have mi: "m \<noteq> i" using m by auto
    then have t: "slot_taken i ?cx" using m by (simp add: slot_taken_def)
    show ?thesis
    proof (cases "k s ?cx")
      case (Inl p)
      then show ?thesis using sw a Some by (auto simp: visit_simulator_def)
    next
      case (Inr r)
      obtain s' c where r: "r = (s', c)" by (cases r)
      have "slot_taken i c" "length (simulators cx) \<le> length (simulators c)"
        using keep Inr r t by (fastforce simp: leaves_slot_taken_def)+
      then show ?thesis
        using sw a Some Inr r mi m assms(2)
        by (auto simp: visit_simulator_def swap_simulator_def with_cx_def slot_taken_def)
    qed
  qed
qed

lemma notification_of_taken:
  fixes cx :: "('h, 'q, 'f, 's, 'x) sim"
  assumes "slot_taken i cx" and keep: "leaves_slot_taken i k"
  shows "\<exists>p. for_all_simulators forward k cx = Inl p \<and>
    (p = SimulatorBorrowed \<or> (\<exists>s c. k s c = Inl p))"
proof -
  let ?n = "length (simulators cx)"
  let ?ks = "map (\<lambda>j. if forward then j else ?n - 1 - j) [0..<?n]"
  have i: "i < ?n" "cell cx = CellFree" using assms(1) by (simp_all add: slot_taken_def)
  have "\<exists>p. foldE (visit_simulator k) ?ks (None, cx) = Inl p \<and>
      (p = SimulatorBorrowed \<or> (\<exists>s c. k s c = Inl p))"
  proof (rule foldE_stuck [where x = i and Y = "{..<?n}" and
        P = "\<lambda>a. ?n \<le> length (simulators (snd a)) \<and> slot_taken i (snd a)"])
    have "(\<lambda>j. if forward then j else ?n - 1 - j) (if forward then i else ?n - 1 - i) = i"
      "(if forward then i else ?n - 1 - i) \<in> set [0..<?n]"
      using i by auto
    then show "i \<in> set ?ks" unfolding set_map by (rule image_eqI [OF sym])
    show "set ?ks \<subseteq> {..<?n}" by auto
    show "?n \<le> length (simulators (snd (None, cx))) \<and> slot_taken i (snd (None, cx))"
      using assms(1) by simp
  next
    fix a :: "'s option \<times> ('h, 'q, 'f, 's, 'x) sim"
    assume "?n \<le> length (simulators (snd a)) \<and> slot_taken i (snd a)"
    then show "\<exists>p. visit_simulator k i a = Inl p"
      using visit_keeps_taken [OF keep, of ?n a i] i
      by (cases "visit_simulator k i a") auto
  next
    fix m and a b :: "'s option \<times> ('h, 'q, 'f, 's, 'x) sim"
    assume "m \<in> {..<?n}" "?n \<le> length (simulators (snd a)) \<and> slot_taken i (snd a)"
      "visit_simulator k m a = Inr b"
    moreover from this have "m < ?n" by simp
    ultimately show "?n \<le> length (simulators (snd b)) \<and> slot_taken i (snd b)"
      using visit_keeps_taken [OF keep, of ?n a m] by simp
  next
    fix m p and a :: "'s option \<times> ('h, 'q, 'f, 's, 'x) sim"
    assume "m \<in> {..<?n}" "?n \<le> length (simulators (snd a)) \<and> slot_taken i (snd a)"
      "visit_simulator k m a = Inl p"
    moreover from this have "m < ?n" by simp
    ultimately show "p = SimulatorBorrowed \<or> (\<exists>s c. k s c = Inl p)"
      using visit_keeps_taken [OF keep, of ?n a m] by simp
  qed
  then show ?thesis using i(2) by (auto simp: for_all_simulators_def with_cx_def)
qed

text \<open>
  C20: Access to a simulator is exclusive. While a closure runs on a registered simulator, a second
  access to it panics, whatever the closures would do; and a notification of the simulators, in
  either direction, panics too, with the same panic unless a simulator that it calls before panics
  itself. (The simulators that the notification calls are assumed to leave the registry's entries
  and the emptied slot alone; the crate gives them no way to fill it.)
\<close>

theorem simulator_access_is_exclusive:
  assumes "simulators_by_type cx ty = Some i" and "i < length (simulators cx)"
    and "simulators cx ! i = Some s" and "cell cx = CellFree"
    and keep: "leaves_slot_taken i k"
  shows "simulator_with ty (\<lambda>s cx. andThen (simulator_with ty g cx) (h s)) cx = Inl SimulatorBorrowed \<and>
    (\<exists>p. simulator_with ty (\<lambda>s cx. andThen (for_all_simulators forward k cx) (h' s)) cx = Inl p \<and>
      (p = SimulatorBorrowed \<or> (\<exists>s c. k s c = Inl p)))"
proof -
  let ?cx = "cx\<lparr>simulators := (simulators cx)[i := None]\<rparr>"
  have t: "take_simulator ty cx = Inr (Some (i, s), ?cx)"
    using assms(1-4) by (simp add: take_simulator_def with_cx_def)
  have "take_simulator ty ?cx = Inl SimulatorBorrowed"
    using assms(1-4) by (simp add: take_simulator_def with_cx_def)
  moreover have "slot_taken i ?cx" using assms(2,4) by (simp add: slot_taken_def)
  then obtain p where "for_all_simulators forward k ?cx = Inl p"
    "p = SimulatorBorrowed \<or> (\<exists>s c. k s c = Inl p)"
    using notification_of_taken [OF _ keep] by blast
  ultimately show ?thesis using t by (simp add: simulator_with_def with_simulator_option_def)
qed

theorem simulator_access_is_exclusive_witness:
  "\<exists>cx. simulators cx = [Some (NetSim (new_net (PerfectConnectivity 20)))] \<and>
     simulator_with NET (\<lambda>s cx. andThen (simulator_with NET (\<lambda>s cx. Inr (((), s), cx)) cx)
       (\<lambda>(a, cx). Inr (((), NetSim (new_net (PerfectConnectivity 30))), cx))) (cx :: nat script_sim) = Inl SimulatorBorrowed \<and>
     simulator_with NET (\<lambda>s cx. andThen (for_all_simulators False (\<lambda>s cx. Inr (s, cx)) cx)
       (\<lambda>(a, cx). Inr (((), s), cx))) cx = Inl SimulatorBorrowed"
proof -
  let ?s = "NetSim (new_net (PerfectConnectivity 20))"
  let ?g = "\<lambda>(s :: script_simulator) (cx :: nat script_sim). Inr (((), s), cx) ::
    panic + (unit \<times> script_simulator) \<times> nat script_sim"
  let ?h = "\<lambda>(a :: unit, cx :: nat script_sim). Inr (((), NetSim (new_net (PerfectConnectivity 30))), cx) ::
    panic + (unit \<times> script_simulator) \<times> nat script_sim"
  let ?h' = "\<lambda>s (a :: unit, cx :: nat script_sim). Inr (((), s), cx) ::
    panic + (unit \<times> script_simulator) \<times> nat script_sim"
  let ?k = "\<lambda>(s :: script_simulator) (cx :: nat script_sim). Inr (s, cx) ::
    panic + script_simulator \<times> nat script_sim"
  have "case after_calls [AddNet 20] of
      Inr cx \<Rightarrow> simulators cx = [Some ?s] \<and> simulators_by_type cx NET = Some 0 \<and> cell cx = CellFree
    | Inl _ \<Rightarrow> False"
    by code_simp
  then obtain cx :: "nat script_sim" where s: "simulators cx = [Some ?s]"
    "simulators_by_type cx NET = Some 0" "cell cx = CellFree"
    by (auto split: sum.splits)
  then have l: "0 < length (simulators cx)" "simulators cx ! 0 = Some ?s" by simp_all
  have keep: "leaves_slot_taken 0 ?k" by (simp add: leaves_slot_taken_def)
  note x = simulator_access_is_exclusive [where k = ?k, OF s(2) l s(3) keep]
  have "simulator_with NET (\<lambda>s cx. andThen (simulator_with NET ?g cx) ?h) cx = Inl SimulatorBorrowed"
    using x [where g = ?g and h = "\<lambda>_. ?h"] by blast
  moreover have "simulator_with NET (\<lambda>s cx. andThen (for_all_simulators False ?k cx) (?h' s)) cx =
      Inl SimulatorBorrowed"
    using x [where forward = False and h' = ?h' and g = ?g and h = "\<lambda>_. ?h"] by simp
  ultimately show ?thesis using s(1) by blast
qed

text \<open>
  C21: A simulator that was added is found under its type, and what a closure does to it stays: the
  closure gets the simulator that was added, alone, and its slot holds the changed one afterwards.
  A second simulator of the type is refused. (The closure is assumed to leave the registry alone.)
\<close>

theorem added_simulator_is_found:
  assumes add: "add_simulator ty s cx = Inr (u, cx1)"
    and keep: "\<And>s c a s' c'. f s c = Inr ((a, s'), c') \<Longrightarrow> same_registry c c'"
  shows "simulator_with ty f cx1 =
    andThen (f s (cx1\<lparr>simulators := simulators cx @ [None]\<rparr>)) (\<lambda>((a, s'), c).
      Inr (a, c\<lparr>simulators := simulators cx @ [Some s']\<rparr>)) \<and>
    add_simulator ty s2 cx1 = Inl AssertFailed"
proof -
  have free: "cell cx = CellFree" and one: "node_count cx = 1"
    and cx1: "cx1 = cx\<lparr>simulators_by_type := (simulators_by_type cx)(ty \<mapsto> length (simulators cx)),
      simulators := simulators cx @ [Some s]\<rparr>"
    using add by (auto simp: add_simulator_def with_cx_Inr node_count_def split: if_splits)
  let ?cx = "cx1\<lparr>simulators := simulators cx @ [None]\<rparr>"
  have reg: "simulators_by_type cx1 ty = Some (length (simulators cx))"
    "length (simulators cx) < length (simulators cx1)"
    "simulators cx1 ! length (simulators cx) = Some s" "cell cx1 = CellFree"
    using free by (simp_all add: cx1)
  have w: "simulator_with ty f cx1 = andThen (f s ?cx) (\<lambda>((a, s'), c).
      Inr (a, c\<lparr>simulators := (simulators c)[length (simulators cx) := Some s']\<rparr>))"
    using simulator_with_registered [OF reg keep] by (simp add: cx1)
  have "simulator_with ty f cx1 = andThen (f s ?cx) (\<lambda>((a, s'), c).
      Inr (a, c\<lparr>simulators := simulators cx @ [Some s']\<rparr>))"
  proof (cases "f s ?cx")
    case (Inr r)
    obtain a s' c where r: "r = ((a, s'), c)" by (cases r) auto
    have "same_registry ?cx c" using keep Inr r by blast
    then show ?thesis using w Inr r by (simp add: same_registry_def)
  qed (use w in simp)
  moreover have "add_simulator ty s2 cx1 = Inl AssertFailed"
    using free by (simp add: cx1 add_simulator_def with_cx_def)
  ultimately show ?thesis by blast
qed

theorem added_simulator_is_found_witness:
  "\<exists>cx cx1. add_simulator ''T'' (CounterSim \<lparr>node_simulators = [5], per_node_closure = 6\<rparr>) (cx :: nat script_sim) = Inr ((), cx1) \<and>
     simulator_with ''T'' (\<lambda>s cx. Inr ((s, s), cx)) cx1 =
       Inr (CounterSim \<lparr>node_simulators = [5], per_node_closure = 6\<rparr>, cx1\<lparr>simulators := [Some (CounterSim \<lparr>node_simulators = [5], per_node_closure = 6\<rparr>)]\<rparr>)"
proof -
  let ?p = "\<lparr>node_simulators = [5], per_node_closure = 6\<rparr> :: (nat, nat) per_node"
  have "case after_calls [] of
      Inr cx \<Rightarrow> node_count cx = 1 \<and> \<not> final_stopped cx \<and> cell cx = CellFree \<and>
        simulators_by_type cx ''T'' = None \<and> simulators cx = []
    | Inl _ \<Rightarrow> False"
    by code_simp
  then obtain cx :: "nat script_sim" where s: "node_count cx = 1 \<and> \<not> final_stopped cx"
    "cell cx = CellFree" "simulators_by_type cx ''T'' = None" "simulators cx = []"
    by (auto split: sum.splits)
  then obtain cx1 where a: "add_simulator ''T'' (CounterSim ?p) cx = Inr ((), cx1)"
    by (auto simp: add_simulator_def with_cx_def node_count_def)
  let ?f = "\<lambda>(s :: script_simulator) (cx :: nat script_sim). Inr ((s, s), cx) ::
    panic + (script_simulator \<times> script_simulator) \<times> nat script_sim"
  have "simulator_with ''T'' ?f cx1 =
      andThen (?f (CounterSim ?p) (cx1\<lparr>simulators := simulators cx @ [None]\<rparr>)) (\<lambda>((a, s'), c).
        Inr (a, c\<lparr>simulators := simulators cx @ [Some s']\<rparr>)) \<and>
    add_simulator ''T'' (CounterSim ?p) cx1 = Inl AssertFailed"
    by (rule added_simulator_is_found [where f = ?f, OF a]) simp
  with s(4) have "simulator_with ''T'' ?f cx1 = Inr (CounterSim ?p, cx1\<lparr>simulators := [Some (CounterSim ?p)]\<rparr>)"
    by simp
  with a show ?thesis by blast
qed

text \<open>
  \<open>with_node\<close> gives access to the simulator of one node: the closure gets the simulator at the
  node's index and only that one is replaced; for a node that the \<open>PerNode\<close> does not know it panics.
\<close>

lemma with_node_touches_one_node:
  assumes "simulators_by_type cx (per_node_type po) = Some i" and "i < length (simulators cx)"
    and "simulators cx ! i = Some (box_per_node po p)" and "cell cx = CellFree"
    and "downcast_per_node po (box_per_node po p) = Some p"
    and keep: "\<And>s c a s' c'. f s c = Inr ((a, s'), c') \<Longrightarrow> same_registry c c'"
  shows "with_node po node f cx =
    (if to_index node < length (node_simulators p)
     then andThen (f (node_simulators p ! to_index node) (cx\<lparr>simulators := (simulators cx)[i := None]\<rparr>))
       (\<lambda>((a, s'), c). Inr (a, c\<lparr>simulators := (simulators c)[i := Some (box_per_node po
         (p\<lparr>node_simulators := (node_simulators p)[to_index node := s']\<rparr>))]\<rparr>))
     else Inl IndexOutOfBounds)"
proof -
  let ?f = "\<lambda>b cx. andThen (unwrap (downcast_per_node po b)) (\<lambda>p.
       andThen (per_node_index p node) (\<lambda>s.
       andThen (f s cx) (\<lambda>((a, s'), cx). Inr ((a, box_per_node po (per_node_set node s' p)), cx))))"
  have keep': "same_registry c c'" if "?f s c = Inr ((a, s'), c')" for s c a s' c'
    using that keep by (auto split: if_splits)
  let ?cx = "cx\<lparr>simulators := (simulators cx)[i := None]\<rparr>"
  have w: "with_node po node f cx = andThen (?f (box_per_node po p) ?cx) (\<lambda>((a, s'), c).
      Inr (a, c\<lparr>simulators := (simulators c)[i := Some s']\<rparr>))"
    unfolding with_node_def by (rule simulator_with_registered [OF assms(1-4)]) (rule keep')
  show ?thesis
    unfolding w
    by (cases "f (node_simulators p ! to_index node) ?cx")
      (auto simp: per_node_index_def per_node_set_def assms(5))
qed

lemma with_node_touches_one_node_example:
  "\<exists>cx cx' :: nat script_sim.
     simulators cx = [Some (CounterSim \<lparr>node_simulators = [5, 6], per_node_closure = 7\<rparr>)] \<and>
     with_node witness_counters (NodeId 2) (\<lambda>s cx. Inr ((s, s + 100), cx)) cx = Inr (6, cx') \<and>
     simulators cx' = [Some (CounterSim \<lparr>node_simulators = [5, 106], per_node_closure = 7\<rparr>)]"
proof -
  let ?p = "\<lparr>node_simulators = [5, 6], per_node_closure = 7\<rparr> :: (nat, nat) per_node"
  let ?f = "\<lambda>s (cx :: nat script_sim). Inr ((s, s + 100 :: nat), cx) :: panic + (nat \<times> nat) \<times> nat script_sim"
  have "case after_calls [AddCounter 5, CreateNode] of
      Inr cx \<Rightarrow> simulators cx = [Some (CounterSim ?p)] \<and> simulators_by_type cx ''Counters'' = Some 0 \<and>
        cell cx = CellFree
    | Inl _ \<Rightarrow> False"
    by code_simp
  then obtain cx :: "nat script_sim" where s: "simulators cx = [Some (CounterSim ?p)]"
    "simulators_by_type cx ''Counters'' = Some 0" and free: "cell cx = CellFree"
    by (auto split: sum.splits)
  have reg: "simulators_by_type cx (per_node_type witness_counters) = Some 0" "0 < length (simulators cx)"
    "simulators cx ! 0 = Some (box_per_node witness_counters ?p)"
    "downcast_per_node witness_counters (box_per_node witness_counters ?p) = Some ?p"
    using s by (simp_all add: script_counters_def)
  have "with_node witness_counters (NodeId 2) ?f cx = Inr (6,
      cx\<lparr>simulators := [Some (CounterSim (?p\<lparr>node_simulators := [5, 106]\<rparr>))]\<rparr>)"
    by (subst with_node_touches_one_node [where f = ?f, OF reg(1-3) free reg(4)])
      (use s in \<open>auto simp: to_index_def script_counters_def\<close>)
  with s(1) show ?thesis
    by (intro exI [of _ cx]
        exI [of _ "cx\<lparr>simulators := [Some (CounterSim (?p\<lparr>node_simulators := [5, 106]\<rparr>))]\<rparr>"]) simp
qed

end
