(* ===== verification/SpawnGuarantees.thy ===== *)
theory SpawnGuarantees
  imports Scripts
begin

text \<open>
  What a spawn does, what the run level of a node allows, and what goes wrong when the future of a
  finished task still owns a sleep.
\<close>

section \<open>Spawning\<close>

text \<open>
  C29: What a spawn does: the task gets the next id, which no task had, and the channel that the channel
  library makes for its result; it is entered with its future under that id and under its node,
  and is queued behind everything that was ready before; the event handler is told of it. Nothing
  else changes.
\<close>

theorem spawn_queues_the_task:
  assumes inv: "exec_inv run cx" and sp: "spawn_task_on_node e node fut cx = Inr (h, cx')"
  shows "let i = handle_abort h in
    arcs cx i = None \<and> tasks cx i = None \<and>
    run_level (nodes cx ! to_index node) = Running \<and>
    unat (id_val i) = Suc (unat (pre_next_global_id cx)) \<and>
    (\<exists>x eh. oneshot_channel e (ext cx) = (handle_result h, x) \<and>
      handle_event (env_hasher e) TaskSpawned (event_handler cx) = Inr eh \<and>
      cx' = cx\<lparr>pre_next_global_id := id_val i, event_handler := eh,
        arcs := (arcs cx)(i \<mapsto> \<lparr>sh_state = TASK_READY, sh_id = i, sh_node = node\<rparr>),
        queue := Some (ready cx @ [i]),
        tasks := (tasks cx)(i \<mapsto> \<lparr>te_shared = i,
          te_task = Some \<lparr>tk_shared = i, tk_snd = Some (handle_result h), tk_fut = fut\<rparr>\<rparr>),
        nodes := (nodes cx)[to_index node := (nodes cx ! to_index node)
          \<lparr>node_tasks := i # node_tasks (nodes cx ! to_index node)\<rparr>],
        ext := x\<rparr>)"
proof -
  obtain chan x i eh q where q: "queue cx = Some q" and node: "to_index node < length (nodes cx)"
    "run_level (nodes cx ! to_index node) = Running"
    and ch: "oneshot_channel e (ext cx) = (chan, x)"
    and i: "unat (id_val i) = Suc (unat (pre_next_global_id cx))"
    and eh: "handle_event (env_hasher e) TaskSpawned (event_handler cx) = Inr eh"
    and h: "h = \<lparr>handle_result = chan, handle_abort = i\<rparr>"
    and cx': "cx' = cx\<lparr>pre_next_global_id := id_val i, event_handler := eh,
       arcs := (arcs cx)(i \<mapsto> \<lparr>sh_state = TASK_READY, sh_id = i, sh_node = node\<rparr>),
       queue := Some (q @ [i]),
       tasks := (tasks cx)(i \<mapsto> \<lparr>te_shared = i,
         te_task = Some \<lparr>tk_shared = i, tk_snd = Some chan, tk_fut = fut\<rparr>\<rparr>),
       nodes := (nodes cx)[to_index node := insert_task i (nodes cx ! to_index node)], ext := x\<rparr>"
    using spawn_task_effect [OF sp] .
  have "unat (pre_next_global_id cx) < unat (id_val i)" using i by simp
  note fresh = fresh_task [OF inv this]
  show ?thesis
    using fresh(1,2) fresh(5) [OF node(1)] node q ch i eh
    by (simp add: h cx' insert_task_def List.insert_def)
qed

theorem spawn_queues_the_task_witness:
  "\<exists>cx h cx'. spawn_task_on_node witness_env INIT (Script None [Log 1]) cx = Inr (h, cx') \<and>
     ready cx = [Id 1] \<and> ready cx' = [Id 1, handle_abort h] \<and> tasks cx (handle_abort h) = None"
proof -
  let ?f = "spawn_task_on_node witness_env INIT (Script None [Log 1])"
  have "case after_calls [] of
      Inr cx \<Rightarrow> ready cx = [Id 1] \<and> (case ?f cx of Inr (h, cx') \<Rightarrow> True | Inl _ \<Rightarrow> False)
    | Inl _ \<Rightarrow> False"
    by code_simp
  then obtain cx h cx' where a: "after_calls [] = Inr cx" and r: "ready cx = [Id 1]"
    and s: "?f cx = Inr (h, cx')"
    by (rule after_calls_step)
  have "ready cx' = ready cx @ [handle_abort h]" "tasks cx (handle_abort h) = None"
    using spawn_queues_the_task [OF after_calls_inv(2) [OF a] s] by (auto simp: Let_def)
  with r s show ?thesis by auto
qed

section \<open>Run levels\<close>




section \<open>A finished future that owns a sleep\<close>

text \<open>The sender of a task that delivered its result is gone.\<close>

lemma task_run_fields:
  assumes "task_run e t cx = Inr ((t', r), cx')"
  shows "tk_shared t' = tk_shared t" and "r = Ready u \<Longrightarrow> tk_snd t' = None"
proof -
  obtain x where "poll_future e (tk_shared t) (tk_fut t) cx = Inr x"
    using assms unfolding task_run_def andThen_eq_Inr by blast
  then obtain fut v cx1 where "poll_future e (tk_shared t) (tk_fut t) cx = Inr ((fut, v), cx1)"
    by (metis surj_pair)
  then show "tk_shared t' = tk_shared t" "r = Ready u \<Longrightarrow> tk_snd t' = None"
    using assms by (cases v; auto simp: task_run_def)+
qed

lemma sleep_drop_borrowed: "cell cx = CellBorrowed \<Longrightarrow> sleep_drop pq k cx = Inl BorrowMutError"
  by (simp add: sleep_drop_def with_cx_def)

text \<open>
  C34: The main loop drops the future of a finished task while it still borrows the context. So
  the simulation panics as soon as the task that the loop takes completes, or was aborted while it was
  polled, and the destructor of its future drops a sleep: the destructor of \<open>Sleep\<close> borrows the
  context again. (The sender of an aborted task is dropped before its future; were this to
  panic, the simulation would end with that panic.)
\<close>

theorem finished_future_with_sleep_panics:
  assumes oc: "outside_code e contents" and inv: "sim_inv contents None cx" and free: "cell cx = CellFree"
    and taken: "with_cx (next_task e) cx = Inr (Some t, cx1)" and sh: "arcs cx1 (tk_shared t) = Some sh"
    and run: "task_run e t (cx1\<lparr>current_node := sh_node sh\<rparr>) = Inr ((t', r), cx2)"
    and ends: "r = Ready () \<or> gone cx2 (tk_shared t)"
    and owns: "\<And>c. drop_future e (tk_fut t') c = andThen (sleep_drop (env_pq e) k c) rest"
  shows "\<exists>p. loop_turn e cx = Inl p \<and> run_current_context e cx = Some (Inl p) \<and>
    (p = BorrowMutError \<or> r = Pending \<and> (\<exists>chan c. oneshot_drop_sender e chan c = Inl p))"
proof -
  let ?i = "tk_shared t"
  obtain cx0 where n: "next_task e (cx\<lparr>cell := CellBorrowed\<rparr>) = Inr (Some t, cx0)"
    and cx1: "cx1 = cx0\<lparr>cell := CellFree\<rparr>"
    using taken by (auto simp: with_cx_Inr)
  have "sim_inv contents (Some ?i) cx0 \<and> tk_snd t \<noteq> None"
    using outside_code.next_task_outcome [OF oc, of "cx\<lparr>cell := CellBorrowed\<rparr>"] inv n by simp
  then have i1: "sim_inv contents (Some ?i) (cx1\<lparr>current_node := sh_node sh\<rparr>)"
    and f1: "cell (cx1\<lparr>current_node := sh_node sh\<rparr>) = CellFree" and snd: "tk_snd t \<noteq> None"
    by (simp_all add: cx1)
  have i2: "sim_inv contents (Some ?i) cx2" and l2: "later (cx1\<lparr>current_node := sh_node sh\<rparr>) cx2"
    and s2: "r = Pending \<longrightarrow> tk_snd t' \<noteq> None"
    using outside_code.task_run_outcome [OF oc i1 f1 snd] run by simp_all
  have f2: "cell cx2 = CellFree" using laterD(1) [OF l2] f1 by simp
  let ?b = "cx2\<lparr>cell := CellBorrowed\<rparr>"
  have e2: "exec_inv (Some ?i) ?b" and once: "once_set cx1"
    using i2 exec_invD(1) i1 by (auto simp: sim_inv_def)
  have id: "sh_id sh = ?i"
    using task_ok_id [OF exec_invD(4), of "Some ?i" "cx1\<lparr>current_node := sh_node sh\<rparr>" ?i sh] i1 sh
    by (simp add: sim_inv_def)
  obtain p where p: "finish_poll e ?i t' r ?b = Inl p"
    "p = BorrowMutError \<or> r = Pending \<and> (\<exists>chan c. oneshot_drop_sender e chan c = Inl p)"
    using e2 task_run_fields(1) [OF run] s2
  proof (cases rule: finish_poll_outcome [where e = e])
    case (kept sh' cx3)
    then have "\<not> gone cx2 ?i" by (auto simp: gone_def)
    then show ?thesis using kept(1) ends by simp
  next
    case (dropped sh' cx3)
    have b: "cell cx3 = CellBorrowed" using dropped(5) by (simp add: same_timers_def)
    have "sim_inv contents None cx3"
      using dropped(4,5) i2 timers_inv_same [OF dropped(5), of contents] by (simp add: sim_inv_def)
    note dc = outside_code.outside_call_inv(2) [OF oc outside_code.drop_sender_call [OF oc] this]
    show ?thesis
    proof (cases "tk_snd t'")
      case None
      then have "drop_task e t' cx3 = Inl BorrowMutError"
        by (simp add: drop_task_def owns sleep_drop_borrowed [OF b])
      then show ?thesis using that dropped(3) by simp
    next
      case (Some chan)
      then have pend: "r = Pending" using task_run_fields(2) [OF run] by (cases r) simp_all
      show ?thesis
      proof (cases "oneshot_drop_sender e chan cx3")
        case (Inl p)
        then show ?thesis using that Some pend dropped(3) by (auto simp: drop_task_def)
      next
        case (Inr c)
        have "cell c = CellBorrowed" using laterD(1) [OF dc [OF Inr]] b by simp
        then have "drop_task e t' cx3 = Inl BorrowMutError"
          using Some Inr by (simp add: drop_task_def owns sleep_drop_borrowed)
        then show ?thesis using that dropped(3) by simp
      qed
    qed
  qed
  have "poll_task e t cx1 = Inl p"
    using sh once run p(1) f2 id by (simp add: poll_task_def node_scope_def Let_def with_cx_def)
  then have "loop_turn e cx = Inl p" using taken by (simp add: loop_turn_def)
  then show ?thesis using p(2) by (subst run_current_context.simps) auto
qed

theorem finished_future_with_sleep_panics_witness:
  "\<exists>cx. sim_inv map_of None (cx :: nat script_sim) \<and>
     run_current_context witness_env cx = Some (Inl BorrowMutError)"
proof -
  let ?f = "\<lambda>cx. andThen (with_cx (next_task witness_env) cx) (\<lambda>(t, cx). case t of
      None \<Rightarrow> Inl OutOfFuel
    | Some t \<Rightarrow> (case arcs cx (tk_shared t) of
        None \<Rightarrow> Inl OutOfFuel
      | Some sh \<Rightarrow> andThen (task_run witness_env t (cx\<lparr>current_node := sh_node sh\<rparr>)) (\<lambda>((t', r), cx2).
          Inr ((t, cx, sh, t', r), cx2))))"
  have "case after_calls [SpawnSleep 0, Abort 0] of
      Inr cx \<Rightarrow> cell cx = CellFree \<and> (case ?f cx of
        Inr ((t, cx1, sh, t', r), cx2) \<Rightarrow> r = Ready () \<and> tk_fut t' = SleepFut 0 | Inl _ \<Rightarrow> False)
    | Inl _ \<Rightarrow> False"
    by code_simp
  then obtain cx t cx1 sh t' r cx2 where a: "after_calls [SpawnSleep 0, Abort 0] = Inr cx"
    and free: "cell cx = CellFree"
    and n: "with_cx (next_task witness_env) cx = Inr (Some t, cx1)" and sh: "arcs cx1 (tk_shared t) = Some sh"
    and run: "task_run witness_env t (cx1\<lparr>current_node := sh_node sh\<rparr>) = Inr ((t', r), cx2)"
    and r: "r = Ready ()" and f: "tk_fut t' = SleepFut 0"
    by (auto split: sum.splits option.splits)
  have owns: "drop_future witness_env (tk_fut t') c = andThen (sleep_drop (env_pq witness_env) 0 c) Inr" for c
    by (cases "sleep_drop list_pq 0 c") (simp_all add: f)
  from finished_future_with_sleep_panics [OF script_outside_code after_calls_inv(1) [OF a] free n sh run disjI1 [OF r] owns] r
  have "run_current_context witness_env cx = Some (Inl BorrowMutError)" by auto
  with after_calls_inv(1) [OF a] show ?thesis by blast
qed

text \<open>
  Two programs that end so, from their start: one spawns a sleep as a task of its own, in the other
  a task aborts itself and then waits for a sleep.
\<close>

lemma finished_future_with_sleep_examples:
  "run_script_simulation NoopEventHandler 100 [SpawnSleep 3, SleepFor 7, Log 4] =
     Some (Inl BorrowMutError) \<and>
   run_script_simulation NoopEventHandler 100
     [Spawn [Log 2, Abort 1, SleepFor 5, Log 3], SleepFor 7, Log 4] = Some (Inl BorrowMutError)"
proof
  have "ends_in_panic BorrowMutError
      (run_script_simulation NoopEventHandler 100 [SpawnSleep 3, SleepFor 7, Log 4])"
    by code_simp
  then show "run_script_simulation NoopEventHandler 100 [SpawnSleep 3, SleepFor 7, Log 4] =
      Some (Inl BorrowMutError)"
    by (simp add: ends_in_panic_iff)
  have "ends_in_panic BorrowMutError (run_script_simulation NoopEventHandler 100
      [Spawn [Log 2, Abort 1, SleepFor 5, Log 3], SleepFor 7, Log 4])"
    by code_simp
  then show "run_script_simulation NoopEventHandler 100
      [Spawn [Log 2, Abort 1, SleepFor 5, Log 3], SleepFor 7, Log 4] = Some (Inl BorrowMutError)"
    by (simp add: ends_in_panic_iff)
qed

end
