(* ===== verification/BuilderGuarantees.thy ===== *)
theory BuilderGuarantees
  imports Scripts
begin

text \<open>
  What the builder guarantees: which programs its determinism checks accept, and what the end of
  the root future does.
\<close>

section \<open>The determinism checks of a builder\<close>

lemma later_runs:
  assumes "1 < n"
  shows "(\<forall>es \<in> set (map (\<lambda>i. t ((s ^^ Suc i) g)) [0..<n - 1]). f es = f (t g)) \<longleftrightarrow>
    (\<lambda>i. f (t ((s ^^ i) g))) ` {..<n} \<subseteq> {f (t g)}"
proof -
  obtain m where n: "n = Suc m" using assms by (cases n) auto
  have "(\<lambda>i. f (t ((s ^^ i) g))) ` {..<n} = insert (f (t g)) ((\<lambda>i. f (t ((s ^^ Suc i) g))) ` {..<m})"
    unfolding n lessThan_Suc_eq_insert_0 by (auto simp del: funpow.simps(2))
  then show ?thesis by (simp add: n image_subset_iff atLeast0LessThan del: funpow.simps(2))
qed

lemma checked_run_few: "\<not> 1 < n \<Longrightarrow> checked_run rec ch n run g = Some (Inl AssertFailed)"
  by (simp add: checked_run_def)

text \<open>
  C27: The determinism checks of a builder are exact. For a program whose runs report the events
  \<open>trace g\<close> from the process state \<open>g\<close> on, the full check with \<open>n\<close> iterations passes exactly when
  \<open>n\<close> is at least two and all \<open>n\<close> runs report the same events, and the hash check when all have
  the digest of the first; a check that passes returns the output of the first run.
\<close>

theorem builder_checks_are_exact:
  "(\<exists>r. builder_run hs (CheckFull n) (traced_run hs trace elapsed succ) g = Some (Inr r)) =
     (1 < n \<and> (\<lambda>i. trace ((succ ^^ i) g)) ` {..<n} \<subseteq> {trace g}) \<and>
   (\<exists>r. builder_run hs (CheckHash n) (traced_run hs trace elapsed succ) g = Some (Inr r)) =
     (1 < n \<and> (\<lambda>i. events_digest hs (trace ((succ ^^ i) g))) ` {..<n} \<subseteq> {events_digest hs (trace g)}) \<and>
   {r. builder_run hs (CheckFull n) (traced_run hs trace elapsed succ) g = Some (Inr r)} \<subseteq>
     {(\<lparr>time_elapsed = elapsed g, out_events = AnyUnit\<rparr>, (succ ^^ n) g)}"
proof (cases "1 < n")
  case True
  let ?rest = "map (\<lambda>i. trace ((succ ^^ Suc i) g)) [0..<n - 1]"
  let ?full = "check_runs (handle_event hs) (finalize hs) (full_recorder hs) (full_checker hs) (trace g) ?rest"
  let ?hash = "check_runs (handle_event hs) (finalize hs) (hash_recorder hs) (hash_checker hs) (trace g) ?rest"
  have f: "builder_run hs (CheckFull n) (traced_run hs trace elapsed succ) g =
      Some (andThen ?full (\<lambda>_. Inr (\<lparr>time_elapsed = elapsed g, out_events = AnyUnit\<rparr>, (succ ^^ n) g)))"
    by (simp only: builder_run.simps) (rule checked_run_traced [OF full.determinism_check_axioms True])
  have h: "builder_run hs (CheckHash n) (traced_run hs trace elapsed succ) g =
      Some (andThen ?hash (\<lambda>_. Inr (\<lparr>time_elapsed = elapsed g, out_events = AnyUnit\<rparr>, (succ ^^ n) g)))"
    by (simp only: builder_run.simps) (rule checked_run_traced [OF hashed.determinism_check_axioms True])
  have F: "?full = Inr () \<longleftrightarrow> (\<lambda>i. trace ((succ ^^ i) g)) ` {..<n} \<subseteq> {trace g}"
    unfolding full.check_runs_exact using later_runs [OF True, of trace succ g "\<lambda>x. x"] .
  have H: "?hash = Inr () \<longleftrightarrow>
      (\<lambda>i. events_digest hs (trace ((succ ^^ i) g))) ` {..<n} \<subseteq> {events_digest hs (trace g)}"
    unfolding hashed.check_runs_accepts eq_commute [of "events_digest hs (trace g)"]
    using later_runs [OF True, of trace succ g "events_digest hs"] .
  show ?thesis unfolding f h using True F H by (auto simp del: One_nat_def)
qed (simp add: checked_run_few)

section \<open>The root future\<close>

text \<open>
  C28: The end of the root future is the end of the simulation. When its poll returns the future's
  value, it has given the value out before it stops the simulation; then no node runs, the loop
  takes no task, and the block holds the future no more. While the future waits, so does the block,
  which has done nothing else; and a second value is refused.
\<close>

theorem root_future_ends_the_simulation:
  assumes oc: "outside_code e contents" and inv: "sim_inv contents run cx" and w: "arcs cx w \<noteq> None"
    and poll: "root_poll e ro w (RootAwaiting fut) cx = Inr ((r, res), cx')"
  shows "\<exists>fut1 v cx1. poll_future e w fut cx = Inr ((fut1, v), cx1) \<and>
    (case v of
       Pending \<Rightarrow> r = RootAwaiting fut1 \<and> res = Pending \<and> cx' = cx1
     | Ready v \<Rightarrow> r = RootDone \<and> res = Ready () \<and> final_stopped cx' \<and>
         next_task e cx' = Inr (None, cx') \<and>
         (\<forall>k < length (nodes cx'). run_level (nodes cx' ! k) = FinalStopped) \<and>
         (\<exists>cx2 cx3. drop_future e fut1 cx1 = Inr cx2 \<and> ret_value (get_ret ro (ext cx2)) = None \<and>
            stop_simulation e (cx2\<lparr>ext := put_ret ro
              (get_ret ro (ext cx2)\<lparr>ret_value := Some v\<rparr>) (ext cx2)\<rparr>) = Inr ((), cx3) \<and>
            cx' = release_output ro cx3))"
proof -
  obtain fut1 v cx1 where p: "poll_future e w fut cx = Inr ((fut1, v), cx1)"
    and rest: "(case v of
       Pending \<Rightarrow> Inr ((RootAwaiting fut1, Pending), cx1)
     | Ready v \<Rightarrow>
         andThen (drop_future e fut1 cx1) (\<lambda>cx.
         andThen (set_output ro v cx) (\<lambda>cx.
         andThen (stop_simulation e cx) (\<lambda>(_, cx).
         Inr ((RootDone, Ready ()), release_output ro cx))))) = Inr ((r, res), cx')"
    using poll by auto
  show ?thesis
  proof (cases v)
    case (Ready a)
    then obtain cx2 cx3 where d: "drop_future e fut1 cx1 = Inr cx2"
      and free: "ret_value (get_ret ro (ext cx2)) = None"
      and s: "stop_simulation e (cx2\<lparr>ext := put_ret ro
        (get_ret ro (ext cx2)\<lparr>ret_value := Some a\<rparr>) (ext cx2)\<rparr>) = Inr ((), cx3)"
      and r: "r = RootDone" "res = Ready ()" "cx' = release_output ro cx3"
      using rest by (auto simp: set_output_def Let_def split: if_splits)
    let ?cx = "cx2\<lparr>ext := put_ret ro (get_ret ro (ext cx2)\<lparr>ret_value := Some a\<rparr>) (ext cx2)\<rparr>"
    have "outside_call e cx cx2"
      using outside_code.poll_call [OF oc p w] outside_code.drop_call [OF oc d] outside_call_trans by blast
    then have "outside_call e cx ?cx" by (rule outside_call_trans [OF _ ext_call])
    then have "sim_inv contents run ?cx" by (rule outside_code.outside_call_inv(1) [OF oc _ inv])
    note lev = outside_code.stop_simulation_levels [OF oc this s]
    show ?thesis
      using p Ready d free s r lev by (auto simp: release_output_def Let_def next_task_def)
  qed (use p rest in auto)
qed

theorem root_future_ends_the_simulation_witness:
  "\<exists>cx cx'. root_poll witness_env script_root (Id 1) (RootAwaiting (Script None [Log 7])) cx =
     Inr ((RootDone, Ready ()), cx') \<and> log (ext cx') = [7] \<and> final_stopped cx' \<and>
     ret_value (main_output (ext cx')) = Some ()"
proof -
  let ?f = "root_poll witness_env script_root (Id 1) (RootAwaiting (Script None [Log 7]))"
  have "case after_calls [] of
      Inr cx \<Rightarrow> arcs cx (Id 1) \<noteq> None \<and>
        (case ?f cx of Inr ((r, res), cx') \<Rightarrow> r = RootDone \<and> log (ext cx') = [7] \<and>
           ret_value (main_output (ext cx')) = Some () | Inl _ \<Rightarrow> False)
    | Inl _ \<Rightarrow> False"
    by code_simp
  then obtain cx a cx' where c: "after_calls [] = Inr cx" and w: "arcs cx (Id 1) \<noteq> None"
    and p: "?f cx = Inr (a, cx')" and q: "case a of (r, res) \<Rightarrow> r = RootDone \<and> log (ext cx') = [7] \<and>
           ret_value (main_output (ext cx')) = Some ()"
    by (rule after_calls_step) (auto split: prod.splits)
  obtain r res where a: "a = (r, res)" by (cases a)
  from root_future_ends_the_simulation [OF script_outside_code after_calls_inv(1) [OF c] w p [unfolded a]]
    q a p show ?thesis
    by (intro exI [of _ cx] exI [of _ cx']) (auto split: poll.splits)
qed

end
