(* ===== verification/SendBind.thy ===== *)
theory SendBind
  imports World
begin

text \<open>
  \<open>src/send_bind.rs\<close> and \<open>src/send_bind_util.rs\<close>: values that check on every access that they are
  still on the node or in the simulation in which they were made. The check of \<open>NodeBound\<close> reads the
  current node; that of \<open>SimBound\<close> reads the field \<open>thread_anchor\<close> of \<open>SimCxu\<close>, which nothing else
  reads and which is an argument here: \<open>None\<close> if the \<open>once_cell\<close> of the thread is not set.
\<close>

section \<open>Outcomes of destructors\<close>

text \<open>
  What a destructor that panics has done before matters here, so these outcomes keep the state of a
  panic; and the process may abort. A panic that leaves a destructor while another panic unwinds the
  stack aborts the process.
\<close>

datatype ('a, 'c) outcome = Returned 'a 'c | Panicked panic 'c | Aborted

fun unwinding :: "panic \<Rightarrow> (unit, 'c) outcome \<Rightarrow> ('a, 'c) outcome" where
  "unwinding p (Returned _ c) = Panicked p c"
| "unwinding p (Panicked _ _) = Aborted"
| "unwinding p Aborted = Aborted"

section \<open>Values bound to a node\<close>

record 't node_bound =
  nb_node :: node_id
  nb_inner :: 't

definition node_bound_from ::
  "'t \<Rightarrow> ('h, 'q, 'f, 's, 'x) sim \<Rightarrow> panic + 't node_bound" where
  "node_bound_from v cx =
     andThen (cx_current_node cx) (\<lambda>node. Inr \<lparr>nb_node = node, nb_inner = v\<rparr>)"

definition node_bound_check ::
  "'t node_bound \<Rightarrow> ('h, 'q, 'f, 's, 'x) sim \<Rightarrow> panic + unit" where
  "node_bound_check b cx =
     andThen (cx_current_node cx) (\<lambda>node. if nb_node b = node then Inr () else Inl AssertFailed)"

text \<open>
  \<open>Drop\<close>: the guard runs the destructor \<open>d\<close> of the value after the check, whether the check
  returned or panicked.
\<close>

definition node_bound_drop ::
  "('t \<Rightarrow> ('h, 'q, 'f, 's, 'x) sim \<Rightarrow> (unit, ('h, 'q, 'f, 's, 'x) sim) outcome) \<Rightarrow>
    't node_bound \<Rightarrow> ('h, 'q, 'f, 's, 'x) sim \<Rightarrow> (unit, ('h, 'q, 'f, 's, 'x) sim) outcome" where
  "node_bound_drop d b cx =
     (case node_bound_check b cx of
        Inr _ \<Rightarrow> d (nb_inner b) cx
      | Inl p \<Rightarrow> unwinding p (d (nb_inner b) cx))"

text \<open>\<open>unwrap_node_bound\<close> owns the value: if the check panics, \<open>self\<close> is dropped on the way out.\<close>

definition node_bound_unwrap ::
  "('t \<Rightarrow> ('h, 'q, 'f, 's, 'x) sim \<Rightarrow> (unit, ('h, 'q, 'f, 's, 'x) sim) outcome) \<Rightarrow>
    't node_bound \<Rightarrow> ('h, 'q, 'f, 's, 'x) sim \<Rightarrow> ('t, ('h, 'q, 'f, 's, 'x) sim) outcome" where
  "node_bound_unwrap d b cx =
     (case node_bound_check b cx of
        Inr _ \<Rightarrow> Returned (nb_inner b) cx
      | Inl p \<Rightarrow> unwinding p (node_bound_drop d b cx))"

definition node_bound_deref ::
  "'t node_bound \<Rightarrow> ('h, 'q, 'f, 's, 'x) sim \<Rightarrow> panic + 't" where
  "node_bound_deref b cx = andThen (node_bound_check b cx) (\<lambda>_. Inr (nb_inner b))"

text \<open>Writing through \<open>deref_mut\<close>.\<close>

definition node_bound_deref_mut ::
  "('t \<Rightarrow> 't) \<Rightarrow> 't node_bound \<Rightarrow> ('h, 'q, 'f, 's, 'x) sim \<Rightarrow> panic + 't node_bound" where
  "node_bound_deref_mut f b cx =
     andThen (node_bound_check b cx) (\<lambda>_. Inr (b\<lparr>nb_inner := f (nb_inner b)\<rparr>))"

text \<open>
  Polling a bound future: \<open>as_pin_mut\<close> goes through \<open>deref_mut\<close>, so the check is made first. The
  argument polls the future inside.
\<close>

definition node_bound_poll ::
  "('t \<Rightarrow> ('h, 'q, 'f, 's, 'x) sim \<Rightarrow> panic + ('t \<times> 'r) \<times> ('h, 'q, 'f, 's, 'x) sim) \<Rightarrow>
    't node_bound \<Rightarrow> ('h, 'q, 'f, 's, 'x) sim \<Rightarrow>
    panic + ('t node_bound \<times> 'r) \<times> ('h, 'q, 'f, 's, 'x) sim" where
  "node_bound_poll f b cx =
     andThen (node_bound_check b cx) (\<lambda>_.
     andThen (f (nb_inner b) cx) (\<lambda>((t, r), cx). Inr ((b\<lparr>nb_inner := t\<rparr>, r), cx)))"

section \<open>Anchors\<close>

text \<open>
  \<open>ThreadAnchor::new\<close>: \<open>NEXT\<close> is a static of the process, and the argument is its value. The
  update is atomic and refuses to overflow.
\<close>

definition thread_anchor_new :: "bool \<Rightarrow> u64 \<Rightarrow> panic + u64 \<times> u64" where
  "thread_anchor_new chk next_id =
     andThen (unwrap (u64_checked_add next_id 1)) (\<lambda>next'.
     andThen (u64_add chk next_id 1) (\<lambda>id.
     andThen (nonzero id) (\<lambda>id. Inr (id, next'))))"

section \<open>Values bound to a simulation\<close>

record 't sim_bound =
  sb_inner :: 't
  sb_id :: u64

definition current_anchor :: "u64 option \<Rightarrow> panic + u64" where
  "current_anchor anchor = unwrap anchor"

definition sim_bound_from :: "u64 option \<Rightarrow> 't \<Rightarrow> panic + 't sim_bound" where
  "sim_bound_from anchor v =
     andThen (current_anchor anchor) (\<lambda>id. Inr \<lparr>sb_inner = v, sb_id = id\<rparr>)"

definition sim_bound_check :: "u64 option \<Rightarrow> 't sim_bound \<Rightarrow> panic + unit" where
  "sim_bound_check anchor b =
     andThen (current_anchor anchor) (\<lambda>id. if sb_id b = id then Inr () else Inl AssertFailed)"

text \<open>\<open>Drop\<close>: the check runs under \<open>abort_unwind\<close>, so a panic of it aborts the process.\<close>

definition sim_bound_drop ::
  "('t \<Rightarrow> 'c \<Rightarrow> (unit, 'c) outcome) \<Rightarrow> u64 option \<Rightarrow> 't sim_bound \<Rightarrow> 'c \<Rightarrow> (unit, 'c) outcome" where
  "sim_bound_drop d anchor b cx =
     (case sim_bound_check anchor b of
        Inl _ \<Rightarrow> Aborted
      | Inr _ \<Rightarrow> d (sb_inner b) cx)"

definition sim_bound_unwrap ::
  "('t \<Rightarrow> 'c \<Rightarrow> (unit, 'c) outcome) \<Rightarrow> u64 option \<Rightarrow> 't sim_bound \<Rightarrow> 'c \<Rightarrow> ('t, 'c) outcome" where
  "sim_bound_unwrap d anchor b cx =
     (case sim_bound_check anchor b of
        Inr _ \<Rightarrow> Returned (sb_inner b) cx
      | Inl p \<Rightarrow> unwinding p (sim_bound_drop d anchor b cx))"

definition sim_bound_deref :: "u64 option \<Rightarrow> 't sim_bound \<Rightarrow> panic + 't" where
  "sim_bound_deref anchor b = andThen (sim_bound_check anchor b) (\<lambda>_. Inr (sb_inner b))"

definition sim_bound_deref_mut ::
  "('t \<Rightarrow> 't) \<Rightarrow> u64 option \<Rightarrow> 't sim_bound \<Rightarrow> panic + 't sim_bound" where
  "sim_bound_deref_mut f anchor b =
     andThen (sim_bound_check anchor b) (\<lambda>_. Inr (b\<lparr>sb_inner := f (sb_inner b)\<rparr>))"

definition sim_bound_poll ::
  "('t \<Rightarrow> 'c \<Rightarrow> panic + ('t \<times> 'r) \<times> 'c) \<Rightarrow> u64 option \<Rightarrow> 't sim_bound \<Rightarrow> 'c \<Rightarrow>
    panic + ('t sim_bound \<times> 'r) \<times> 'c" where
  "sim_bound_poll f anchor b cx =
     andThen (sim_bound_check anchor b) (\<lambda>_.
     andThen (f (sb_inner b) cx) (\<lambda>((t, r), cx). Inr ((b\<lparr>sb_inner := t\<rparr>, r), cx)))"

text \<open>
  The derived \<open>Clone\<close> clones the fields one by one: the value inside is cloned, by \<open>cl\<close>, without a
  look at the thread.
\<close>

definition sim_bound_clone ::
  "('t \<Rightarrow> 'c \<Rightarrow> panic + 't \<times> 'c) \<Rightarrow> 't sim_bound \<Rightarrow> 'c \<Rightarrow> panic + 't sim_bound \<times> 'c" where
  "sim_bound_clone cl b cx =
     andThen (cl (sb_inner b) cx) (\<lambda>(v, cx). Inr (\<lparr>sb_inner = v, sb_id = sb_id b\<rparr>, cx))"

definition node_bound_clone ::
  "('t \<Rightarrow> 'c \<Rightarrow> panic + 't \<times> 'c) \<Rightarrow> 't node_bound \<Rightarrow> 'c \<Rightarrow> panic + 't node_bound \<times> 'c" where
  "node_bound_clone cl b cx =
     andThen (cl (nb_inner b) cx) (\<lambda>(v, cx). Inr (\<lparr>nb_node = nb_node b, nb_inner = v\<rparr>, cx))"

section \<open>Values bound to both\<close>

type_synonym 't sim_node_bound = "'t node_bound sim_bound"

definition sim_node_bound ::
  "u64 option \<Rightarrow> 't \<Rightarrow> ('h, 'q, 'f, 's, 'x) sim \<Rightarrow> panic + 't sim_node_bound" where
  "sim_node_bound anchor v cx =
     andThen (node_bound_from v cx) (\<lambda>b. sim_bound_from anchor b)"

text \<open>What the nesting of the two wrappers gives, for their drop, poll and unwrap.\<close>

definition sim_node_bound_drop ::
  "('t \<Rightarrow> ('h, 'q, 'f, 's, 'x) sim \<Rightarrow> (unit, ('h, 'q, 'f, 's, 'x) sim) outcome) \<Rightarrow> u64 option \<Rightarrow>
    't sim_node_bound \<Rightarrow> ('h, 'q, 'f, 's, 'x) sim \<Rightarrow>
    (unit, ('h, 'q, 'f, 's, 'x) sim) outcome" where
  "sim_node_bound_drop d = sim_bound_drop (node_bound_drop d)"

definition sim_node_bound_poll ::
  "('t \<Rightarrow> ('h, 'q, 'f, 's, 'x) sim \<Rightarrow> panic + ('t \<times> 'r) \<times> ('h, 'q, 'f, 's, 'x) sim) \<Rightarrow> u64 option \<Rightarrow>
    't sim_node_bound \<Rightarrow> ('h, 'q, 'f, 's, 'x) sim \<Rightarrow>
    panic + ('t sim_node_bound \<times> 'r) \<times> ('h, 'q, 'f, 's, 'x) sim" where
  "sim_node_bound_poll f = sim_bound_poll (node_bound_poll f)"

text \<open>\<open>unwrap_sim_bound().unwrap_node_bound()\<close>.\<close>

definition sim_node_bound_unwrap ::
  "('t \<Rightarrow> ('h, 'q, 'f, 's, 'x) sim \<Rightarrow> (unit, ('h, 'q, 'f, 's, 'x) sim) outcome) \<Rightarrow> u64 option \<Rightarrow>
    't sim_node_bound \<Rightarrow> ('h, 'q, 'f, 's, 'x) sim \<Rightarrow> ('t, ('h, 'q, 'f, 's, 'x) sim) outcome" where
  "sim_node_bound_unwrap d anchor b cx =
     (case sim_bound_unwrap (node_bound_drop d) anchor b cx of
        Returned nb cx \<Rightarrow> node_bound_unwrap d nb cx
      | Panicked p cx \<Rightarrow> Panicked p cx
      | Aborted \<Rightarrow> Aborted)"

end
