(* ===== verification/Agnostic.thy ===== *)
theory Agnostic
  imports SendBind Executor
begin

text \<open>
  \<open>src/agnostic_lite.rs\<close>, \<open>agnostic_lite/timeout.rs\<close> and \<open>agnostic_lite/joinhandle.rs\<close>: the runtime
  for the interface of the \<open>agnostic-lite\<close> crate. Its sleeps and join handles are those of the
  runtime, bound to the node and the simulation. The argument \<open>anchor\<close> is the thread's anchor, as in
  \<open>SendBind\<close>. Outside of a simulation these operations panic; that the destructor of a sleep which was
  already made panics then as well, and so aborts the process, is left out. What the source leaves to \<open>todo!()\<close> and \<open>unimplemented!()\<close> is a panic here.
\<close>

section \<open>Sleeps\<close>

text \<open>\<open>SimRuntime::new\<close> checks that a simulation runs.\<close>

definition runtime_new :: "('h, 'q, 'f, 's, 'x) sim \<Rightarrow> panic + unit" where
  "runtime_new cx = (if once_set cx then Inr () else Inl UnwrapNone)"

text \<open>\<open>SimRuntime::name\<close>: what follows the last colon of the type's name, an argument.\<close>

definition runtime_name :: "string \<Rightarrow> string" where
  "runtime_name fqname = rev (takeWhile (\<lambda>c. c \<noteq> CHR '':'') (rev fqname))"

definition runtime_sleep_until ::
  "u64 option \<Rightarrow> instant \<Rightarrow> ('h, 'q, 'f, 's, 'x) sim \<Rightarrow>
    panic + nat sim_node_bound \<times> ('h, 'q, 'f, 's, 'x) sim" where
  "runtime_sleep_until anchor deadline cx =
     (let (k, cx) = sleep_until deadline cx in
      andThen (sim_node_bound anchor k cx) (\<lambda>b. Inr (b, cx)))"

definition runtime_sleep ::
  "u64 option \<Rightarrow> instant \<Rightarrow> duration \<Rightarrow> ('h, 'q, 'f, 's, 'x) sim \<Rightarrow>
    panic + nat sim_node_bound \<times> ('h, 'q, 'f, 's, 'x) sim" where
  "runtime_sleep anchor real_clock d cx =
     andThen (sleep real_clock d cx) (\<lambda>(k, cx).
     andThen (sim_node_bound anchor k cx) (\<lambda>b. Inr (b, cx)))"

text \<open>The local variants are the same.\<close>

definition runtime_sleep_local ::
  "u64 option \<Rightarrow> instant \<Rightarrow> duration \<Rightarrow> ('h, 'q, 'f, 's, 'x) sim \<Rightarrow>
    panic + nat sim_node_bound \<times> ('h, 'q, 'f, 's, 'x) sim" where
  "runtime_sleep_local = runtime_sleep"

definition runtime_sleep_local_until ::
  "u64 option \<Rightarrow> instant \<Rightarrow> ('h, 'q, 'f, 's, 'x) sim \<Rightarrow>
    panic + nat sim_node_bound \<times> ('h, 'q, 'f, 's, 'x) sim" where
  "runtime_sleep_local_until = runtime_sleep_until"

text \<open>\<open>yield_now\<close>: a sleep until now, of which \<open>map(drop)\<close> throws the result away.\<close>

definition runtime_yield_now ::
  "u64 option \<Rightarrow> instant \<Rightarrow> ('h, 'q, 'f, 's, 'x) sim \<Rightarrow>
    panic + nat sim_node_bound \<times> ('h, 'q, 'f, 's, 'x) sim" where
  "runtime_yield_now anchor real_clock cx =
     runtime_sleep_until anchor (instant_now real_clock cx) cx"

text \<open>Both methods of \<open>Yielder\<close> for \<open>Spawner\<close>.\<close>

definition spawner_yield_now ::
  "u64 option \<Rightarrow> instant \<Rightarrow> ('h, 'q, 'f, 's, 'x) sim \<Rightarrow>
    panic + nat sim_node_bound \<times> ('h, 'q, 'f, 's, 'x) sim" where
  "spawner_yield_now = runtime_yield_now"

definition bound_sleep_poll ::
  "'q pq_ops \<Rightarrow> id \<Rightarrow> u64 option \<Rightarrow> nat sim_node_bound \<Rightarrow> ('h, 'q, 'f, 's, 'x) sim \<Rightarrow>
    panic + (nat sim_node_bound \<times> instant poll) \<times> ('h, 'q, 'f, 's, 'x) sim" where
  "bound_sleep_poll pq w =
     sim_node_bound_poll (\<lambda>k cx. andThen (sleep_poll pq k w cx) (\<lambda>(r, cx). Inr ((k, r), cx)))"

text \<open>The destructor of a sleep; when it panics it has changed nothing.\<close>

definition sleep_destructor ::
  "'q pq_ops \<Rightarrow> nat \<Rightarrow> ('h, 'q, 'f, 's, 'x) sim \<Rightarrow> (unit, ('h, 'q, 'f, 's, 'x) sim) outcome" where
  "sleep_destructor pq k cx =
     (case sleep_drop pq k cx of Inl p \<Rightarrow> Panicked p cx | Inr cx \<Rightarrow> Returned () cx)"

text \<open>\<open>AsyncLocalSleep::reset\<close>: the new sleep is made before the old one is dropped.\<close>

definition runtime_sleep_reset ::
  "'q pq_ops \<Rightarrow> u64 option \<Rightarrow> instant \<Rightarrow> nat sim_node_bound \<Rightarrow> ('h, 'q, 'f, 's, 'x) sim \<Rightarrow>
    (nat sim_node_bound, ('h, 'q, 'f, 's, 'x) sim) outcome" where
  "runtime_sleep_reset pq anchor deadline b cx =
     (case runtime_sleep_until anchor deadline cx of
        Inl p \<Rightarrow> Panicked p cx
      | Inr (b', cx) \<Rightarrow>
          (case sim_node_bound_drop (sleep_destructor pq) anchor b cx of
             Returned _ cx \<Rightarrow> Returned b' cx
           | Panicked p cx \<Rightarrow> Panicked p cx
           | Aborted \<Rightarrow> Aborted))"

section \<open>Timeouts\<close>

datatype elapsed = Elapsed

record 'f timeout =
  to_fut :: 'f
  to_sleep :: "nat sim_node_bound"

text \<open>The constructors of \<open>AsyncTimeout\<close>.\<close>

definition timeout_at ::
  "u64 option \<Rightarrow> instant \<Rightarrow> 'f \<Rightarrow> ('h, 'q, 'f, 's, 'x) sim \<Rightarrow>
    panic + 'f timeout \<times> ('h, 'q, 'f, 's, 'x) sim" where
  "timeout_at anchor deadline fut cx =
     andThen (runtime_sleep_until anchor deadline cx) (\<lambda>(b, cx).
     Inr (\<lparr>to_fut = fut, to_sleep = b\<rparr>, cx))"

definition timeout_after ::
  "u64 option \<Rightarrow> instant \<Rightarrow> duration \<Rightarrow> 'f \<Rightarrow> ('h, 'q, 'f, 's, 'x) sim \<Rightarrow>
    panic + 'f timeout \<times> ('h, 'q, 'f, 's, 'x) sim" where
  "timeout_after anchor real_clock d fut cx =
     andThen (instant_add (instant_now real_clock cx) d) (\<lambda>deadline. timeout_at anchor deadline fut cx)"

text \<open>Those of \<open>AsyncLocalTimeout\<close>, and the methods of the runtime.\<close>

definition timeout_local_at ::
  "u64 option \<Rightarrow> instant \<Rightarrow> 'f \<Rightarrow> ('h, 'q, 'f, 's, 'x) sim \<Rightarrow>
    panic + 'f timeout \<times> ('h, 'q, 'f, 's, 'x) sim" where
  "timeout_local_at anchor deadline fut cx =
     andThen (runtime_sleep_until anchor deadline cx) (\<lambda>(b, cx).
     Inr (\<lparr>to_fut = fut, to_sleep = b\<rparr>, cx))"

definition timeout_local ::
  "u64 option \<Rightarrow> instant \<Rightarrow> duration \<Rightarrow> 'f \<Rightarrow> ('h, 'q, 'f, 's, 'x) sim \<Rightarrow>
    panic + 'f timeout \<times> ('h, 'q, 'f, 's, 'x) sim" where
  "timeout_local anchor real_clock d fut cx =
     andThen (instant_add (instant_now real_clock cx) d) (\<lambda>deadline.
     timeout_local_at anchor deadline fut cx)"

definition runtime_timeout ::
  "u64 option \<Rightarrow> instant \<Rightarrow> duration \<Rightarrow> 'f \<Rightarrow> ('h, 'q, 'f, 's, 'x) sim \<Rightarrow>
    panic + 'f timeout \<times> ('h, 'q, 'f, 's, 'x) sim" where
  "runtime_timeout = timeout_after"

definition runtime_timeout_at ::
  "u64 option \<Rightarrow> instant \<Rightarrow> 'f \<Rightarrow> ('h, 'q, 'f, 's, 'x) sim \<Rightarrow>
    panic + 'f timeout \<times> ('h, 'q, 'f, 's, 'x) sim" where
  "runtime_timeout_at = timeout_at"

definition runtime_timeout_local ::
  "u64 option \<Rightarrow> instant \<Rightarrow> duration \<Rightarrow> 'f \<Rightarrow> ('h, 'q, 'f, 's, 'x) sim \<Rightarrow>
    panic + 'f timeout \<times> ('h, 'q, 'f, 's, 'x) sim" where
  "runtime_timeout_local = timeout_local"

definition runtime_timeout_local_at ::
  "u64 option \<Rightarrow> instant \<Rightarrow> 'f \<Rightarrow> ('h, 'q, 'f, 's, 'x) sim \<Rightarrow>
    panic + 'f timeout \<times> ('h, 'q, 'f, 's, 'x) sim" where
  "runtime_timeout_local_at = timeout_local_at"

definition timeout_poll ::
  "('h, 'q, 'f, 's, 'x, 'v) env \<Rightarrow> id \<Rightarrow> u64 option \<Rightarrow> 'f timeout \<Rightarrow> ('h, 'q, 'f, 's, 'x) sim \<Rightarrow>
    panic + ('f timeout \<times> (elapsed + 'v) poll) \<times> ('h, 'q, 'f, 's, 'x) sim" where
  "timeout_poll e w anchor to cx =
     andThen (bound_sleep_poll (env_pq e) w anchor (to_sleep to) cx) (\<lambda>((b, r), cx).
     let to = to\<lparr>to_sleep := b\<rparr> in
     case r of
       Ready _ \<Rightarrow> Inr ((to, Ready (Inl Elapsed)), cx)
     | Pending \<Rightarrow>
         andThen (poll_future e w (to_fut to) cx) (\<lambda>((fut, r), cx).
         Inr ((to\<lparr>to_fut := fut\<rparr>, case r of Ready x \<Rightarrow> Ready (Inr x) | Pending \<Rightarrow> Pending), cx)))"

section \<open>Join handles\<close>

type_synonym join_handle = "task_handle sim_node_bound"

text \<open>\<open>AsyncSpawner::spawn\<close>, and \<open>AsyncLocalSpawner::spawn_local\<close>, which has the same text.\<close>

definition runtime_spawn ::
  "('h, 'q, 'f, 's, 'x, 'v) env \<Rightarrow> u64 option \<Rightarrow> 'f \<Rightarrow> ('h, 'q, 'f, 's, 'x) sim \<Rightarrow>
    panic + join_handle \<times> ('h, 'q, 'f, 's, 'x) sim" where
  "runtime_spawn e anchor fut cx =
     andThen (spawn e fut cx) (\<lambda>(h, cx).
     andThen (sim_node_bound anchor h cx) (\<lambda>b. Inr (b, cx)))"

definition runtime_spawn_local ::
  "('h, 'q, 'f, 's, 'x, 'v) env \<Rightarrow> u64 option \<Rightarrow> 'f \<Rightarrow> ('h, 'q, 'f, 's, 'x) sim \<Rightarrow>
    panic + join_handle \<times> ('h, 'q, 'f, 's, 'x) sim" where
  "runtime_spawn_local e anchor fut cx =
     andThen (spawn e fut cx) (\<lambda>(h, cx).
     andThen (sim_node_bound anchor h cx) (\<lambda>b. Inr (b, cx)))"

text \<open>
  \<open>spawn_after\<close> and \<open>spawn_after_at\<close> of \<open>Spawner\<close> call the methods of the runtime with their names,
  which are default methods of the \<open>agnostic-lite\<close> crate: the first argument here.
\<close>

definition spawner_spawn_after ::
  "(duration \<Rightarrow> 'f \<Rightarrow> ('h, 'q, 'f, 's, 'x) sim \<Rightarrow> panic + join_handle \<times> ('h, 'q, 'f, 's, 'x) sim) \<Rightarrow>
    duration \<Rightarrow> 'f \<Rightarrow> ('h, 'q, 'f, 's, 'x) sim \<Rightarrow> panic + join_handle \<times> ('h, 'q, 'f, 's, 'x) sim" where
  "spawner_spawn_after spawn_after d fut cx = spawn_after d fut cx"

definition spawner_spawn_after_at ::
  "(instant \<Rightarrow> 'f \<Rightarrow> ('h, 'q, 'f, 's, 'x) sim \<Rightarrow> panic + join_handle \<times> ('h, 'q, 'f, 's, 'x) sim) \<Rightarrow>
    instant \<Rightarrow> 'f \<Rightarrow> ('h, 'q, 'f, 's, 'x) sim \<Rightarrow> panic + join_handle \<times> ('h, 'q, 'f, 's, 'x) sim" where
  "spawner_spawn_after_at spawn_after_at deadline fut cx = spawn_after_at deadline fut cx"

definition join_poll ::
  "('h, 'q, 'f, 's, 'x, 'v) env \<Rightarrow> id \<Rightarrow> u64 option \<Rightarrow> join_handle \<Rightarrow> ('h, 'q, 'f, 's, 'x) sim \<Rightarrow>
    panic + (join_handle \<times> (task_aborted + 'v) poll) \<times> ('h, 'q, 'f, 's, 'x) sim" where
  "join_poll e w =
     sim_node_bound_poll (\<lambda>h cx. andThen (task_handle_poll e h w cx) (\<lambda>(r, cx). Inr ((h, r), cx)))"

text \<open>
  \<open>abort\<close> and \<open>detach\<close> take the handle out of its wrappers first. The destructor of a task handle is
  that of the receiving half of its channel, which is an argument. A panic of \<open>abort_inner\<close> runs it
  on the way out; the state that such a panic left is not known, the state before stands for it.
\<close>

definition join_abort ::
  "('h, 'q, 'f, 's, 'x, 'v) env \<Rightarrow>
    (task_handle \<Rightarrow> ('h, 'q, 'f, 's, 'x) sim \<Rightarrow> (unit, ('h, 'q, 'f, 's, 'x) sim) outcome) \<Rightarrow> u64 option \<Rightarrow>
    join_handle \<Rightarrow> ('h, 'q, 'f, 's, 'x) sim \<Rightarrow> (unit, ('h, 'q, 'f, 's, 'x) sim) outcome" where
  "join_abort e d anchor b cx =
     (case sim_node_bound_unwrap d anchor b cx of
        Returned h cx \<Rightarrow>
          (case task_handle_abort e h cx of
             Inl p \<Rightarrow> unwinding p (d h cx)
           | Inr (_, cx) \<Rightarrow> d h cx)
      | Panicked p cx \<Rightarrow> Panicked p cx
      | Aborted \<Rightarrow> Aborted)"

definition join_detach ::
  "(task_handle \<Rightarrow> ('h, 'q, 'f, 's, 'x) sim \<Rightarrow> (unit, ('h, 'q, 'f, 's, 'x) sim) outcome) \<Rightarrow> u64 option \<Rightarrow>
    join_handle \<Rightarrow> ('h, 'q, 'f, 's, 'x) sim \<Rightarrow> (unit, ('h, 'q, 'f, 's, 'x) sim) outcome" where
  "join_detach d anchor b cx =
     (case sim_node_bound_unwrap d anchor b cx of
        Returned h cx \<Rightarrow> d h cx
      | Panicked p cx \<Rightarrow> Panicked p cx
      | Aborted \<Rightarrow> Aborted)"

text \<open>\<open>LocalJoinHandle::detach\<close>.\<close>

definition join_local_detach ::
  "(task_handle \<Rightarrow> ('h, 'q, 'f, 's, 'x) sim \<Rightarrow> (unit, ('h, 'q, 'f, 's, 'x) sim) outcome) \<Rightarrow> u64 option \<Rightarrow>
    join_handle \<Rightarrow> ('h, 'q, 'f, 's, 'x) sim \<Rightarrow> (unit, ('h, 'q, 'f, 's, 'x) sim) outcome" where
  "join_local_detach d anchor b cx =
     (case sim_node_bound_unwrap d anchor b cx of
        Returned h cx \<Rightarrow> d h cx
      | Panicked p cx \<Rightarrow> Panicked p cx
      | Aborted \<Rightarrow> Aborted)"

section \<open>What is not implemented\<close>

definition runtime_block_on :: "'f \<Rightarrow> panic + 'a" where
  "runtime_block_on fut = Inl Unimplemented"

definition runtime_interval :: "duration \<Rightarrow> panic + 'i" where
  "runtime_interval d = Inl Unimplemented"

definition runtime_interval_at :: "instant \<Rightarrow> duration \<Rightarrow> panic + 'i" where
  "runtime_interval_at start d = Inl Unimplemented"

definition runtime_interval_local :: "duration \<Rightarrow> panic + 'i" where
  "runtime_interval_local = runtime_interval"

definition runtime_interval_local_at :: "instant \<Rightarrow> duration \<Rightarrow> panic + 'i" where
  "runtime_interval_local_at = runtime_interval_at"

definition runtime_delay_local :: "duration \<Rightarrow> 'f \<Rightarrow> panic + 'd" where
  "runtime_delay_local d fut = Inl Unimplemented"

definition runtime_delay :: "duration \<Rightarrow> 'f \<Rightarrow> panic + 'd" where
  "runtime_delay = runtime_delay_local"

definition runtime_delay_local_at :: "instant \<Rightarrow> 'f \<Rightarrow> panic + 'd" where
  "runtime_delay_local_at deadline fut = Inl Unimplemented"

definition runtime_delay_at :: "instant \<Rightarrow> 'f \<Rightarrow> panic + 'd" where
  "runtime_delay_at = runtime_delay_local_at"

definition runtime_spawn_blocking :: "'c \<Rightarrow> panic + 'j" where
  "runtime_spawn_blocking f = Inl Unimplemented"

text \<open>The methods of \<open>Interval\<close>, a type without values, and those of \<open>AfterHandle\<close> for a join handle.\<close>

definition interval_reset :: "duration \<Rightarrow> panic + unit" where
  "interval_reset d = Inl Unimplemented"

definition interval_reset_at :: "instant \<Rightarrow> panic + unit" where
  "interval_reset_at t = Inl Unimplemented"

definition interval_poll_tick :: "id \<Rightarrow> panic + instant poll" where
  "interval_poll_tick w = Inl Unimplemented"

definition interval_poll_next :: "id \<Rightarrow> panic + instant option poll" where
  "interval_poll_next w = Inl Unimplemented"

definition after_cancel :: "join_handle \<Rightarrow> panic + 'f" where
  "after_cancel b = Inl Unimplemented"

definition after_reset :: "join_handle \<Rightarrow> duration \<Rightarrow> panic + unit" where
  "after_reset b d = Inl Unimplemented"

definition after_abort :: "join_handle \<Rightarrow> panic + unit" where
  "after_abort b = Inl Unimplemented"

definition after_is_expired :: "join_handle \<Rightarrow> panic + bool" where
  "after_is_expired b = Inl Unimplemented"

definition after_is_finished :: "join_handle \<Rightarrow> panic + bool" where
  "after_is_finished b = Inl Unimplemented"

end
