(* ===== verification/BoundGuarantees.thy ===== *)
theory BoundGuarantees
  imports Scripts Agnostic
begin

text \<open>
  What bound values guarantee on one thread, and the sleeps, timeouts and join handles that
  \<open>agnostic-lite\<close> programs get.
\<close>

section \<open>Values bound to a node\<close>

lemma node_bound_fresh:
  assumes "node_bound_from v cx0 = Inr b"
  shows "nb_inner b = v" and "nb_node b = current_node cx0"
  using assms by (auto simp: node_bound_from_def cx_current_node_def split: if_splits)

text \<open>
  C32: A value bound to a node is reached on that node only. On it every access finds the value and
  the drop runs its destructor. On another node an access panics; a drop first runs the destructor,
  then panics, and aborts the process if the destructor panicked; and \<open>unwrap_node_bound\<close>, whose own
  panic drops the value, always aborts the process.
\<close>

theorem node_bound_values_stay_on_their_node:
  assumes made: "node_bound_from v cx0 = Inr b" and once: "once_set cx"
  shows "if current_node cx = current_node cx0
    then node_bound_deref b cx = Inr v \<and> node_bound_unwrap d b cx = Returned v cx \<and>
      node_bound_drop d b cx = d v cx
    else node_bound_deref b cx = Inl AssertFailed \<and> node_bound_poll f b cx = Inl AssertFailed \<and>
      node_bound_unwrap d b cx = Aborted \<and>
      node_bound_drop d b cx =
        (case d v cx of Returned _ c \<Rightarrow> Panicked AssertFailed c | _ \<Rightarrow> Aborted)"
proof -
  note b = node_bound_fresh [OF made]
  show ?thesis
    by (cases "d v cx") (simp_all add: b once node_bound_deref_def node_bound_unwrap_def
        node_bound_poll_def node_bound_drop_def node_bound_check_def cx_current_node_def)
qed

theorem node_bound_values_stay_on_their_node_witness:
  "\<exists>(cx0 :: nat script_sim) (cx :: nat script_sim) b. node_bound_from (7 :: nat) cx0 = Inr b \<and> current_node cx \<noteq> current_node cx0 \<and>
     node_bound_unwrap (\<lambda>_ c. Returned () c) b cx = Aborted \<and>
     node_bound_drop (\<lambda>_ c. Returned () c) b cx = Panicked AssertFailed cx"
proof -
  have "case after_calls [] of Inr cx \<Rightarrow> once_set cx \<and> current_node cx = INIT | Inl _ \<Rightarrow> False"
    by code_simp
  then obtain cx0 :: "nat script_sim" where once: "once_set cx0" and n: "current_node cx0 = INIT"
    by (auto split: sum.splits)
  let ?b = "\<lparr>nb_node = INIT, nb_inner = 7 :: nat\<rparr>" and ?cx = "cx0\<lparr>current_node := NodeId 2\<rparr>"
  have b: "node_bound_from 7 cx0 = Inr ?b"
    using once n by (simp add: node_bound_from_def cx_current_node_def)
  have "once_set ?cx" and ne: "current_node ?cx \<noteq> current_node cx0" using once n by (simp_all add: INIT_def)
  from node_bound_values_stay_on_their_node [where d = "\<lambda>_ c. Returned () c" and f = "\<lambda>t c. Inr ((t, t), c)",
    OF b this(1)] ne b
  show ?thesis by (intro exI [of _ cx0] exI [of _ ?cx] exI [of _ ?b]) simp
qed

section \<open>Timeouts\<close>

lemma bound_sleep_poll_here:
  assumes "sim_bound_check anchor b = Inr ()" and "node_bound_check (sb_inner b) cx = Inr ()"
  shows "bound_sleep_poll pq w anchor b cx =
    andThen (sleep_poll pq (nb_inner (sb_inner b)) w cx) (\<lambda>(r, cx). Inr ((b, r), cx))"
  using assms
  by (cases "sleep_poll pq (nb_inner (sb_inner b)) w cx")
    (auto simp: bound_sleep_poll_def sim_node_bound_poll_def sim_bound_poll_def node_bound_poll_def)

text \<open>
  C33: A timeout looks at the clock first. Once its deadline has come it is elapsed, even if the
  future inside is ready as well, which is not polled then. Before, it is what the future inside is,
  and its sleep is in the scheduler's queue for the deadline.
\<close>

theorem timeout_looks_at_the_clock_first:
  assumes pq: "priority_queue (env_pq e) contents" and inv: "timers_inv contents cx" and free: "cell cx = CellFree"
    and here: "sim_bound_check anchor (to_sleep to) = Inr ()"
      "node_bound_check (sb_inner (to_sleep to)) cx = Inr ()"
    and t: "deadline_of contents cx (nb_inner (sb_inner (to_sleep to))) = Some t"
  shows "\<exists>cx1. if t \<le> sim_time cx
    then timeout_poll e w anchor to cx = Inr ((to, Ready (Inl Elapsed)), cx1)
    else contents (upcoming_events cx1) =
        (contents (upcoming_events cx))(nb_inner (sb_inner (to_sleep to)) \<mapsto> t) \<and>
      timeout_poll e w anchor to cx =
        andThen (poll_future e w (to_fut to) cx1) (\<lambda>((fut, r), cx).
          Inr ((to\<lparr>to_fut := fut\<rparr>, case r of Ready x \<Rightarrow> Ready (Inr x) | Pending \<Rightarrow> Pending), cx))"
proof -
  obtain cx1 where "sleep_poll (env_pq e) (nb_inner (sb_inner (to_sleep to))) w cx =
      Inr (if t \<le> sim_time cx then Ready t else Pending, cx1)"
    and "sim_time cx < t \<longrightarrow> contents (upcoming_events cx1) =
      (contents (upcoming_events cx))(nb_inner (sb_inner (to_sleep to)) \<mapsto> t)"
    using sleep_poll_deadline [OF pq inv free t] by blast
  then show ?thesis
    by (intro exI [of _ cx1]) (simp add: timeout_poll_def bound_sleep_poll_here [OF here])
qed

theorem timeout_looks_at_the_clock_first_witness:
  "\<exists>to cx cx1. to_fut to = Script None [Log 7] \<and>
     timeout_poll witness_env (Id 1) (Some 1) to cx = Inr ((to, Ready (Inl Elapsed)), cx1)"
proof -
  let ?to = "\<lparr>to_fut = Script None [Log 7], to_sleep = \<lparr>sb_inner = \<lparr>nb_node = INIT, nb_inner = 0\<rparr>, sb_id = 1\<rparr>\<rparr>"
  have "case after_calls [] of
      Inr cx \<Rightarrow> cell cx = CellFree \<and> once_set cx \<and> current_node cx = INIT \<and> sim_time cx = 100 \<and> next_cell cx = 0
    | Inl _ \<Rightarrow> False"
    by code_simp
  then obtain cx :: "nat script_sim" where a: "after_calls [] = Inr cx"
    and s: "cell cx = CellFree" "once_set cx" "current_node cx = INIT" "sim_time cx = 100" "next_cell cx = 0"
    by (auto split: sum.splits)
  let ?cx = "snd (sleep_until 50 cx)"
  have inv: "timers_inv map_of ?cx"
    by (rule timers_inv_sleep_until [OF after_calls_inv(3) [OF a]]) (simp_all add: instant_max_def prod_eq_iff)
  have "deadline_of map_of ?cx 0 = Some 50" using s(5) by (simp add: sleep_until_def deadline_of_def)
  moreover have "cell ?cx = CellFree" "sim_time ?cx = 100" "node_bound_check (sb_inner (to_sleep ?to)) ?cx = Inr ()"
    using s by (simp_all add: sleep_until_def node_bound_check_def cx_current_node_def)
  ultimately show ?thesis
    using timeout_looks_at_the_clock_first [of witness_env map_of ?cx "Some 1" ?to 50 "Id 1"] inv
      list_pq.priority_queue_axioms
    by (auto simp: sim_bound_check_def current_anchor_def intro!: exI [of _ ?to])
qed

end
