(* ===== verification/Anchors.thy ===== *)
theory Anchors
  imports SendBind
begin

text \<open>
  Values bound to a simulation, in a process of several threads that move them around: every access
  that goes through a check is made by the thread that made the value, because the anchors of two
  threads differ. The derived \<open>Clone\<close> makes no check, and does not keep to this.
\<close>

section \<open>Threads and the values they share\<close>

text \<open>
  The static \<open>NEXT\<close>, the anchor of each thread that runs a simulation, the bound values that exist,
  each with the thread that made it, and the accesses to what is inside a value so far: the kind,
  the thread that made the access and the thread that made the value. A value that was cloned out of
  another counts as made where the other was.
\<close>

datatype access = Deref | Unwrap | DropInner | CloneInner

record 't process =
  next_anchor :: u64
  anchor_of :: "nat \<Rightarrow> u64 option"
  bound_values :: "('t sim_bound \<times> nat) list"
  accesses :: "(access \<times> nat \<times> nat) list"

definition initial_process :: "'t process" where
  "initial_process = \<lparr>next_anchor = 0, anchor_of = (\<lambda>_. None), bound_values = [], accesses = []\<rparr>"

text \<open>The destructor of the values of this section: it does nothing else.\<close>

abbreviation quiet_drop :: "'t \<Rightarrow> unit \<Rightarrow> (unit, unit) outcome" where
  "quiet_drop \<equiv> (\<lambda>_ c. Returned () c)"

text \<open>
  The steps. A thread installs a context, and its anchor, once; an installation that finds the
  \<open>once_cell\<close> set has taken an anchor all the same. A panicking access is no access, and an abort
  leaves no process. Values move between threads freely: any thread may take any value.
\<close>

inductive pstep :: "bool \<Rightarrow> 't process \<Rightarrow> 't process \<Rightarrow> bool" for chk :: bool where
  p_install: "anchor_of p t = None \<Longrightarrow> thread_anchor_new chk (next_anchor p) = Inr (i, n) \<Longrightarrow>
    pstep chk p (p\<lparr>next_anchor := n, anchor_of := (anchor_of p)(t \<mapsto> i)\<rparr>)"
| p_install_twice: "anchor_of p t \<noteq> None \<Longrightarrow> thread_anchor_new chk (next_anchor p) = Inr (i, n) \<Longrightarrow>
    pstep chk p (p\<lparr>next_anchor := n\<rparr>)"
| p_bind: "sim_bound_from (anchor_of p t) v = Inr b \<Longrightarrow>
    pstep chk p (p\<lparr>bound_values := (b, t) # bound_values p\<rparr>)"
| p_deref: "(b, t) \<in> set (bound_values p) \<Longrightarrow> sim_bound_deref (anchor_of p u) b = Inr v \<Longrightarrow>
    pstep chk p (p\<lparr>accesses := (Deref, u, t) # accesses p\<rparr>)"
| p_deref_mut: "(b, t) \<in> set (bound_values p) \<Longrightarrow> sim_bound_deref_mut f (anchor_of p u) b = Inr b' \<Longrightarrow>
    pstep chk p (p\<lparr>bound_values := (b', t) # remove1 (b, t) (bound_values p),
      accesses := (Deref, u, t) # accesses p\<rparr>)"
| p_unwrap: "(b, t) \<in> set (bound_values p) \<Longrightarrow>
    sim_bound_unwrap quiet_drop (anchor_of p u) b () = Returned v () \<Longrightarrow>
    pstep chk p (p\<lparr>bound_values := remove1 (b, t) (bound_values p),
      accesses := (Unwrap, u, t) # accesses p\<rparr>)"
| p_drop: "(b, t) \<in> set (bound_values p) \<Longrightarrow>
    sim_bound_drop quiet_drop (anchor_of p u) b () = Returned () () \<Longrightarrow>
    pstep chk p (p\<lparr>bound_values := remove1 (b, t) (bound_values p),
      accesses := (DropInner, u, t) # accesses p\<rparr>)"
| p_clone: "(b, t) \<in> set (bound_values p) \<Longrightarrow> sim_bound_clone (\<lambda>v c. Inr (v, c)) b () = Inr (b', ()) \<Longrightarrow>
    pstep chk p (p\<lparr>bound_values := (b', t) # bound_values p,
      accesses := (CloneInner, u, t) # accesses p\<rparr>)"

abbreviation reachable :: "bool \<Rightarrow> 't process \<Rightarrow> bool" where
  "reachable chk \<equiv> (pstep chk)\<^sup>*\<^sup>* initial_process"

section \<open>Anchors are unique\<close>

lemma thread_anchor_new_Inr:
  "thread_anchor_new chk k = Inr (i, n) \<longleftrightarrow> unat k + 1 < 2 ^ 64 \<and> i = k + 1 \<and> n = k + 1"
proof -
  have "unat (k + 1) = unat k + 1" if "unat k + 1 < 2 ^ 64"
    using that by (subst unat_add_u64) simp_all
  then have "k + 1 \<noteq> 0" if "unat k + 1 < 2 ^ 64" using that by force
  then show ?thesis
    by (auto simp: thread_anchor_new_def u64_checked_add_def u64_add_def)
qed

definition anchors_inv :: "'t process \<Rightarrow> bool" where
  "anchors_inv p \<longleftrightarrow>
     (\<forall>t a. anchor_of p t = Some a \<longrightarrow> unat a \<le> unat (next_anchor p)) \<and>
     (\<forall>t u a. anchor_of p t = Some a \<longrightarrow> anchor_of p u = Some a \<longrightarrow> t = u) \<and>
     (\<forall>b t. (b, t) \<in> set (bound_values p) \<longrightarrow> anchor_of p t = Some (sb_id b)) \<and>
     (\<forall>k u t. (k, u, t) \<in> set (accesses p) \<longrightarrow> k \<noteq> CloneInner \<longrightarrow> u = t)"

lemma anchors_invD:
  assumes "anchors_inv p"
  shows "anchor_of p t = Some a \<Longrightarrow> unat a \<le> unat (next_anchor p)"
    and "anchor_of p t = Some a \<Longrightarrow> anchor_of p u = Some a \<Longrightarrow> t = u"
    and "(b, t) \<in> set (bound_values p) \<Longrightarrow> anchor_of p t = Some (sb_id b)"
    and "(k, u, t) \<in> set (accesses p) \<Longrightarrow> k \<noteq> CloneInner \<Longrightarrow> u = t"
  using assms unfolding anchors_inv_def by blast+

lemma sim_bound_check_Inr:
  "sim_bound_check a b = Inr () \<longleftrightarrow> a = Some (sb_id b)"
  by (auto simp: sim_bound_check_def current_anchor_def)

lemma sim_bound_access:
  "sim_bound_deref a b = Inr v \<longleftrightarrow> a = Some (sb_id b) \<and> v = sb_inner b"
  "sim_bound_deref_mut f a b = Inr b' \<longleftrightarrow> a = Some (sb_id b) \<and> b' = b\<lparr>sb_inner := f (sb_inner b)\<rparr>"
  "sim_bound_unwrap quiet_drop a b () = Returned v () \<longleftrightarrow> a = Some (sb_id b) \<and> v = sb_inner b"
  "sim_bound_drop quiet_drop a b () = Returned () () \<longleftrightarrow> a = Some (sb_id b)"
  by (auto simp: sim_bound_deref_def sim_bound_deref_mut_def sim_bound_unwrap_def sim_bound_drop_def
      sim_bound_check_Inr [unfolded sim_bound_check_def] sim_bound_check_def current_anchor_def
      unwrap_def split: sum.splits option.splits if_splits)

lemma anchors_inv_owner:
  assumes "anchors_inv p" and "(b, t) \<in> set (bound_values p)" and "anchor_of p u = Some (sb_id b)"
  shows "u = t"
  using anchors_invD(2) [OF assms(1,3) anchors_invD(3) [OF assms(1,2)]] .

text \<open>An access by the owner, or a clone, after which there are no values but old ones and one more.\<close>

lemma anchors_inv_access:
  assumes inv: "anchors_inv p" and "k = CloneInner \<or> u = t"
    and "\<And>b t. (b, t) \<in> set vs \<Longrightarrow> anchor_of p t = Some (sb_id b)"
  shows "anchors_inv (p\<lparr>bound_values := vs, accesses := (k, u, t) # accesses p\<rparr>)"
  using assms(2,3) anchors_invD [OF inv] unfolding anchors_inv_def by auto

lemma remove1_values:
  "anchors_inv p \<Longrightarrow> (b', t') \<in> set (remove1 (b, t) (bound_values p)) \<Longrightarrow> anchor_of p t' = Some (sb_id b')"
  using anchors_invD(3) notin_set_remove1 by metis

lemma anchors_inv_step:
  assumes "pstep chk p p'" and inv: "anchors_inv p"
  shows "anchors_inv p'"
  using assms(1)
proof cases
  case (p_install t i n)
  have new: "unat (next_anchor p) < unat i" "n = i"
    using p_install(3) unat_add_u64 [of "next_anchor p" 1] by (auto simp: thread_anchor_new_Inr)
  have old: "unat a < unat i" if "anchor_of p u = Some a" for u a
    using anchors_invD(1) [OF inv that] new(1) by simp
  then have "anchor_of p u \<noteq> Some i" for u by blast
  then show ?thesis
    using anchors_invD(2-4) [OF inv] old p_install(2) less_imp_le [OF old] new(2)
    unfolding p_install(1) anchors_inv_def by (auto split: if_splits)
next
  case (p_install_twice t i n)
  then have "unat (next_anchor p) \<le> unat n"
    using unat_add_u64 [of "next_anchor p" 1] by (auto simp: thread_anchor_new_Inr)
  then show ?thesis
    using anchors_invD(2-4) [OF inv] le_trans [OF anchors_invD(1) [OF inv]]
    unfolding p_install_twice(1) anchors_inv_def by auto
next
  case (p_bind t v b)
  then show ?thesis
    using anchors_invD [OF inv] unfolding p_bind(1) anchors_inv_def
    by (auto simp: sim_bound_from_def current_anchor_def)
next
  case (p_deref b t u v)
  have "anchors_inv (p\<lparr>bound_values := bound_values p, accesses := (Deref, u, t) # accesses p\<rparr>)"
    using anchors_inv_owner [OF inv p_deref(2)] p_deref(3) anchors_invD(3) [OF inv]
    by (intro anchors_inv_access [OF inv]) (auto simp: sim_bound_access)
  then show ?thesis unfolding p_deref(1) by simp
next
  case (p_deref_mut b t f u b')
  have owner: "u = t" and b': "sb_id b' = sb_id b"
    using anchors_inv_owner [OF inv p_deref_mut(2)] p_deref_mut(3) by (auto simp: sim_bound_access)
  show ?thesis
    unfolding p_deref_mut(1)
    using anchors_invD(3) [OF inv p_deref_mut(2)] remove1_values [OF inv] b'
    by (intro anchors_inv_access [OF inv]) (auto simp: owner)
next
  case (p_unwrap b t u v)
  then show ?thesis
    using anchors_inv_owner [OF inv p_unwrap(2)] remove1_values [OF inv]
    unfolding p_unwrap(1) by (intro anchors_inv_access [OF inv]) (auto simp: sim_bound_access)
next
  case (p_drop b t u)
  then show ?thesis
    using anchors_inv_owner [OF inv p_drop(2)] remove1_values [OF inv]
    unfolding p_drop(1) by (intro anchors_inv_access [OF inv]) (auto simp: sim_bound_access)
next
  case (p_clone b t b' u)
  then show ?thesis
    using anchors_invD(3) [OF inv] unfolding p_clone(1)
    by (intro anchors_inv_access [OF inv]) (auto simp: sim_bound_clone_def)
qed

lemma anchors_inv_initial: "anchors_inv initial_process"
  by (simp add: anchors_inv_def initial_process_def)

lemma anchors_inv_reachable: "reachable chk p \<Longrightarrow> anchors_inv p"
  by (induction rule: rtranclp_induct) (rule anchors_inv_initial, rule anchors_inv_step)

section \<open>Who gets at a bound value\<close>

text \<open>
  C31: However bound values move between the threads of a process, each access by \<open>Deref\<close>, by
  \<open>unwrap_sim_bound\<close> or by a drop that runs the destructor is made by the thread that made the
  value; a check passes on that thread and on no other.
\<close>

theorem bound_values_stay_on_their_thread:
  assumes "reachable chk p"
  shows "(\<forall>k u t. (k, u, t) \<in> set (accesses p) \<longrightarrow> k \<noteq> CloneInner \<longrightarrow> u = t) \<and>
    (\<forall>b t u. (b, t) \<in> set (bound_values p) \<longrightarrow> (sim_bound_check (anchor_of p u) b = Inr ()) = (u = t))"
proof -
  note inv = anchors_inv_reachable [OF assms]
  show ?thesis
    using anchors_invD(3,4) [OF inv] anchors_inv_owner [OF inv]
    unfolding sim_bound_check_Inr by metis
qed

text \<open>Two threads run simulations, the first binds a value.\<close>

definition two_threads :: "nat process" where
  "two_threads = \<lparr>next_anchor = 2, anchor_of = [0 \<mapsto> 1, 1 \<mapsto> 2],
     bound_values = [(\<lparr>sb_inner = 7, sb_id = 1\<rparr>, 0)], accesses = []\<rparr>"

lemma two_threads_reachable: "reachable chk two_threads"
proof -
  let ?p1 = "initial_process\<lparr>next_anchor := 1, anchor_of := [0 \<mapsto> 1]\<rparr> :: nat process"
  let ?p2 = "?p1\<lparr>next_anchor := 2, anchor_of := [0 \<mapsto> 1, 1 \<mapsto> 2]\<rparr>"
  have "pstep chk initial_process ?p1"
    using p_install [of initial_process 0 chk 1 1]
    by (simp add: initial_process_def thread_anchor_new_Inr)
  then have 1: "reachable chk ?p1" ..
  have "pstep chk ?p1 ?p2"
    using p_install [of ?p1 1 chk 2 2] by (simp add: initial_process_def thread_anchor_new_Inr)
  with 1 have 2: "reachable chk ?p2" by (rule rtranclp.rtrancl_into_rtrancl)
  have "pstep chk ?p2 two_threads"
    using p_bind [of ?p2 0 7 _ chk]
    by (simp add: initial_process_def two_threads_def sim_bound_from_def current_anchor_def)
  with 2 show ?thesis by (rule rtranclp.rtrancl_into_rtrancl)
qed

theorem bound_values_stay_on_their_thread_witness:
  "reachable True two_threads \<and> (\<lparr>sb_inner = 7, sb_id = 1\<rparr>, 0) \<in> set (bound_values two_threads) \<and>
   sim_bound_check (anchor_of two_threads 1) \<lparr>sb_inner = 7 :: nat, sb_id = 1\<rparr> \<noteq> Inr ()"
proof -
  have "(\<lparr>sb_inner = 7, sb_id = 1\<rparr>, 0) \<in> set (bound_values two_threads)"
    by (simp add: two_threads_def)
  with bound_values_stay_on_their_thread [OF two_threads_reachable [of True]] two_threads_reachable
  show ?thesis by fastforce
qed

text \<open>
  The derived \<open>Clone\<close> of \<open>SimBound\<close> is not checked: a thread can run the \<open>clone\<close> of a value
  that was made on another one, which no other access allows. A \<open>SimBound\<close> is \<open>Send\<close> and \<open>Sync\<close>
  whatever is inside, on the ground that every use of what is inside is checked.
\<close>

lemma clone_is_not_checked:
  "\<exists>p :: nat process. reachable chk p \<and> (CloneInner, 1, 0) \<in> set (accesses p) \<and>
     (\<exists>b. (b, 0) \<in> set (bound_values p) \<and> sim_bound_check (anchor_of p 1) b \<noteq> Inr ())"
proof -
  let ?b = "\<lparr>sb_inner = 7, sb_id = 1\<rparr> :: nat sim_bound"
  let ?p = "two_threads\<lparr>bound_values := (?b, 0) # bound_values two_threads,
    accesses := [(CloneInner, 1, 0)]\<rparr>"
  have "pstep chk two_threads ?p"
    using p_clone [of ?b 0 two_threads ?b chk 1] by (simp add: two_threads_def sim_bound_clone_def)
  with two_threads_reachable have "reachable chk ?p" by (rule rtranclp.rtrancl_into_rtrancl)
  moreover have "sim_bound_check (anchor_of ?p 1) ?b \<noteq> Inr ()"
    by (simp add: two_threads_def sim_bound_check_Inr)
  ultimately show ?thesis by (intro exI [of _ ?p]) (auto simp: two_threads_def)
qed

end
