(* ===== verification/Interception.thy ===== *)
theory Interception
  imports Timers
begin

text \<open>
  \<open>src/interception.rs\<close>: the functions of the C library that the crate replaces. Inside of a
  simulation \<open>clock_gettime\<close> answers with the simulated time, as a \<open>timespec\<close> of two \<open>i64\<close>; the
  cast of the \<open>u64\<close> seconds wraps. \<open>getrandom\<close> fills the buffer from the seeded generator of
  \<open>SimCxu\<close>, which is \<open>rand_chacha\<close>'s: its operations are a parameter, and its state \<open>rng\<close> is kept
  beside the rest of the context, since nothing else reads it.
\<close>

record timespec =
  tv_sec :: "64 word"
  tv_nsec :: "64 word"

definition clock_gettime :: "timespec \<Rightarrow> ('h, 'q, 'w, 'z) timer_cx_scheme \<Rightarrow> timespec" where
  "clock_gettime real cx =
     (if once_set cx
      then \<lparr>tv_sec = of_nat (sim_time cx div 10 ^ 9), tv_nsec = of_nat (sim_time cx mod 10 ^ 9)\<rparr>
      else real)"

text \<open>What the standard library makes of the answer: an \<open>Instant\<close> counted in nanoseconds.\<close>

definition timespec_instant :: "timespec \<Rightarrow> int" where
  "timespec_instant ts = sint (tv_sec ts) * 10 ^ 9 + sint (tv_nsec ts)"

lemma sint_of_nat_small: "n < 2 ^ 63 \<Longrightarrow> sint (of_nat n :: 64 word) = int n"
  by (simp add: signed_of_nat signed_take_bit_int_eq_self)

text \<open>
  C17: Inside of a simulation the intercepted clock reads back as the simulated time, to the
  nanosecond, for every time that an \<open>Instant\<close> can hold.
\<close>

theorem clock_reads_simulated_time:
  assumes "once_set cx" and "sim_time cx \<le> instant_max"
  shows "timespec_instant (clock_gettime real cx) = int (instant_now real_clock cx)"
proof -
  have "sim_time cx div 10 ^ 9 < 2 ^ 63"
    using assms(2) by (simp add: instant_max_def div_less_iff_less_mult)
  moreover have "sim_time cx mod 10 ^ 9 < 2 ^ 63"
    by (rule less_trans [OF mod_less_divisor]) simp_all
  moreover have "int (sim_time cx div 10 ^ 9) * 10 ^ 9 + int (sim_time cx mod 10 ^ 9) = int (sim_time cx)"
    unfolding zdiv_int zmod_int by simp
  ultimately show ?thesis
    using assms(1)
    by (simp only: timespec_instant_def clock_gettime_def instant_now_def sint_of_nat_small
        timespec.simps if_True)
qed

theorem clock_reads_simulated_time_witness:
  "timespec_instant (clock_gettime \<lparr>tv_sec = 9, tv_nsec = 9\<rparr>
     (example_timers\<lparr>sim_time := 1648339195000000007\<rparr>)) = 1648339195000000007"
proof -
  let ?cx = "example_timers\<lparr>sim_time := 1648339195000000007\<rparr>"
  have "once_set ?cx" "sim_time ?cx \<le> instant_max"
    by (simp_all add: example_timers_def instant_max_def)
  from clock_reads_simulated_time [OF this, of "\<lparr>tv_sec = 9, tv_nsec = 9\<rparr>" 0]
  show ?thesis by (simp add: instant_now_def example_timers_def)
qed

section \<open>Randomness\<close>

record 'r generator =
  seed_from_u64 :: "u64 \<Rightarrow> 'r"
  fill_bytes :: "'r \<Rightarrow> nat \<Rightarrow> 8 word list \<times> 'r"

text \<open>The generator that \<open>ContextInstallGuard::new\<close> makes.\<close>

definition install_rng :: "'r generator \<Rightarrow> u64 \<Rightarrow> 'r" where
  "install_rng g seed = seed_from_u64 g seed"

text \<open>
  The length that is asked for is returned as an \<open>isize\<close>, with the same bits. Outside of a simulation
  the C library answers.
\<close>

definition getrandom ::
  "'r generator \<Rightarrow> (u64 \<Rightarrow> u64 \<times> 8 word list) \<Rightarrow> u64 \<Rightarrow> 'r \<Rightarrow> ('h, 'q, 'w, 'z) timer_cx_scheme \<Rightarrow>
    (u64 \<times> 8 word list) \<times> 'r" where
  "getrandom g real buflen rng cx =
     (if once_set cx then
        let (bytes, rng) = fill_bytes g rng (unat buflen) in ((buflen, bytes), rng)
      else (real buflen, rng))"

text \<open>
  Inside of a simulation the answer is never an error, for the lengths that a buffer can have, and it
  is the length of what was written.
\<close>

lemma getrandom_fills:
  assumes "once_set cx" and "buflen < 2 ^ 63" and "\<And>r n. length (fst (fill_bytes g r n)) = n"
    and "getrandom g real buflen rng cx = ((ret, bytes), rng')"
  shows "sint ret = int (length bytes)"
proof -
  have ret: "ret = buflen" and len: "length bytes = unat buflen"
    using assms(1,4) assms(3) [of rng "unat buflen"] by (auto simp: getrandom_def split: prod.splits)
  have "unat buflen < 2 ^ 63"
    using assms(2) by (simp add: word_less_nat_alt)
  then have "sint (of_nat (unat buflen) :: 64 word) = int (unat buflen)" by (rule sint_of_nat_small)
  then show ?thesis using ret len by simp
qed

text \<open>Outside of a simulation the generator is not touched.\<close>

lemma getrandom_outside: "\<not> once_set cx \<Longrightarrow> getrandom g real buflen rng cx = (real buflen, rng)"
  by (simp add: getrandom_def)

end
