(* ===== verification/Tower.thy ===== *)
theory Tower
  imports Network
begin

text \<open>
  \<open>src/tower.rs\<close>: remote calls over the network. A client is a queue of calls and two tasks, one that
  sends requests and one that receives responses, which share the map from the ids of the requests
  to the callers that wait for them; a server receives requests and runs a service on each in a task
  of its own. Requests have the type \<open>'a\<close>, responses \<open>'b\<close>, the errors of the service \<open>'y\<close>.
\<close>

section \<open>Packets and channels\<close>

datatype 'a tower_request = Start (start_req: 'a) (start_id: id)

datatype ('y, 'b) tower_response = Complete (complete_result: "'y + 'b") (complete_id: id)

text \<open>What a caller gets: an error of the service, an error of the network, or the response.\<close>

type_synonym ('y, 'er, 'b) tower_result = "('y + 'er) + 'b"

text \<open>
  What this module calls: its two kinds of packets as packets of the network, the channels of
  \<open>futures\<close> (a queue of requests with the senders of their callers, and a one-shot channel per call),
  polling the future of a send function, the \<open>ErrorKind\<close>s that it uses, and, in the state of outside
  code, the maps of responders that the two tasks of a client share through an \<open>Rc\<close>.
\<close>

record ('h, 'q, 'f, 's, 'x, 'p, 'er, 'a, 'b, 'y) tower_ops =
  request_type :: type_id
  response_type :: type_id
  pack_request :: "'a tower_request \<Rightarrow> 'p"
  unpack_request :: "'p \<Rightarrow> 'a tower_request"
  pack_response :: "('y, 'b) tower_response \<Rightarrow> 'p"
  unpack_response :: "'p \<Rightarrow> ('y, 'b) tower_response"
  mpsc_channel :: "'x \<Rightarrow> nat \<times> 'x"
  mpsc_clone :: "nat \<Rightarrow> 'x \<Rightarrow> nat \<times> 'x"
  mpsc_poll_ready :: "nat \<Rightarrow> id \<Rightarrow> ('h, 'q, 'f, 's, 'x) sim \<Rightarrow> panic + bool poll \<times> ('h, 'q, 'f, 's, 'x) sim"
  mpsc_send :: "nat \<Rightarrow> 'a \<times> nat \<Rightarrow> 'f"
  mpsc_poll_send :: "'f \<Rightarrow> id \<Rightarrow> ('h, 'q, 'f, 's, 'x) sim \<Rightarrow>
    panic + ('f \<times> bool poll) \<times> ('h, 'q, 'f, 's, 'x) sim"
  mpsc_next :: "nat \<Rightarrow> id \<Rightarrow> ('h, 'q, 'f, 's, 'x) sim \<Rightarrow>
    panic + ('a \<times> nat) option poll \<times> ('h, 'q, 'f, 's, 'x) sim"
  mpsc_drop_sender :: "nat \<Rightarrow> ('h, 'q, 'f, 's, 'x) sim \<Rightarrow> panic + ('h, 'q, 'f, 's, 'x) sim"
  call_channel :: "'x \<Rightarrow> nat \<times> 'x"
  call_send :: "nat \<Rightarrow> ('y, 'er, 'b) tower_result \<Rightarrow> ('h, 'q, 'f, 's, 'x) sim \<Rightarrow>
    panic + ('h, 'q, 'f, 's, 'x) sim"
  call_poll :: "nat \<Rightarrow> id \<Rightarrow> ('h, 'q, 'f, 's, 'x) sim \<Rightarrow>
    panic + ('y, 'er, 'b) tower_result option poll \<times> ('h, 'q, 'f, 's, 'x) sim"
  poll_net_future :: "'f \<Rightarrow> id \<Rightarrow> ('h, 'q, 'f, 's, 'x) sim \<Rightarrow>
    panic + ('f \<times> ('er + unit) poll) \<times> ('h, 'q, 'f, 's, 'x) sim"
  connection_reset :: 'er
  addr_in_use :: "addr_in_use_error \<Rightarrow> 'er"
  shared_error :: "'er \<Rightarrow> 'er"
  new_responders :: "'x \<Rightarrow> nat \<times> 'x"
  responders :: "nat \<Rightarrow> 'x \<Rightarrow> (id \<times> nat) list"
  put_responders :: "nat \<Rightarrow> (id \<times> nat) list \<Rightarrow> 'x \<Rightarrow> 'x"
  values_order :: "nat list \<Rightarrow> nat list"

definition set_responders ::
  "('h, 'q, 'f, 's, 'x, 'p, 'er, 'a, 'b, 'y) tower_ops \<Rightarrow> nat \<Rightarrow> (id \<times> nat) list \<Rightarrow>
    ('h, 'q, 'f, 's, 'x) sim \<Rightarrow> ('h, 'q, 'f, 's, 'x) sim" where
  "set_responders tp c rs cx = cx\<lparr>ext := put_responders tp c rs (ext cx)\<rparr>"

text \<open>\<open>Err(Left(e))\<close> for an error of the service: \<open>result.map_err(Left)\<close>.\<close>

fun service_result :: "'y + 'b \<Rightarrow> ('y, 'er, 'b) tower_result" where
  "service_result (Inl e) = Inl (Inl e)"
| "service_result (Inr b) = Inr b"

text \<open>
  Sending a packet through \<open>SimulatorHandle::<Net>::get().with(...)\<close>, and awaiting what the send
  function returned, which is dropped when it is ready.
\<close>

definition tower_send ::
  "('h, 'q, 'f, 's, 'x, 'v) env \<Rightarrow> ('h, 'q, 'f, 's, 'x, 'p, 'er, 'g) net_ops \<Rightarrow> id \<Rightarrow> addr \<Rightarrow> 'p \<Rightarrow>
    ('h, 'q, 'f, 's, 'x) sim \<Rightarrow> panic + ('er, 'f) send_output \<times> ('h, 'q, 'f, 's, 'x) sim" where
  "tower_send e n port dst p cx =
     andThen (simulator_get NET cx) (\<lambda>(_, cx). with_net n (net_send e n port dst p) cx)"

fun await_sent ::
  "('h, 'q, 'f, 's, 'x, 'v) env \<Rightarrow> ('h, 'q, 'f, 's, 'x, 'p, 'er, 'a, 'b, 'y) tower_ops \<Rightarrow> id \<Rightarrow>
    ('er, 'f) send_output \<Rightarrow> ('h, 'q, 'f, 's, 'x) sim \<Rightarrow>
    panic + (('er, 'f) send_output \<times> ('er + unit) poll) \<times> ('h, 'q, 'f, 's, 'x) sim" where
  "await_sent e tp w (Immediate r) cx = Inr ((Immediate r, Ready r), cx)"
| "await_sent e tp w (Deferred f) cx =
     andThen (poll_net_future tp f w cx) (\<lambda>((f, r), cx).
     case r of
       Pending \<Rightarrow> Inr ((Deferred f, Pending), cx)
     | Ready r \<Rightarrow> andThen (drop_future e f cx) (\<lambda>cx. Inr ((Deferred f, Ready r), cx)))"

section \<open>The client's sending task\<close>

text \<open>
  What the task holds, and where it waits: for the next call, or for a request to be sent. A turn
  goes from one point of waiting to the next and returns \<open>Pending\<close> if it has to wait there.
\<close>

record send_task =
  st_requests :: nat
  st_port :: id
  st_remote :: addr
  st_responders :: nat

datatype ('er, 'f) send_state = AwaitRequest | AwaitSent id nat "('er, 'f) send_output"

fun send_turn ::
  "('h, 'q, 'f, 's, 'x, 'v) env \<Rightarrow> ('h, 'q, 'f, 's, 'x, 'p, 'er, 'g) net_ops \<Rightarrow>
    ('h, 'q, 'f, 's, 'x, 'p, 'er, 'a, 'b, 'y) tower_ops \<Rightarrow> id \<Rightarrow> send_task \<Rightarrow> ('er, 'f) send_state \<Rightarrow>
    ('h, 'q, 'f, 's, 'x) sim \<Rightarrow> panic + (('er, 'f) send_state \<times> unit poll) \<times> ('h, 'q, 'f, 's, 'x) sim" where
  "send_turn e n tp w t AwaitRequest cx =
     andThen (mpsc_next tp (st_requests t) w cx) (\<lambda>(r, cx).
     case r of
       Pending \<Rightarrow> Inr ((AwaitRequest, Pending), cx)
     | Ready None \<Rightarrow> Inl UnwrapNone
     | Ready (Some (req, responder)) \<Rightarrow>
         andThen (new_id (debug_build e) cx) (\<lambda>(i, cx).
         andThen (tower_send e n (st_port t) (st_remote t) (pack_request tp (Start req i)) cx) (\<lambda>(out, cx).
         Inr ((AwaitSent i responder out, Ready ()), cx))))"
| "send_turn e n tp w t (AwaitSent i responder out) cx =
     andThen (await_sent e tp w out cx) (\<lambda>((out, r), cx).
     case r of
       Pending \<Rightarrow> Inr ((AwaitSent i responder out, Pending), cx)
     | Ready (Inr _) \<Rightarrow>
         Inr ((AwaitRequest, Ready ()), set_responders tp (st_responders t)
           (AList.update i responder (responders tp (st_responders t) (ext cx))) cx)
     | Ready (Inl error) \<Rightarrow>
         andThen (call_send tp responder (Inl (Inr error)) cx) (\<lambda>cx.
         Inr ((AwaitRequest, Ready ()), cx)))"

text \<open>A poll of the task runs turns until one waits, for which there may be no bound.\<close>

partial_function (option) send_task_poll ::
  "('h, 'q, 'f, 's, 'x, 'v) env \<Rightarrow> ('h, 'q, 'f, 's, 'x, 'p, 'er, 'g) net_ops \<Rightarrow>
    ('h, 'q, 'f, 's, 'x, 'p, 'er, 'a, 'b, 'y) tower_ops \<Rightarrow> id \<Rightarrow> send_task \<Rightarrow> ('er, 'f) send_state \<Rightarrow>
    ('h, 'q, 'f, 's, 'x) sim \<Rightarrow> (panic + ('er, 'f) send_state \<times> ('h, 'q, 'f, 's, 'x) sim) option" where
  "send_task_poll e n tp w t st cx =
     (case send_turn e n tp w t st cx of
        Inl p \<Rightarrow> Some (Inl p)
      | Inr ((st, Pending), cx) \<Rightarrow> Some (Inr (st, cx))
      | Inr ((st, Ready _), cx) \<Rightarrow> send_task_poll e n tp w t st cx)"

section \<open>The client's receiving task\<close>

record recv_task =
  rt_socket :: socket
  rt_remote :: addr
  rt_responders :: nat

text \<open>
  A response goes to the caller that waits under its id, and there must be one. An error of the
  network goes to every caller that waits.
\<close>

definition answer ::
  "('h, 'q, 'f, 's, 'x, 'p, 'er, 'a, 'b, 'y) tower_ops \<Rightarrow> nat \<Rightarrow> ('y, 'b) tower_response \<Rightarrow>
    ('h, 'q, 'f, 's, 'x) sim \<Rightarrow> panic + ('h, 'q, 'f, 's, 'x) sim" where
  "answer tp c response cx =
     (case response of
        Complete result i \<Rightarrow>
          let rs = responders tp c (ext cx) in
          andThen (unwrap (map_of rs i)) (\<lambda>responder.
          call_send tp responder (service_result result) (set_responders tp c (AList.delete i rs) cx)))"

definition fail_all ::
  "('h, 'q, 'f, 's, 'x, 'p, 'er, 'a, 'b, 'y) tower_ops \<Rightarrow> nat \<Rightarrow> 'er \<Rightarrow>
    ('h, 'q, 'f, 's, 'x) sim \<Rightarrow> panic + ('h, 'q, 'f, 's, 'x) sim" where
  "fail_all tp c error cx =
     (let rs = responders tp c (ext cx) in
      foldE (\<lambda>responder cx. call_send tp responder (Inl (Inr (shared_error tp error))) cx)
        (values_order tp (map snd rs)) (set_responders tp c [] cx))"

definition recv_turn ::
  "('h, 'q, 'f, 's, 'x, 'v) env \<Rightarrow> ('h, 'q, 'f, 's, 'x, 'p, 'er, 'g) net_ops \<Rightarrow>
    ('h, 'q, 'f, 's, 'x, 'p, 'er, 'a, 'b, 'y) tower_ops \<Rightarrow> id \<Rightarrow> recv_task \<Rightarrow>
    ('h, 'q, 'f, 's, 'x) sim \<Rightarrow> panic + unit poll \<times> ('h, 'q, 'f, 's, 'x) sim" where
  "recv_turn e n tp w t cx =
     andThen (socket_receive_poll n (response_type tp) (inbox (rt_socket t)) w cx) (\<lambda>(r, cx).
     case r of
       Pending \<Rightarrow> Inr (Pending, cx)
     | Ready (Inr (p, addr)) \<Rightarrow>
         if debug_build e \<and> addr \<noteq> rt_remote t then Inl AssertFailed
         else andThen (answer tp (rt_responders t) (unpack_response tp p) cx) (\<lambda>cx. Inr (Ready (), cx))
     | Ready (Inl error) \<Rightarrow>
         andThen (fail_all tp (rt_responders t) error cx) (\<lambda>cx. Inr (Ready (), cx)))"

partial_function (option) recv_task_poll ::
  "('h, 'q, 'f, 's, 'x, 'v) env \<Rightarrow> ('h, 'q, 'f, 's, 'x, 'p, 'er, 'g) net_ops \<Rightarrow>
    ('h, 'q, 'f, 's, 'x, 'p, 'er, 'a, 'b, 'y) tower_ops \<Rightarrow> id \<Rightarrow> recv_task \<Rightarrow>
    ('h, 'q, 'f, 's, 'x) sim \<Rightarrow> (panic + ('h, 'q, 'f, 's, 'x) sim) option" where
  "recv_task_poll e n tp w t cx =
     (case recv_turn e n tp w t cx of
        Inl p \<Rightarrow> Some (Inl p)
      | Inr (Pending, cx) \<Rightarrow> Some (Inr cx)
      | Inr (Ready _, cx) \<Rightarrow> recv_task_poll e n tp w t cx)"

section \<open>Clients\<close>

text \<open>A client holds the sender of its queue and aborts its two tasks when it is dropped.\<close>

record client =
  request_sender :: nat
  send_guard :: abort_guard
  recv_guard :: abort_guard

text \<open>\<open>Client::new\<close>; the last two arguments make a future of the state of a task.\<close>

definition client_new ::
  "('h, 'q, 'f, 's, 'x, 'v) env \<Rightarrow> ('h, 'q, 'f, 's, 'x, 'p, 'er, 'g) net_ops \<Rightarrow>
    ('h, 'q, 'f, 's, 'x, 'p, 'er, 'a, 'b, 'y) tower_ops \<Rightarrow> (send_task \<Rightarrow> 'f) \<Rightarrow> (recv_task \<Rightarrow> 'f) \<Rightarrow>
    addr \<Rightarrow> ('h, 'q, 'f, 's, 'x) sim \<Rightarrow> panic + client \<times> ('h, 'q, 'f, 's, 'x) sim" where
  "client_new e n tp send_fut recv_fut remote cx =
     (let (r, x) = mpsc_channel tp (ext cx) in
      andThen (new_id (debug_build e) (cx\<lparr>ext := x\<rparr>)) (\<lambda>(port, cx).
      andThen (socket_open n (response_type tp) port cx) (\<lambda>(opened, cx).
      case opened of
        Inl _ \<Rightarrow> Inl UnwrapNone
      | Inr s \<Rightarrow>
          let (c, x) = new_responders tp (ext cx) in
          andThen (spawn e (send_fut \<lparr>st_requests = r, st_port = local_port s, st_remote = remote,
            st_responders = c\<rparr>) (cx\<lparr>ext := x\<rparr>)) (\<lambda>(h1, cx).
          andThen (spawn e (recv_fut \<lparr>rt_socket = s, rt_remote = remote, rt_responders = c\<rparr>) cx) (\<lambda>(h2, cx).
          Inr (\<lparr>request_sender = r, send_guard = abort_on_drop (handle_abort h1),
            recv_guard = abort_on_drop (handle_abort h2)\<rparr>, cx))))))"

definition client_drop ::
  "('h, 'q, 'f, 's, 'x, 'v) env \<Rightarrow> ('h, 'q, 'f, 's, 'x, 'p, 'er, 'a, 'b, 'y) tower_ops \<Rightarrow> client \<Rightarrow>
    ('h, 'q, 'f, 's, 'x) sim \<Rightarrow> panic + ('h, 'q, 'f, 's, 'x) sim" where
  "client_drop e tp c cx =
     andThen (mpsc_drop_sender tp (request_sender c) cx) (\<lambda>cx.
     andThen (abort_guard_drop e (send_guard c) cx) (\<lambda>(_, cx).
     andThen (abort_guard_drop e (recv_guard c) cx) (\<lambda>(_, cx). Inr cx)))"

text \<open>\<open>Service::poll_ready\<close>: a closed queue is a panic, since the task that reads it never ends.\<close>

definition client_poll_ready ::
  "('h, 'q, 'f, 's, 'x, 'p, 'er, 'a, 'b, 'y) tower_ops \<Rightarrow> client \<Rightarrow> id \<Rightarrow> ('h, 'q, 'f, 's, 'x) sim \<Rightarrow>
    panic + (('y + 'er) + unit) poll \<times> ('h, 'q, 'f, 's, 'x) sim" where
  "client_poll_ready tp c w cx =
     andThen (mpsc_poll_ready tp (request_sender c) w cx) (\<lambda>(r, cx).
     case r of
       Pending \<Rightarrow> Inr (Pending, cx)
     | Ready ok \<Rightarrow> if ok then Inr (Ready (Inr ()), cx) else Inl UnwrapNone)"

text \<open>
  \<open>Service::call\<close> and its future: the call goes into the queue with the sender of a new one-shot
  channel, and then the channel is awaited. The future holds a clone of the queue's sender until it
  is ready.
\<close>

datatype ('a, 'f) call_state = CallStart nat 'a | CallSending 'f nat nat | CallWaiting nat nat | CallDone

definition client_call ::
  "('h, 'q, 'f, 's, 'x, 'p, 'er, 'a, 'b, 'y) tower_ops \<Rightarrow> client \<Rightarrow> 'a \<Rightarrow>
    ('h, 'q, 'f, 's, 'x) sim \<Rightarrow> ('a, 'f) call_state \<times> ('h, 'q, 'f, 's, 'x) sim" where
  "client_call tp c req cx =
     (let (s, x) = mpsc_clone tp (request_sender c) (ext cx) in (CallStart s req, cx\<lparr>ext := x\<rparr>))"

definition call_done ::
  "('h, 'q, 'f, 's, 'x, 'p, 'er, 'a, 'b, 'y) tower_ops \<Rightarrow> nat \<Rightarrow> ('y, 'er, 'b) tower_result \<Rightarrow>
    ('h, 'q, 'f, 's, 'x) sim \<Rightarrow>
    panic + (('a, 'f) call_state \<times> ('y, 'er, 'b) tower_result poll) \<times> ('h, 'q, 'f, 's, 'x) sim" where
  "call_done tp s result cx =
     andThen (mpsc_drop_sender tp s cx) (\<lambda>cx. Inr ((CallDone, Ready result), cx))"

definition await_answer ::
  "('h, 'q, 'f, 's, 'x, 'p, 'er, 'a, 'b, 'y) tower_ops \<Rightarrow> id \<Rightarrow> nat \<Rightarrow> nat \<Rightarrow> ('h, 'q, 'f, 's, 'x) sim \<Rightarrow>
    panic + (('a, 'f) call_state \<times> ('y, 'er, 'b) tower_result poll) \<times> ('h, 'q, 'f, 's, 'x) sim" where
  "await_answer tp w s r cx =
     andThen (call_poll tp r w cx) (\<lambda>(res, cx).
     case res of
       Pending \<Rightarrow> Inr ((CallWaiting s r, Pending), cx)
     | Ready (Some result) \<Rightarrow> call_done tp s result cx
     | Ready None \<Rightarrow> call_done tp s (Inl (Inr (connection_reset tp))) cx)"

definition await_queued ::
  "('h, 'q, 'f, 's, 'x, 'v) env \<Rightarrow> ('h, 'q, 'f, 's, 'x, 'p, 'er, 'a, 'b, 'y) tower_ops \<Rightarrow> id \<Rightarrow> 'f \<Rightarrow>
    nat \<Rightarrow> nat \<Rightarrow> ('h, 'q, 'f, 's, 'x) sim \<Rightarrow>
    panic + (('a, 'f) call_state \<times> ('y, 'er, 'b) tower_result poll) \<times> ('h, 'q, 'f, 's, 'x) sim" where
  "await_queued e tp w f s r cx =
     andThen (mpsc_poll_send tp f w cx) (\<lambda>((f, res), cx).
     case res of
       Pending \<Rightarrow> Inr ((CallSending f s r, Pending), cx)
     | Ready ok \<Rightarrow>
         andThen (drop_future e f cx) (\<lambda>cx.
         if ok then await_answer tp w s r cx
         else call_done tp s (Inl (Inr (connection_reset tp))) cx))"

fun call_future_poll ::
  "('h, 'q, 'f, 's, 'x, 'v) env \<Rightarrow> ('h, 'q, 'f, 's, 'x, 'p, 'er, 'a, 'b, 'y) tower_ops \<Rightarrow> id \<Rightarrow>
    ('a, 'f) call_state \<Rightarrow> ('h, 'q, 'f, 's, 'x) sim \<Rightarrow>
    panic + (('a, 'f) call_state \<times> ('y, 'er, 'b) tower_result poll) \<times> ('h, 'q, 'f, 's, 'x) sim" where
  "call_future_poll e tp w (CallStart s req) cx =
     (let (r, x) = call_channel tp (ext cx) in
      await_queued e tp w (mpsc_send tp s (req, r)) s r (cx\<lparr>ext := x\<rparr>))"
| "call_future_poll e tp w (CallSending f s r) cx = await_queued e tp w f s r cx"
| "call_future_poll e tp w (CallWaiting s r) cx = await_answer tp w s r cx"
| "call_future_poll e tp w CallDone cx = Inl Unreachable"

section \<open>Servers\<close>

text \<open>
  The service that a server runs, code of the program, with its state: \<open>poll_ready\<close>, \<open>call\<close>, and the
  future of a call. Requests that were received wait for it to be ready.
\<close>

record ('h, 'q, 'f, 's, 'x, 'a, 'b, 'y, 'k) service_ops =
  service_poll_ready :: "'k \<Rightarrow> id \<Rightarrow> ('h, 'q, 'f, 's, 'x) sim \<Rightarrow>
    panic + ('k \<times> ('y + unit) poll) \<times> ('h, 'q, 'f, 's, 'x) sim"
  service_call :: "'k \<Rightarrow> 'a \<Rightarrow> ('h, 'q, 'f, 's, 'x) sim \<Rightarrow> panic + ('k \<times> 'f) \<times> ('h, 'q, 'f, 's, 'x) sim"
  service_poll :: "'f \<Rightarrow> id \<Rightarrow> ('h, 'q, 'f, 's, 'x) sim \<Rightarrow>
    panic + ('f \<times> ('y + 'b) poll) \<times> ('h, 'q, 'f, 's, 'x) sim"

text \<open>The task that serves a request and then responds to the address that it came from.\<close>

datatype ('er, 'f) serve_state =
    Serving 'f id id addr
  | Responding "('er, 'f) send_output"
  | Served

definition await_response ::
  "('h, 'q, 'f, 's, 'x, 'v) env \<Rightarrow> ('h, 'q, 'f, 's, 'x, 'p, 'er, 'a, 'b, 'y) tower_ops \<Rightarrow> id \<Rightarrow>
    ('er, 'f) send_output \<Rightarrow> ('h, 'q, 'f, 's, 'x) sim \<Rightarrow>
    panic + (('er, 'f) serve_state \<times> unit poll) \<times> ('h, 'q, 'f, 's, 'x) sim" where
  "await_response e tp w out cx =
     andThen (await_sent e tp w out cx) (\<lambda>((out, r), cx).
     case r of
       Pending \<Rightarrow> Inr ((Responding out, Pending), cx)
     | Ready _ \<Rightarrow> Inr ((Served, Ready ()), cx))"

fun serve_poll ::
  "('h, 'q, 'f, 's, 'x, 'v) env \<Rightarrow> ('h, 'q, 'f, 's, 'x, 'p, 'er, 'g) net_ops \<Rightarrow>
    ('h, 'q, 'f, 's, 'x, 'p, 'er, 'a, 'b, 'y) tower_ops \<Rightarrow>
    ('h, 'q, 'f, 's, 'x, 'a, 'b, 'y, 'k) service_ops \<Rightarrow> id \<Rightarrow> ('er, 'f) serve_state \<Rightarrow>
    ('h, 'q, 'f, 's, 'x) sim \<Rightarrow> panic + (('er, 'f) serve_state \<times> unit poll) \<times> ('h, 'q, 'f, 's, 'x) sim" where
  "serve_poll e n tp sv w (Serving fut i local address) cx =
     andThen (service_poll sv fut w cx) (\<lambda>((fut, r), cx).
     case r of
       Pending \<Rightarrow> Inr ((Serving fut i local address, Pending), cx)
     | Ready result \<Rightarrow>
         andThen (drop_future e fut cx) (\<lambda>cx.
         andThen (tower_send e n local address (pack_response tp (Complete result i)) cx) (\<lambda>(out, cx).
         await_response e tp w out cx)))"
| "serve_poll e n tp sv w (Responding out) cx = await_response e tp w out cx"
| "serve_poll e n tp sv w Served cx = Inl Unreachable"

text \<open>
  \<open>run_server\<close>: it ends with an error of the socket or of the service's \<open>poll_ready\<close>, and drops its
  socket then, and otherwise goes on. A turn goes from one point of waiting to the next; \<open>Ready None\<close> lets it go on.
\<close>

datatype 'a server_state = ServerReceive | ServerReady 'a id addr

definition server_open ::
  "('h, 'q, 'f, 's, 'x, 'p, 'er, 'g) net_ops \<Rightarrow> ('h, 'q, 'f, 's, 'x, 'p, 'er, 'a, 'b, 'y) tower_ops \<Rightarrow>
    id \<Rightarrow> ('h, 'q, 'f, 's, 'x) sim \<Rightarrow> panic + (('y + 'er) + socket) \<times> ('h, 'q, 'f, 's, 'x) sim" where
  "server_open n tp port cx =
     andThen (socket_open n (request_type tp) port cx) (\<lambda>(r, cx).
     Inr (case r of Inl error \<Rightarrow> Inl (Inr (addr_in_use tp error)) | Inr s \<Rightarrow> Inr s, cx))"

fun server_turn ::
  "('h, 'q, 'f, 's, 'x, 'v) env \<Rightarrow> ('h, 'q, 'f, 's, 'x, 'p, 'er, 'g) net_ops \<Rightarrow>
    ('h, 'q, 'f, 's, 'x, 'p, 'er, 'a, 'b, 'y) tower_ops \<Rightarrow>
    ('h, 'q, 'f, 's, 'x, 'a, 'b, 'y, 'k) service_ops \<Rightarrow> (('er, 'f) serve_state \<Rightarrow> 'f) \<Rightarrow> id \<Rightarrow> socket \<Rightarrow>
    'k \<times> 'a server_state \<Rightarrow> ('h, 'q, 'f, 's, 'x) sim \<Rightarrow>
    panic + (('k \<times> 'a server_state) \<times> ('y + 'er) option poll) \<times> ('h, 'q, 'f, 's, 'x) sim" where
  "server_turn e n tp sv serve_fut w s (k, ServerReceive) cx =
     andThen (socket_receive_poll n (request_type tp) (inbox s) w cx) (\<lambda>(r, cx).
     case r of
       Pending \<Rightarrow> Inr (((k, ServerReceive), Pending), cx)
     | Ready (Inl error) \<Rightarrow>
         andThen (socket_drop e n s cx) (\<lambda>(_, cx). Inr (((k, ServerReceive), Ready (Some (Inr error))), cx))
     | Ready (Inr (p, address)) \<Rightarrow>
         (case unpack_request tp p of
            Start req i \<Rightarrow> Inr (((k, ServerReady req i address), Ready None), cx)))"
| "server_turn e n tp sv serve_fut w s (k, ServerReady req i address) cx =
     andThen (service_poll_ready sv k w cx) (\<lambda>((k, r), cx).
     case r of
       Pending \<Rightarrow> Inr (((k, ServerReady req i address), Pending), cx)
     | Ready (Inl error) \<Rightarrow>
         andThen (socket_drop e n s cx) (\<lambda>(_, cx). Inr (((k, ServerReceive), Ready (Some (Inl error))), cx))
     | Ready (Inr _) \<Rightarrow>
         andThen (service_call sv k req cx) (\<lambda>((k, fut), cx).
         andThen (spawn e (serve_fut (Serving fut i (local_port s) address)) cx) (\<lambda>(_, cx).
         Inr (((k, ServerReceive), Ready None), cx))))"

partial_function (option) server_poll ::
  "('h, 'q, 'f, 's, 'x, 'v) env \<Rightarrow> ('h, 'q, 'f, 's, 'x, 'p, 'er, 'g) net_ops \<Rightarrow>
    ('h, 'q, 'f, 's, 'x, 'p, 'er, 'a, 'b, 'y) tower_ops \<Rightarrow>
    ('h, 'q, 'f, 's, 'x, 'a, 'b, 'y, 'k) service_ops \<Rightarrow> (('er, 'f) serve_state \<Rightarrow> 'f) \<Rightarrow> id \<Rightarrow> socket \<Rightarrow>
    'k \<times> 'a server_state \<Rightarrow> ('h, 'q, 'f, 's, 'x) sim \<Rightarrow>
    (panic + (('k \<times> 'a server_state) \<times> ('y + 'er) poll) \<times> ('h, 'q, 'f, 's, 'x) sim) option" where
  "server_poll e n tp sv serve_fut w s st cx =
     (case server_turn e n tp sv serve_fut w s st cx of
        Inl p \<Rightarrow> Some (Inl p)
      | Inr ((st, Pending), cx) \<Rightarrow> Some (Inr ((st, Pending), cx))
      | Inr ((st, Ready (Some error)), cx) \<Rightarrow> Some (Inr ((st, Ready error), cx))
      | Inr ((st, Ready None), cx) \<Rightarrow> server_poll e n tp sv serve_fut w s st cx)"

end
