(* ===== verification/Calls.thy ===== *)
theory Calls
  imports Tower Inboxes "HOL-Library.Multiset"
begin

text \<open>
  A client's conversation: its two tasks take turns in any order, with anything else in between that
  leaves the client's map of responders and its callers alone. Every request that the client takes from
  its queue is still open or its caller was sent an answer, once, and a response goes to the caller
  whose request has its id.
\<close>

section \<open>What the client relies on\<close>

text \<open>
  The callers of a client are the senders of the one-shot channels that arrive in its queue, and
  \<open>answers\<close> reads off the state of outside code what was sent through them so far, newest first.
\<close>

type_synonym ('x, 'y, 'er, 'b) answer_log = "'x \<Rightarrow> (nat \<times> ('y, 'er, 'b) tower_result) list"

definition keeps_client ::
  "('h, 'q, 'f, 's, 'x, 'p, 'er, 'a, 'b, 'y) tower_ops \<Rightarrow> nat \<Rightarrow> ('x, 'y, 'er, 'b) answer_log \<Rightarrow>
    ('h, 'q, 'f, 's, 'x) sim \<Rightarrow> ('h, 'q, 'f, 's, 'x) sim \<Rightarrow> bool" where
  "keeps_client tp c answers cx cx' \<longleftrightarrow>
     responders tp c (ext cx') = responders tp c (ext cx) \<and> answers (ext cx') = answers (ext cx) \<and>
     unat (pre_next_global_id cx) \<le> unat (pre_next_global_id cx')"

text \<open>
  The map of responders and the callers are private to the client: no code that its tasks call changes
  the map, sends through the callers, or sets the counter of ids back. Sending to a caller is an entry
  of the log, and the values of a hash map are visited in some order, each once.
\<close>

locale rpc_client =
  fixes e :: "('h, 'q, 'f, 's, 'x, 'v) env"
    and n :: "('h, 'q, 'f, 's, 'x, 'p, 'er, 'g) net_ops"
    and tp :: "('h, 'q, 'f, 's, 'x, 'p, 'er, 'a, 'b, 'y) tower_ops"
    and t :: send_task
    and u :: recv_task
    and answers :: "('x, 'y, 'er, 'b) answer_log"
    and callers :: "nat set"
  assumes shared: "rt_responders u = st_responders t"
    and get_put: "responders tp (st_responders t) (put_responders tp (st_responders t) rs x) = rs"
    and put_answers: "answers (put_responders tp (st_responders t) rs x) = answers x"
    and values_mset: "mset (values_order tp ss) = mset ss"
    and next_keeps: "mpsc_next tp (st_requests t) w cx = Inr (v, cx') \<Longrightarrow>
      keeps_client tp (st_responders t) answers cx cx'"
    and next_caller: "mpsc_next tp (st_requests t) w cx = Inr (Ready (Some (req, s)), cx') \<Longrightarrow> s \<in> callers"
    and oneshot_keeps: "oneshot_channel e x = (k, x') \<Longrightarrow>
      responders tp (st_responders t) x' = responders tp (st_responders t) x \<and> answers x' = answers x"
    and user_send_keeps: "call_send_function n g msg cx = Inr (out, cx') \<Longrightarrow>
      keeps_client tp (st_responders t) answers cx cx'"
    and sent_keeps: "poll_net_future tp f w cx = Inr (v', cx') \<Longrightarrow>
      keeps_client tp (st_responders t) answers cx cx'"
    and drop_keeps: "drop_future e f cx = Inr cx' \<Longrightarrow> keeps_client tp (st_responders t) answers cx cx'"
    and chan_poll_keeps: "chan_poll n i w cx = Inr (v'', cx') \<Longrightarrow>
      keeps_client tp (st_responders t) answers cx cx'"
    and call_send_logs: "s \<in> callers \<Longrightarrow> call_send tp s res cx = Inr cx' \<Longrightarrow>
      answers (ext cx') = (s, res) # answers (ext cx) \<and>
      responders tp (st_responders t) (ext cx') = responders tp (st_responders t) (ext cx) \<and>
      unat (pre_next_global_id cx) \<le> unat (pre_next_global_id cx')"

section \<open>Conversations\<close>

text \<open>
  The state of the sending task, the simulation, and the callers of the requests that were taken from
  the queue, which is read off what the queue gave to the turn. A step is a turn of one of the two
  tasks, with whatever it results in, or anything else that keeps the client.
\<close>

record ('h, 'q, 'f, 's, 'x, 'er) conversation =
  cv_state :: "('er, 'f) send_state"
  cv_sim :: "('h, 'q, 'f, 's, 'x) sim"
  cv_taken :: "nat list"

definition request_taken ::
  "('h, 'q, 'f, 's, 'x, 'p, 'er, 'a, 'b, 'y) tower_ops \<Rightarrow> id \<Rightarrow> send_task \<Rightarrow> ('er, 'f) send_state \<Rightarrow>
    ('h, 'q, 'f, 's, 'x) sim \<Rightarrow> nat list" where
  "request_taken tp w t st cx =
     (case st of
        AwaitSent _ _ _ \<Rightarrow> []
      | AwaitRequest \<Rightarrow>
          (case mpsc_next tp (st_requests t) w cx of
             Inr (Ready (Some (_, s)), _) \<Rightarrow> [s]
           | _ \<Rightarrow> []))"

inductive conversation_step ::
  "('h, 'q, 'f, 's, 'x, 'v) env \<Rightarrow> ('h, 'q, 'f, 's, 'x, 'p, 'er, 'g) net_ops \<Rightarrow>
    ('h, 'q, 'f, 's, 'x, 'p, 'er, 'a, 'b, 'y) tower_ops \<Rightarrow> send_task \<Rightarrow> recv_task \<Rightarrow>
    ('x, 'y, 'er, 'b) answer_log \<Rightarrow>
    ('h, 'q, 'f, 's, 'x, 'er) conversation \<Rightarrow> ('h, 'q, 'f, 's, 'x, 'er) conversation \<Rightarrow> bool"
  for e n tp t u answers where
  sending: "send_turn e n tp w t (cv_state v) (cv_sim v) = Inr ((st, r), cx') \<Longrightarrow>
    conversation_step e n tp t u answers v
      \<lparr>cv_state = st, cv_sim = cx', cv_taken = request_taken tp w t (cv_state v) (cv_sim v) @ cv_taken v\<rparr>"
| receiving: "recv_turn e n tp w u (cv_sim v) = Inr (r, cx') \<Longrightarrow>
    conversation_step e n tp t u answers v (v\<lparr>cv_sim := cx'\<rparr>)"
| other: "keeps_client tp (st_responders t) answers (cv_sim v) cx' \<Longrightarrow>
    conversation_step e n tp t u answers v (v\<lparr>cv_sim := cx'\<rparr>)"

definition start_conversation :: "('h, 'q, 'f, 's, 'x) sim \<Rightarrow> ('h, 'q, 'f, 's, 'x, 'er) conversation" where
  "start_conversation cx = \<lparr>cv_state = AwaitRequest, cv_sim = cx, cv_taken = []\<rparr>"

text \<open>The requests that are still open: the one that is being sent and those that wait for a response.\<close>

definition open_requests ::
  "('h, 'q, 'f, 's, 'x, 'p, 'er, 'a, 'b, 'y) tower_ops \<Rightarrow> nat \<Rightarrow> ('er, 'f) send_state \<Rightarrow>
    ('h, 'q, 'f, 's, 'x) sim \<Rightarrow> (id \<times> nat) list" where
  "open_requests tp c st cx =
     (case st of AwaitRequest \<Rightarrow> [] | AwaitSent i s _ \<Rightarrow> [(i, s)]) @ responders tp c (ext cx)"

abbreviation "open_calls tp t v \<equiv> open_requests tp (st_responders t) (cv_state v) (cv_sim v)"

text \<open>
  The account: the callers of the requests that were taken are those of the open requests and those in
  the log, each as often; open requests have different ids, which were handed out.
\<close>

definition account ::
  "('h, 'q, 'f, 's, 'x, 'p, 'er, 'a, 'b, 'y) tower_ops \<Rightarrow> nat \<Rightarrow> ('x, 'y, 'er, 'b) answer_log \<Rightarrow> nat set \<Rightarrow>
    ('er, 'f) send_state \<Rightarrow> ('h, 'q, 'f, 's, 'x) sim \<Rightarrow> nat list \<Rightarrow> bool" where
  "account tp c answers callers st cx taken \<longleftrightarrow>
     mset (map snd (open_requests tp c st cx)) + mset (map fst (answers (ext cx))) = mset taken \<and>
     distinct (map fst (open_requests tp c st cx)) \<and>
     (\<forall>(i, s) \<in> set (open_requests tp c st cx).
       unat (id_val i) \<le> unat (pre_next_global_id cx) \<and> s \<in> callers)"

section \<open>Every step keeps the account\<close>

lemma mset_update: "i \<notin> fst ` set rs \<Longrightarrow> mset (AList.update i s rs) = add_mset (i, s) (mset rs)"
  by (induction rs) auto

lemma mset_delete:
  "map_of rs i = Some s \<Longrightarrow> distinct (map fst rs) \<Longrightarrow>
    mset rs = add_mset (i, s) (mset (AList.delete i rs))"
proof (induction rs)
  case (Cons r rs)
  then show ?case
    by (cases "fst r = i") (auto simp: AList.delete_id image_iff)
qed simp

lemma keeps_client_refl [simp]: "keeps_client tp c answers cx cx"
  by (simp add: keeps_client_def)

lemma keeps_client_trans:
  "keeps_client tp c answers a b \<Longrightarrow> keeps_client tp c answers b d \<Longrightarrow> keeps_client tp c answers a d"
  by (auto simp: keeps_client_def)

lemma new_id_keeps:
  assumes "new_id chk cx = Inr (i, cx')"
  shows "keeps_client tp c answers cx cx'" and "unat (pre_next_global_id cx) < unat (id_val i)"
    and "unat (id_val i) \<le> unat (pre_next_global_id cx')"
  using new_id_wrapping [OF assms] by (auto simp: keeps_client_def)

lemma accountD:
  assumes "account tp c answers callers st cx taken"
  shows "mset (map snd (open_requests tp c st cx)) + mset (map fst (answers (ext cx))) = mset taken"
    and "distinct (map fst (open_requests tp c st cx))"
    and "i \<in> fst ` set (open_requests tp c st cx) \<Longrightarrow> unat (id_val i) \<le> unat (pre_next_global_id cx)"
    and "(i, s) \<in> set (open_requests tp c st cx) \<Longrightarrow> s \<in> callers"
    and "(i, s) \<in> set (responders tp c (ext cx)) \<Longrightarrow> s \<in> callers"
  using assms by (auto simp: account_def open_requests_def)

lemma account_bounds:
  assumes "account tp c answers callers st cx taken" and "set xs \<subseteq> set (open_requests tp c st cx)"
    and "unat (pre_next_global_id cx) \<le> k"
  shows "\<forall>(i, s) \<in> set xs. unat (id_val i) \<le> k \<and> s \<in> callers"
proof clarify
  fix i s
  assume "(i, s) \<in> set xs"
  then have o: "(i, s) \<in> set (open_requests tp c st cx)" using assms(2) by blast
  then have "i \<in> fst ` set (open_requests tp c st cx)" by force
  from le_trans [OF accountD(3) [OF assms(1) this] assms(3)] accountD(4) [OF assms(1) o]
  show "unat (id_val i) \<le> k \<and> s \<in> callers" by simp
qed

lemma account_keeps:
  assumes acc: "account tp c answers callers st cx taken" and k: "keeps_client tp c answers cx cx'"
  shows "account tp c answers callers st cx' taken"
proof -
  have "open_requests tp c st cx' = open_requests tp c st cx"
    using k by (simp add: open_requests_def keeps_client_def)
  then show ?thesis
    using acc k unfolding account_def keeps_client_def by (auto intro: le_trans)
qed

context rpc_client
begin

lemma set_responders_responders [simp]:
  "responders tp (st_responders t) (ext (set_responders tp (st_responders t) rs cx)) = rs"
  "answers (ext (set_responders tp (st_responders t) rs cx)) = answers (ext cx)"
  "pre_next_global_id (set_responders tp (st_responders t) rs cx) = pre_next_global_id cx"
  by (simp_all add: set_responders_def get_put put_answers)

lemma send_function_keeps:
  assumes "run_send_function e n f msg cx = Inr (out, cx')"
  shows "keeps_client tp (st_responders t) answers cx cx'"
proof (cases f)
  case (PerfectConnectivity latency)
  then obtain at_time h where "spawn_task_on_node e INIT (delivery_future n (Enqueued at_time
      (hd_dst (header msg), hd_ty (header msg)) (Inr msg))) cx = Inr (h, cx')"
    using assms by (auto simp: enqueue_packet_def enqueue_def)
  then obtain k x i where "oneshot_channel e (ext cx) = (k, x)" "ext cx' = x"
    "unat (id_val i) = Suc (unat (pre_next_global_id cx))" "pre_next_global_id cx' = id_val i"
    by (rule spawn_task_effect) simp
  then show ?thesis using oneshot_keeps by (simp add: keeps_client_def)
next
  case (UserFunction g)
  then show ?thesis using assms user_send_keeps by auto
qed

lemma send_keeps:
  assumes "tower_send e n port dst p cx = Inr (out, cx')"
  shows "keeps_client tp (st_responders t) answers cx cx'"
proof -
  obtain g0 cx0 where g: "simulator_get NET cx = Inr (g0, cx0)"
    and "with_net n (net_send e n port dst p) cx0 = Inr (out, cx')"
    using assms by (auto simp: tower_send_def)
  from this(2) show ?thesis
  proof (cases rule: with_net_cases)
    case (1 i s net net' cx1)
    then obtain f msg out' where "run_send_function e n f msg (cx0\<lparr>simulators := (simulators cx0)[i := None]\<rparr>) =
        Inr (out', cx1)"
      by (auto simp: net_send_def send_wrapped_def split: if_splits)
    from send_function_keeps [OF this] 1(10) g show ?thesis
      by (auto simp: keeps_client_def simulator_get_def with_cx_Inr split: if_splits)
  qed
qed

lemma receive_keeps:
  assumes "socket_receive_poll n ty i w cx = Inr (v, cx')"
  shows "keeps_client tp (st_responders t) answers cx cx'"
proof -
  obtain r cx1 where p: "chan_poll n i w cx = Inr (r, cx1)"
    using assms by (auto simp: socket_receive_poll_def)
  with assms have "cx' = cx1" by (cases r) (auto simp: socket_receive_poll_def)
  then show ?thesis using chan_poll_keeps [OF p] by simp
qed

lemma await_sent_keeps:
  assumes "await_sent e tp w out cx = Inr ((out', v), cx')"
  shows "keeps_client tp (st_responders t) answers cx cx'"
proof (cases out)
  case (Deferred f)
  then obtain f' v1 cx1 where f: "poll_net_future tp f w cx = Inr ((f', v1), cx1)"
    and r: "(case v1 of Pending \<Rightarrow> Inr ((Deferred f', Pending), cx1)
      | Ready r \<Rightarrow> andThen (drop_future e f' cx1) (\<lambda>cx. Inr ((Deferred f', Ready r), cx))) = Inr ((out', v), cx')"
    using assms by auto
  note k = sent_keeps [OF f]
  show ?thesis
  proof (cases v1)
    case Pending
    then show ?thesis using r k by simp
  next
    case (Ready x)
    then have "drop_future e f' cx1 = Inr cx'" using r by auto
    from keeps_client_trans [OF k drop_keeps [OF this]] show ?thesis .
  qed
qed (use assms in simp)

text \<open>A turn of the sending task waits, takes a request, or ends one that was accepted or refused.\<close>

lemma send_turn_cases:
  assumes turn: "send_turn e n tp w t st cx = Inr ((st', r), cx')"
    and mine: "\<forall>i s out. st = AwaitSent i s out \<longrightarrow> s \<in> callers"
  obtains (waits) "keeps_client tp (st_responders t) answers cx cx'" "request_taken tp w t st cx = []"
      "open_requests tp (st_responders t) st' cx' = open_requests tp (st_responders t) st cx"
  | (takes) i s out where "st = AwaitRequest" "st' = AwaitSent i s out" "keeps_client tp (st_responders t) answers cx cx'"
      "request_taken tp w t st cx = [s]" "s \<in> callers"
      "unat (pre_next_global_id cx) < unat (id_val i)" "unat (id_val i) \<le> unat (pre_next_global_id cx')"
  | (accepted) i s out where "st = AwaitSent i s out" "st' = AwaitRequest"
      "request_taken tp w t st cx = []"
      "responders tp (st_responders t) (ext cx') =
        AList.update i s (responders tp (st_responders t) (ext cx))"
      "answers (ext cx') = answers (ext cx)" "unat (pre_next_global_id cx) \<le> unat (pre_next_global_id cx')"
  | (refused) i s out error where "st = AwaitSent i s out" "st' = AwaitRequest"
      "request_taken tp w t st cx = []"
      "responders tp (st_responders t) (ext cx') = responders tp (st_responders t) (ext cx)"
      "answers (ext cx') = (s, Inl (Inr error)) # answers (ext cx)"
      "unat (pre_next_global_id cx) \<le> unat (pre_next_global_id cx')"
proof (cases st)
  case AwaitRequest
  then obtain v cx1 where nx: "mpsc_next tp (st_requests t) w cx = Inr (v, cx1)" using turn by auto
  note k = next_keeps [OF nx]
  show thesis
  proof (cases v)
    case Pending
    then show thesis using waits turn nx k AwaitRequest by (simp add: request_taken_def open_requests_def keeps_client_def)
  next
    case (Ready o')
    then obtain req s where v: "v = Ready (Some (req, s))" using turn nx AwaitRequest by (cases o') auto
    then obtain i cx2 out where new: "new_id (debug_build e) cx1 = Inr (i, cx2)"
      and send: "tower_send e n (st_port t) (st_remote t) (pack_request tp (Start req i)) cx2 = Inr (out, cx')"
      and st': "st' = AwaitSent i s out"
      using turn nx AwaitRequest by auto
    note k = k new_id_keeps(1) [OF new] send_keeps [OF send]
    have "keeps_client tp (st_responders t) answers cx cx'" using k keeps_client_trans by blast
    moreover have "unat (pre_next_global_id cx) < unat (id_val i)"
      "unat (id_val i) \<le> unat (pre_next_global_id cx')"
      using k(1,3) new_id_keeps(2,3) [OF new] unfolding keeps_client_def by linarith+
    ultimately show thesis
      using takes [OF AwaitRequest st'] nx v next_caller AwaitRequest by (simp add: request_taken_def)
  qed
next
  case (AwaitSent i s out)
  then obtain out' v cx1 where sent: "await_sent e tp w out cx = Inr ((out', v), cx1)" using turn by auto
  note k = await_sent_keeps [OF sent]
  have none: "request_taken tp w t st cx = []" by (simp add: AwaitSent request_taken_def)
  show thesis
  proof (cases v)
    case Pending
    with turn sent AwaitSent have st': "st' = AwaitSent i s out'" and cx': "cx' = cx1" by auto
    have "open_requests tp (st_responders t) st' cx' = open_requests tp (st_responders t) st cx"
      using k by (simp add: st' cx' AwaitSent open_requests_def keeps_client_def)
    with k none show thesis by (simp only: waits cx')
  next
    case (Ready res)
    show thesis
    proof (cases res)
      case (Inr x)
      then show thesis
        using accepted [OF AwaitSent _ none] turn sent k Ready AwaitSent by (auto simp: keeps_client_def)
    next
      case (Inl error)
      then have "call_send tp s (Inl (Inr error)) cx1 = Inr cx'" and "st' = AwaitRequest"
        using turn sent Ready AwaitSent by auto
      with call_send_logs [OF _ this(1)] mine AwaitSent k show thesis
        using refused [OF AwaitSent _ none] by (auto simp: keeps_client_def)
    qed
  qed
qed

text \<open>What a response and an error of the socket do, when the account holds.\<close>

lemma answer_effect:
  assumes acc: "account tp (st_responders t) answers callers st cx taken"
    and ans: "answer tp (st_responders t) (Complete result i) cx = Inr cx'"
  obtains s where "map_of (responders tp (st_responders t) (ext cx)) i = Some s"
    and "answers (ext cx') = (s, service_result result) # answers (ext cx)"
    and "responders tp (st_responders t) (ext cx') = AList.delete i (responders tp (st_responders t) (ext cx))"
    and "unat (pre_next_global_id cx) \<le> unat (pre_next_global_id cx')"
proof -
  let ?rs = "responders tp (st_responders t) (ext cx)"
  let ?c = "set_responders tp (st_responders t) (AList.delete i ?rs) cx"
  obtain s where s: "map_of ?rs i = Some s" and "call_send tp s (service_result result) ?c = Inr cx'"
    using ans by (auto simp: answer_def Let_def)
  moreover have "s \<in> callers"
    by (rule accountD(5) [OF acc map_of_SomeD [OF s]])
  ultimately have "answers (ext cx') = (s, service_result result) # answers (ext ?c) \<and>
      responders tp (st_responders t) (ext cx') = responders tp (st_responders t) (ext ?c) \<and>
      unat (pre_next_global_id ?c) \<le> unat (pre_next_global_id cx')"
    by (intro call_send_logs)
  with s show thesis by (intro that) (simp_all only: set_responders_responders)
qed

lemma fail_all_effect:
  assumes acc: "account tp (st_responders t) answers callers st cx taken"
    and "fail_all tp (st_responders t) error cx = Inr cx'"
  shows "responders tp (st_responders t) (ext cx') = []"
    and "mset (answers (ext cx')) = mset (answers (ext cx)) +
      mset (map (\<lambda>(i, s). (s, Inl (Inr (shared_error tp error)))) (responders tp (st_responders t) (ext cx)))"
    and "unat (pre_next_global_id cx) \<le> unat (pre_next_global_id cx')"
proof -
  let ?rs = "responders tp (st_responders t) (ext cx)"
  let ?c = "set_responders tp (st_responders t) [] cx"
  let ?e = "Inl (Inr (shared_error tp error)) :: ('y, 'er, 'b) tower_result"
  have all: "responders tp (st_responders t) (ext d') = responders tp (st_responders t) (ext d) \<and>
      answers (ext d') = map (\<lambda>s. (s, ?e)) (rev ss) @ answers (ext d) \<and>
      unat (pre_next_global_id d) \<le> unat (pre_next_global_id d')"
    if "foldE (\<lambda>s cx. call_send tp s ?e cx) ss d = Inr d'" "set ss \<subseteq> callers" for ss d d'
    using that
  proof (induction ss arbitrary: d)
    case (Cons s ss)
    then obtain d1 where d1: "call_send tp s ?e d = Inr d1"
      and rest: "foldE (\<lambda>s cx. call_send tp s ?e cx) ss d1 = Inr d'" by auto
    then show ?case using call_send_logs [OF _ d1] Cons.IH [OF rest] Cons.prems(2) by auto
  qed simp
  let ?ss = "values_order tp (map snd ?rs)"
  have ss: "mset ?ss = mset (map snd ?rs)" by (rule values_mset)
  have "set ?ss = snd ` set ?rs" using arg_cong [OF ss, of set_mset] by simp
  then have "set ?ss \<subseteq> callers" using accountD(5) [OF acc] by auto
  moreover have "foldE (\<lambda>s cx. call_send tp s ?e cx) ?ss ?c = Inr cx'"
    using assms(2) by (simp add: fail_all_def Let_def)
  ultimately have k: "responders tp (st_responders t) (ext cx') = []"
    "answers (ext cx') = map (\<lambda>s. (s, ?e)) (rev ?ss) @ answers (ext cx)"
    "unat (pre_next_global_id cx) \<le> unat (pre_next_global_id cx')"
    using all [of ?ss ?c cx'] by (simp_all only: set_responders_responders)
  show "responders tp (st_responders t) (ext cx') = []"
    "unat (pre_next_global_id cx) \<le> unat (pre_next_global_id cx')" by (fact k)+
  have "mset (map (\<lambda>s. (s, ?e)) (rev ?ss)) = image_mset (\<lambda>s. (s, ?e)) (mset (map snd ?rs))"
    by (simp add: ss)
  also have "\<dots> = mset (map (\<lambda>(i, s). (s, ?e)) ?rs)"
    by (simp add: multiset.map_comp comp_def case_prod_unfold)
  finally show "mset (answers (ext cx')) = mset (answers (ext cx)) + mset (map (\<lambda>(i, s). (s, ?e)) ?rs)"
    by (simp add: k(2))
qed

text \<open>A turn of the receiving task waits, answers one caller or fails all.\<close>

lemma recv_turn_cases:
  assumes acc: "account tp (st_responders t) answers callers st cx taken"
    and turn: "recv_turn e n tp w u cx = Inr (r, cx')"
  obtains (waits) cx1 where "socket_receive_poll n (response_type tp) (inbox (rt_socket u)) w cx =
        Inr (Pending, cx1)" "keeps_client tp (st_responders t) answers cx cx'"
  | (response) p a cx1 result i s where
      "socket_receive_poll n (response_type tp) (inbox (rt_socket u)) w cx = Inr (Ready (Inr (p, a)), cx1)"
      "unpack_response tp p = Complete result i"
      "map_of (responders tp (st_responders t) (ext cx)) i = Some s"
      "answers (ext cx') = (s, service_result result) # answers (ext cx)"
      "responders tp (st_responders t) (ext cx') = AList.delete i (responders tp (st_responders t) (ext cx))"
      "unat (pre_next_global_id cx) \<le> unat (pre_next_global_id cx')"
  | (error) error cx1 where
      "socket_receive_poll n (response_type tp) (inbox (rt_socket u)) w cx = Inr (Ready (Inl error), cx1)"
      "mset (answers (ext cx')) = mset (answers (ext cx)) +
        mset (map (\<lambda>(i, s). (s, Inl (Inr (shared_error tp error)))) (responders tp (st_responders t) (ext cx)))"
      "responders tp (st_responders t) (ext cx') = []"
      "unat (pre_next_global_id cx) \<le> unat (pre_next_global_id cx')"
proof -
  obtain v cx1 where rcv: "socket_receive_poll n (response_type tp) (inbox (rt_socket u)) w cx = Inr (v, cx1)"
    using turn by (auto simp: recv_turn_def)
  note k = receive_keeps [OF rcv]
  note acc1 = account_keeps [OF acc k]
  show thesis
  proof (cases v)
    case Pending
    then show thesis using waits rcv k turn by (simp add: recv_turn_def)
  next
    case (Ready res)
    show thesis
    proof (cases res)
      case (Inl er)
      then have "fail_all tp (st_responders t) er cx1 = Inr cx'"
        using turn rcv Ready by (auto simp: recv_turn_def shared)
      note f = fail_all_effect [OF acc1 this]
      show thesis
        by (rule error [OF rcv [unfolded Ready Inl]])
          (use f k in \<open>auto simp: keeps_client_def\<close>)
    next
      case (Inr pa)
      obtain p a where pa: "pa = (p, a)" by (cases pa)
      obtain result i where c: "unpack_response tp p = Complete result i" by (cases "unpack_response tp p")
      have "answer tp (st_responders t) (Complete result i) cx1 = Inr cx'"
        using turn rcv Ready Inr pa c by (auto simp: recv_turn_def shared split: if_splits)
      then obtain s where a: "map_of (responders tp (st_responders t) (ext cx1)) i = Some s"
        "answers (ext cx') = (s, service_result result) # answers (ext cx1)"
        "responders tp (st_responders t) (ext cx') = AList.delete i (responders tp (st_responders t) (ext cx1))"
        "unat (pre_next_global_id cx1) \<le> unat (pre_next_global_id cx')"
        by (rule answer_effect [OF acc1])
      have k: "responders tp (st_responders t) (ext cx1) = responders tp (st_responders t) (ext cx)"
        "answers (ext cx1) = answers (ext cx)" "unat (pre_next_global_id cx) \<le> unat (pre_next_global_id cx1)"
        using k by (simp_all add: keeps_client_def)
      show thesis
        by (rule response [OF rcv [unfolded Ready Inr pa] c a(1-3) [unfolded k(1,2)] le_trans [OF k(3) a(4)]])
    qed
  qed
qed

lemma account_send:
  assumes acc: "account tp (st_responders t) answers callers st cx taken"
    and turn: "send_turn e n tp w t st cx = Inr ((st', r), cx')"
  shows "account tp (st_responders t) answers callers st' cx' (request_taken tp w t st cx @ taken)"
    and "i \<in> fst ` set (open_requests tp (st_responders t) st' cx') \<Longrightarrow>
      i \<in> fst ` set (open_requests tp (st_responders t) st cx) \<or> unat (pre_next_global_id cx) < unat (id_val i)"
    and "unat (pre_next_global_id cx) \<le> unat (pre_next_global_id cx')"
proof -
  let ?new = "account tp (st_responders t) answers callers st' cx' (request_taken tp w t st cx @ taken)"
  let ?ids = "fst ` set (open_requests tp (st_responders t) st' cx') \<subseteq>
    fst ` set (open_requests tp (st_responders t) st cx) \<union> {i. unat (pre_next_global_id cx) < unat (id_val i)}"
  let ?mono = "unat (pre_next_global_id cx) \<le> unat (pre_next_global_id cx')"
  have mine: "\<forall>i s out. st = AwaitSent i s out \<longrightarrow> s \<in> callers"
    using accountD(4) [OF acc] by (fastforce simp: open_requests_def)
  note a = accountD(1-3) [OF acc]
  have "?new \<and> ?ids \<and> ?mono"
  proof (cases rule: send_turn_cases [OF turn mine, case_names waits takes accepted refused])
    case waits
    then show ?thesis
      using acc unfolding account_def keeps_client_def by (auto intro: le_trans)
  next
    case (takes i s out)
    have o: "open_requests tp (st_responders t) st' cx' = (i, s) # open_requests tp (st_responders t) st cx"
      using takes(3) by (simp add: takes(1,2) open_requests_def keeps_client_def)
    have fresh: "i \<notin> fst ` set (open_requests tp (st_responders t) st cx)" using a(3) takes(6) by force
    have ?mono and same: "answers (ext cx') = answers (ext cx)" using takes(3) by (auto simp: keeps_client_def)
    moreover have ?new
    proof -
      note account_bounds [OF acc subset_refl \<open>?mono\<close>]
      then show ?thesis
        unfolding account_def o same takes(4) using a(1,2) fresh takes(5,7) by simp
    qed
    ultimately show ?thesis using takes(6) by (auto simp: o)
  next
    case (accepted i s out)
    let ?rs = "responders tp (st_responders t) (ext cx)"
    have o: "open_requests tp (st_responders t) st cx = (i, s) # ?rs"
      and o': "open_requests tp (st_responders t) st' cx' = AList.update i s ?rs"
      by (simp_all add: accepted(1,2,4) open_requests_def)
    have i: "i \<notin> fst ` set ?rs" and d: "distinct (map fst ?rs)" using a(2) by (simp_all add: o)
    have m: "mset (AList.update i s ?rs) = mset ((i, s) # ?rs)" by (simp add: mset_update [OF i])
    have "set (AList.update i s ?rs) = set ((i, s) # ?rs)" by (metis m set_mset_mset)
    moreover have "mset (map snd (AList.update i s ?rs)) = mset (map snd ((i, s) # ?rs))" by (simp add: m)
    moreover have "distinct (map fst (AList.update i s ?rs))" by (simp add: distinct_update d)
    ultimately show ?thesis
      using acc accepted(6) unfolding account_def o o' accepted(3,5) by (auto intro: le_trans)
  next
    case (refused i s out error)
    let ?rs = "responders tp (st_responders t) (ext cx)"
    have o: "open_requests tp (st_responders t) st cx = (i, s) # ?rs"
      and o': "open_requests tp (st_responders t) st' cx' = ?rs"
      by (simp_all add: refused(1,2,4) open_requests_def)
    show ?thesis
      using acc refused(6) unfolding account_def o o' refused(3,5) by (auto intro: le_trans)
  qed
  then show ?new and ?mono and "i \<in> fst ` set (open_requests tp (st_responders t) st' cx') \<Longrightarrow>
      i \<in> fst ` set (open_requests tp (st_responders t) st cx) \<or> unat (pre_next_global_id cx) < unat (id_val i)"
    by auto
qed

lemma account_recv:
  assumes acc: "account tp (st_responders t) answers callers st cx taken"
    and turn: "recv_turn e n tp w u cx = Inr (r, cx')"
  shows "account tp (st_responders t) answers callers st cx' taken"
    and "set (open_requests tp (st_responders t) st cx') \<subseteq> set (open_requests tp (st_responders t) st cx)"
    and "unat (pre_next_global_id cx) \<le> unat (pre_next_global_id cx')"
proof -
  let ?new = "account tp (st_responders t) answers callers st cx' taken"
  let ?ids = "set (open_requests tp (st_responders t) st cx') \<subseteq> set (open_requests tp (st_responders t) st cx)"
  let ?mono = "unat (pre_next_global_id cx) \<le> unat (pre_next_global_id cx')"
  let ?rs = "responders tp (st_responders t) (ext cx)"
  let ?now = "case st of AwaitRequest \<Rightarrow> [] | AwaitSent i s _ \<Rightarrow> [(i, s)]"
  note a = accountD(1-3) [OF acc]
  have d: "distinct (map fst ?rs)" using a(2) by (simp add: open_requests_def)
  have m: "mset (map snd ?now) + mset (map snd ?rs) + mset (map fst (answers (ext cx))) = mset taken"
    using a(1) by (simp add: open_requests_def)
  have "?new \<and> ?ids \<and> ?mono"
  proof (cases rule: recv_turn_cases [OF acc turn, case_names waits response error])
    case (waits cx1)
    have "open_requests tp (st_responders t) st cx' = open_requests tp (st_responders t) st cx"
      using waits(2) by (simp add: open_requests_def keeps_client_def)
    then show ?thesis using account_keeps [OF acc waits(2)] waits(2) by (simp add: keeps_client_def)
  next
    case (response p a cx1 result i s)
    have o': "open_requests tp (st_responders t) st cx' = ?now @ AList.delete i ?rs"
      by (simp add: open_requests_def response(5))
    have sub: "set (AList.delete i ?rs) \<subseteq> set ?rs" by (auto simp: AList.delete_eq)
    have del: "mset ?rs = add_mset (i, s) (mset (AList.delete i ?rs))" by (rule mset_delete [OF response(3) d])
    have "mset (map snd ?now) + mset (map snd (AList.delete i ?rs)) + add_mset s (mset (map fst (answers (ext cx)))) = mset taken"
      using m by (simp add: del)
    moreover have "distinct (map fst (?now @ AList.delete i ?rs))"
    proof -
      have "fst ` set ?now \<inter> fst ` set ?rs = {}"
        using a(2) unfolding open_requests_def map_append distinct_append set_map by blast
      with image_mono [OF sub, of fst] have "fst ` set ?now \<inter> fst ` set (AList.delete i ?rs) = {}"
        by blast
      then show ?thesis using a(2) by (simp add: open_requests_def distinct_delete)
    qed
    moreover have "set (?now @ AList.delete i ?rs) \<subseteq> set (open_requests tp (st_responders t) st cx)"
      using sub by (auto simp: open_requests_def)
    note this account_bounds [OF acc this response(6)]
    ultimately show ?thesis
      using response(6) unfolding account_def o' response(4) by simp
  next
    case (error error cx1)
    have o': "open_requests tp (st_responders t) st cx' = ?now" by (simp add: open_requests_def error(3))
    have "mset (map fst (answers (ext cx'))) = image_mset fst (mset (answers (ext cx')))" by simp
    also have "\<dots> = mset (map fst (answers (ext cx))) + mset (map snd ?rs)"
      unfolding error(2) by (simp add: multiset.map_comp comp_def case_prod_unfold)
    finally have "mset (map snd ?now) + mset (map fst (answers (ext cx'))) = mset taken"
      using m by (simp add: ac_simps)
    moreover have "distinct (map fst ?now)" by (simp split: send_state.split)
    moreover have "set ?now \<subseteq> set (open_requests tp (st_responders t) st cx)"
      by (simp add: open_requests_def)
    note this account_bounds [OF acc this error(4)]
    ultimately show ?thesis
      using error(4) unfolding account_def o' by simp
  qed
  then show ?new ?mono ?ids by blast+
qed

text \<open>Every step keeps the account, opens only requests with new ids, and never sets the counter back.\<close>

lemma account_step:
  assumes "conversation_step e n tp t u answers v v'"
    and acc: "account tp (st_responders t) answers callers (cv_state v) (cv_sim v) (cv_taken v)"
  shows "account tp (st_responders t) answers callers (cv_state v') (cv_sim v') (cv_taken v')"
    and "i \<in> fst ` set (open_calls tp t v') \<Longrightarrow>
      i \<in> fst ` set (open_calls tp t v) \<or> unat (pre_next_global_id (cv_sim v)) < unat (id_val i)"
    and "unat (pre_next_global_id (cv_sim v)) \<le> unat (pre_next_global_id (cv_sim v'))"
proof -
  let ?new = "account tp (st_responders t) answers callers (cv_state v') (cv_sim v') (cv_taken v')"
  let ?ids = "fst ` set (open_calls tp t v') \<subseteq>
    fst ` set (open_calls tp t v) \<union> {i. unat (pre_next_global_id (cv_sim v)) < unat (id_val i)}"
  let ?mono = "unat (pre_next_global_id (cv_sim v)) \<le> unat (pre_next_global_id (cv_sim v'))"
  from assms(1) have "?new \<and> ?ids \<and> ?mono"
  proof cases
    case (sending w st r cx')
    note a = account_send [OF acc sending(2)]
    show ?thesis unfolding sending(1) using a(1,3) a(2) by auto
  next
    case (receiving w r cx')
    from account_recv [OF acc receiving(2)] show ?thesis unfolding receiving(1) by auto
  next
    case (other cx')
    have "open_requests tp (st_responders t) (cv_state v) cx' = open_calls tp t v"
      using other(2) by (simp add: open_requests_def keeps_client_def)
    with account_keeps [OF acc other(2)] other(2) show ?thesis unfolding other(1) by (simp add: keeps_client_def)
  qed
  then show ?new and ?mono and "i \<in> fst ` set (open_calls tp t v') \<Longrightarrow>
      i \<in> fst ` set (open_calls tp t v) \<or> unat (pre_next_global_id (cv_sim v)) < unat (id_val i)"
    by auto
qed

lemma account_run:
  assumes "(conversation_step e n tp t u answers)\<^sup>*\<^sup>* (start_conversation cx) v"
    and "responders tp (st_responders t) (ext cx) = []" and "answers (ext cx) = []"
  shows "account tp (st_responders t) answers callers (cv_state v) (cv_sim v) (cv_taken v)"
  using assms(1)
proof (induction rule: rtranclp_induct)
  case base
  then show ?case
    using assms(2,3) by (simp add: account_def start_conversation_def open_requests_def)
qed (rule account_step)

text \<open>A request that is over stays so.\<close>

lemma closed_step:
  assumes "conversation_step e n tp t u answers v v'"
    and "account tp (st_responders t) answers callers (cv_state v) (cv_sim v) (cv_taken v)"
    and "i \<notin> fst ` set (open_calls tp t v)" and "unat (id_val i) \<le> unat (pre_next_global_id (cv_sim v))"
  shows "i \<notin> fst ` set (open_calls tp t v') \<and> unat (id_val i) \<le> unat (pre_next_global_id (cv_sim v'))"
  using account_step(2,3) [OF assms(1,2)] assms(3,4) by force

lemma closed_run:
  assumes "(conversation_step e n tp t u answers)\<^sup>*\<^sup>* v v'"
    and acc: "account tp (st_responders t) answers callers (cv_state v) (cv_sim v) (cv_taken v)"
    and "i \<notin> fst ` set (open_calls tp t v)" and "unat (id_val i) \<le> unat (pre_next_global_id (cv_sim v))"
  shows "i \<notin> fst ` set (open_calls tp t v')"
proof -
  from assms(1) have "account tp (st_responders t) answers callers (cv_state v') (cv_sim v') (cv_taken v') \<and>
    i \<notin> fst ` set (open_calls tp t v') \<and> unat (id_val i) \<le> unat (pre_next_global_id (cv_sim v'))"
  proof (induction rule: rtranclp_induct)
    case base
    then show ?case using assms(2-) by simp
  next
    case (step v1 v2)
    then show ?case using account_step(1) [OF step(2)] closed_step [OF step(2)] by blast
  qed
  then show ?thesis by simp
qed

end

section \<open>Answers\<close>

text \<open>
  C36: However the tasks of a client interleave with each other and with the rest of the program, every
  request that was taken from the queue is either open (it is being sent, or its caller waits under its
  id) or something was sent to its caller, once; open requests have different ids. A turn that receives
  a response and returns sends its result to the caller of the request with that id, which was open, and
  to no other; a turn that receives an error of the socket sends it to every caller that waits. What
  was sent is read off the callers of the client, by the log \<open>answers\<close>.
\<close>

theorem calls_are_answered_once:
  assumes client: "rpc_client e n tp t u answers callers"
    and start: "responders tp (st_responders t) (ext cx) = []" "answers (ext cx) = []"
    and run: "(conversation_step e n tp t u answers)\<^sup>*\<^sup>* (start_conversation cx) v"
  shows "mset (map snd (open_calls tp t v)) + mset (map fst (answers (ext (cv_sim v)))) = mset (cv_taken v) \<and>
    distinct (map fst (open_calls tp t v)) \<and>
    (\<forall>w p a cx1 result i r cx'.
      socket_receive_poll n (response_type tp) (inbox (rt_socket u)) w (cv_sim v) = Inr (Ready (Inr (p, a)), cx1) \<and>
      unpack_response tp p = Complete result i \<and> recv_turn e n tp w u (cv_sim v) = Inr (r, cx') \<longrightarrow>
      (\<exists>s. (i, s) \<in> set (open_calls tp t v) \<and>
        answers (ext cx') = (s, service_result result) # answers (ext (cv_sim v)))) \<and>
    (\<forall>w error cx1 r cx'.
      socket_receive_poll n (response_type tp) (inbox (rt_socket u)) w (cv_sim v) = Inr (Ready (Inl error), cx1) \<and>
      recv_turn e n tp w u (cv_sim v) = Inr (r, cx') \<longrightarrow>
      mset (answers (ext cx')) = mset (answers (ext (cv_sim v))) +
        mset (map (\<lambda>(i, s). (s, Inl (Inr (shared_error tp error))))
          (responders tp (st_responders t) (ext (cv_sim v)))))"
proof -
  note acc = rpc_client.account_run [OF client run start]
  have response: "\<exists>s. (i, s) \<in> set (open_calls tp t v) \<and>
      answers (ext cx') = (s, service_result result) # answers (ext (cv_sim v))"
    if rcv: "socket_receive_poll n (response_type tp) (inbox (rt_socket u)) w (cv_sim v) =
        Inr (Ready (Inr (p, a)), cx1)"
      and c: "unpack_response tp p = Complete result i" and turn: "recv_turn e n tp w u (cv_sim v) = Inr (r, cx')"
    for w p a cx1 result i r cx'
  proof (cases rule: rpc_client.recv_turn_cases [OF client acc turn, case_names waits response error])
    case (response p' a' cx2 result' i' s)
    with rcv c show ?thesis by (auto simp: open_requests_def dest: map_of_SomeD)
  qed (use rcv in auto)
  have error: "mset (answers (ext cx')) = mset (answers (ext (cv_sim v))) +
      mset (map (\<lambda>(i, s). (s, Inl (Inr (shared_error tp error)))) (responders tp (st_responders t) (ext (cv_sim v))))"
    if rcv: "socket_receive_poll n (response_type tp) (inbox (rt_socket u)) w (cv_sim v) = Inr (Ready (Inl error), cx1)"
      and turn: "recv_turn e n tp w u (cv_sim v) = Inr (r, cx')" for w error cx1 r cx'
  proof (cases rule: rpc_client.recv_turn_cases [OF client acc turn, case_names waits response error])
    case (error er cx2)
    with rcv show ?thesis by simp
  qed (use rcv in auto)
  show ?thesis
    using accountD(1,2) [OF acc] response error by blast
qed

text \<open>
  How a request ends: its response was received, or an error of the socket while its caller waited, or
  its send failed.
\<close>

inductive call_over ::
  "('h, 'q, 'f, 's, 'x, 'v) env \<Rightarrow> ('h, 'q, 'f, 's, 'x, 'p, 'er, 'g) net_ops \<Rightarrow>
    ('h, 'q, 'f, 's, 'x, 'p, 'er, 'a, 'b, 'y) tower_ops \<Rightarrow> send_task \<Rightarrow> recv_task \<Rightarrow> id \<Rightarrow>
    ('h, 'q, 'f, 's, 'x, 'er) conversation \<Rightarrow> ('h, 'q, 'f, 's, 'x, 'er) conversation \<Rightarrow> bool"
  for e n tp t u i v where
  responded: "socket_receive_poll n (response_type tp) (inbox (rt_socket u)) w (cv_sim v) =
      Inr (Ready (Inr (p, a)), cx1) \<Longrightarrow>
    unpack_response tp p = Complete result i \<Longrightarrow> recv_turn e n tp w u (cv_sim v) = Inr (r, cx') \<Longrightarrow>
    call_over e n tp t u i v (v\<lparr>cv_sim := cx'\<rparr>)"
| socket_failed: "socket_receive_poll n (response_type tp) (inbox (rt_socket u)) w (cv_sim v) =
      Inr (Ready (Inl error), cx1) \<Longrightarrow>
    i \<in> fst ` set (responders tp (st_responders t) (ext (cv_sim v))) \<Longrightarrow>
    recv_turn e n tp w u (cv_sim v) = Inr (r, cx') \<Longrightarrow>
    call_over e n tp t u i v (v\<lparr>cv_sim := cx'\<rparr>)"
| send_failed: "cv_state v = AwaitSent i s out \<Longrightarrow>
    await_sent e tp w out (cv_sim v) = Inr ((out', Ready (Inl er)), cx1) \<Longrightarrow>
    send_turn e n tp w t (cv_state v) (cv_sim v) = Inr ((st, r), cx') \<Longrightarrow>
    call_over e n tp t u i v (v\<lparr>cv_state := st, cv_sim := cx'\<rparr>)"

context rpc_client
begin

lemma over_step:
  assumes "call_over e n tp t u i v v'"
  shows "conversation_step e n tp t u answers v v'"
  using assms
proof cases
  case (send_failed s out w out' er cx1 st r cx')
  have "request_taken tp w t (cv_state v) (cv_sim v) = []" by (simp add: send_failed(2) request_taken_def)
  with conversation_step.sending [OF send_failed(4), of u answers] show ?thesis
    unfolding send_failed(1) by (cases v) simp
qed (auto intro: conversation_step.receiving)

lemma over_closed:
  assumes "call_over e n tp t u i v v'"
    and acc: "account tp (st_responders t) answers callers (cv_state v) (cv_sim v) (cv_taken v)"
  shows "i \<notin> fst ` set (open_calls tp t v') \<and> unat (id_val i) \<le> unat (pre_next_global_id (cv_sim v'))"
proof -
  have d: "distinct (map fst (open_calls tp t v))" by (rule accountD(2) [OF acc])
  have bound: "unat (id_val i) \<le> unat (pre_next_global_id (cv_sim v'))"
    if "i \<in> fst ` set (open_calls tp t v)"
    using accountD(3) [OF acc that] account_step(3) [OF over_step [OF assms(1)] acc] by linarith
  from assms(1) show ?thesis
  proof cases
    case (responded w p a cx1 result r cx')
    show ?thesis
    proof (cases rule: recv_turn_cases [OF acc responded(4), case_names waits response error])
      case (response p' a' cx2 result' i' s)
      then have i: "i' = i" using responded(2,3) by simp
      have "i \<in> fst ` set (responders tp (st_responders t) (ext (cv_sim v)))"
        using map_of_SomeD [OF response(3)] i by (force simp: image_iff)
      then have "i \<in> fst ` set (open_calls tp t v)"
        and "i \<notin> (case cv_state v of AwaitRequest \<Rightarrow> {} | AwaitSent j _ _ \<Rightarrow> {j})"
        using d by (auto simp: open_requests_def split: send_state.splits)
      with bound show ?thesis
        using response(5) i unfolding responded(1)
        by (auto simp: open_requests_def AList.delete_eq split: send_state.splits)
    qed (use responded(2) in auto)
  next
    case (socket_failed w error cx1 r cx')
    show ?thesis
    proof (cases rule: recv_turn_cases [OF acc socket_failed(4), case_names waits response error])
      case (error er cx2)
      have "i \<in> fst ` set (open_calls tp t v)"
        and "i \<notin> (case cv_state v of AwaitRequest \<Rightarrow> {} | AwaitSent j _ _ \<Rightarrow> {j})"
        using d socket_failed(3) by (auto simp: open_requests_def split: send_state.splits)
      with bound show ?thesis
        using error(3) unfolding socket_failed(1)
        by (auto simp: open_requests_def split: send_state.splits)
    qed (use socket_failed(2) in auto)
  next
    case (send_failed s out w out' er cx1 st r cx')
    have "i \<in> fst ` set (open_calls tp t v)" by (simp add: open_requests_def send_failed(2))
    note b = bound [OF this]
    have s: "s \<in> callers" using accountD(4) [OF acc, of i s] by (simp add: open_requests_def send_failed(2))
    have "st = AwaitRequest" and call: "call_send tp s (Inl (Inr er)) cx1 = Inr cx'"
      using send_failed(4) by (auto simp: send_failed(2,3))
    moreover have "responders tp (st_responders t) (ext cx') = responders tp (st_responders t) (ext (cv_sim v))"
      using call_send_logs [OF s call] await_sent_keeps [OF send_failed(3)] by (simp add: keeps_client_def)
    moreover have "i \<notin> fst ` set (responders tp (st_responders t) (ext (cv_sim v)))"
      using d by (simp add: open_requests_def send_failed(2))
    ultimately show ?thesis using b unfolding send_failed(1) by (simp add: open_requests_def)
  qed
qed

lemma unexpected_response:
  assumes rcv: "socket_receive_poll n (response_type tp) (inbox (rt_socket u)) w cx = Inr (Ready (Inr (p, a)), cx1)"
    and "unpack_response tp p = Complete result i"
    and none: "i \<notin> fst ` set (responders tp (st_responders t) (ext cx))"
  shows "recv_turn e n tp w u cx = Inl (if debug_build e \<and> a \<noteq> rt_remote u then AssertFailed else UnwrapNone)"
proof -
  have "map_of (responders tp (st_responders t) (ext cx1)) i = None"
    using none receive_keeps [OF rcv] by (simp add: keeps_client_def map_of_eq_None_iff)
  then have "answer tp (st_responders t) (Complete result i) cx1 = Inl UnwrapNone"
    by (simp add: answer_def Let_def)
  then show ?thesis by (auto simp: recv_turn_def rcv assms(2) shared)
qed

end

text \<open>
  C39: The receiving task panics when it receives a response for a request whose caller does not wait
  under its id: one that is over, since it was answered, or since an error of the socket went to every
  caller, or since its send failed; or one whose sending has not completed yet. So a network that
  delivers a response twice, or after an error, or before it reports that the request was sent, takes
  the simulation down. In debug builds the panic is that of the assertion on the sender if that fails.
\<close>

theorem unexpected_response_panics:
  assumes client: "rpc_client e n tp t u answers callers"
    and start: "responders tp (st_responders t) (ext cx) = []" "answers (ext cx) = []"
    and run: "(conversation_step e n tp t u answers)\<^sup>*\<^sup>* (start_conversation cx) v0"
    and over: "call_over e n tp t u i v0 v1 \<and> (conversation_step e n tp t u answers)\<^sup>*\<^sup>* v1 v \<or>
      v = v0 \<and> cv_state v0 = AwaitSent i s out"
    and rcv: "socket_receive_poll n (response_type tp) (inbox (rt_socket u)) w (cv_sim v) =
      Inr (Ready (Inr (p, a)), cx1)"
    and unpack: "unpack_response tp p = Complete result i"
  shows "recv_turn e n tp w u (cv_sim v) =
      Inl (if debug_build e \<and> a \<noteq> rt_remote u then AssertFailed else UnwrapNone) \<and>
    recv_task_poll e n tp w u (cv_sim v) =
      Some (Inl (if debug_build e \<and> a \<noteq> rt_remote u then AssertFailed else UnwrapNone))"
proof -
  note acc = rpc_client.account_run [OF client run start]
  have "i \<notin> fst ` set (responders tp (st_responders t) (ext (cv_sim v)))"
    using over
  proof
    assume o: "call_over e n tp t u i v0 v1 \<and> (conversation_step e n tp t u answers)\<^sup>*\<^sup>* v1 v"
    note closed = rpc_client.over_closed [OF client conjunct1 [OF o] acc]
    note acc1 = rpc_client.account_step(1) [OF client rpc_client.over_step [OF client conjunct1 [OF o]] acc]
    have "i \<notin> fst ` set (open_calls tp t v)"
      by (rule rpc_client.closed_run [OF client conjunct2 [OF o] acc1]) (use closed in simp_all)
    then show ?thesis by (auto simp: open_requests_def)
  next
    assume "v = v0 \<and> cv_state v0 = AwaitSent i s out"
    then show ?thesis using accountD(2) [OF acc] by (simp add: open_requests_def)
  qed
  then have turn: "recv_turn e n tp w u (cv_sim v) =
      Inl (if debug_build e \<and> a \<noteq> rt_remote u then AssertFailed else UnwrapNone)"
    by (rule rpc_client.unexpected_response [OF client rcv unpack])
  then show ?thesis by (subst recv_task_poll.simps) simp
qed

end
