(* ===== verification/Wire.thy ===== *)
theory Wire
  imports Calls
begin

text \<open>
  A client of \<open>Tower\<close> over a wire: a network whose send function records what was sent, and channels
  that are lists. It meets what \<open>rpc_client\<close> asks for, whatever the network in the registry is, and
  gives the properties of \<open>Calls\<close> a concrete conversation.
\<close>

section \<open>The wire\<close>

datatype wire_packet = Req "nat tower_request" | Resp "(nat, nat) tower_response"

record wire_heap =
  calls :: "(nat \<times> nat) list"
  results :: "(nat \<times> (nat, nat, nat) tower_result) list"
  waiting :: "(id \<times> nat) list"
  arrived :: "(wire_packet, nat) message list"
  wire :: "wire_packet packet_rc list"

text \<open>
  The futures: those of the channels hold nothing here, then the deliveries of packets, a service's call
  and the serving tasks.
\<close>

datatype wire_future =
    ChannelFuture
  | DeliveryTask "(wire_packet, nat) delivery"
  | Compute nat
  | ServeTask "(nat, wire_future) serve_state"

type_synonym wire_sim = "(nat, (nat \<times> instant) list, wire_future, unit net, wire_heap) sim"
type_synonym wire_env = "(nat, (nat \<times> instant) list, wire_future, unit net, wire_heap, unit) env"
type_synonym wire_net = "(nat, (nat \<times> instant) list, wire_future, unit net, wire_heap, wire_packet, nat, unit) net_ops"
type_synonym wire_tower =
  "(nat, (nat \<times> instant) list, wire_future, unit net, wire_heap, wire_packet, nat, nat, nat, nat) tower_ops"

definition wire_env :: wire_env where
  "wire_env =
     \<lparr>debug_build = True,
      env_hasher = \<lparr>hash_default = 0, hash_event = (\<lambda>_ n. n + 1), hash_finish = of_nat\<rparr>,
      env_pq = list_pq, set_order = (\<lambda>is. is), oneshot_channel = (\<lambda>x. (0, x)),
      oneshot_send = (\<lambda>_ _ cx. Inr cx), oneshot_drop_sender = (\<lambda>_ cx. Inr cx),
      oneshot_poll = (\<lambda>_ _ cx. Inr (Pending, cx)), poll_future = (\<lambda>_ f cx. Inr ((f, Pending), cx)),
      drop_future = (\<lambda>_ cx. Inr cx), on_create_node = (\<lambda>s cx. Inr (s, cx)),
      on_stop_node = (\<lambda>s cx. Inr (s, cx)), on_start_node = (\<lambda>s cx. Inr (s, cx)),
      drop_simulator = (\<lambda>_ cx. Inr cx)\<rparr>"

definition wire_type :: "wire_packet \<Rightarrow> type_id" where
  "wire_type p = (case p of Req _ \<Rightarrow> ''Request'' | Resp _ \<Rightarrow> ''Response'')"

definition wire_send :: "unit \<Rightarrow> wire_packet packet_rc \<Rightarrow> wire_sim \<Rightarrow>
    panic + (unit \<times> (nat, wire_future) send_output) \<times> wire_sim" where
  "wire_send g p cx = Inr ((g, Immediate (Inr ())), cx\<lparr>ext := (ext cx)\<lparr>wire := p # wire (ext cx)\<rparr>\<rparr>)"

definition wire_receive :: "wire_sim \<Rightarrow> (wire_packet, nat) message option \<times> wire_sim" where
  "wire_receive cx =
     (case arrived (ext cx) of
        [] \<Rightarrow> (None, cx)
      | m # ms \<Rightarrow> (Some m, cx\<lparr>ext := (ext cx)\<lparr>arrived := ms\<rparr>\<rparr>))"

definition wire_net :: wire_net where
  "wire_net =
     \<lparr>packets = \<lparr>packet_concrete = wire_type, packet_type_id = wire_type,
        packet_level = (\<lambda>_. default_level), clone_packet = default_clone\<rparr>,
      rc_unique = (\<lambda>_ _. True), call_send_function = wire_send, box_net = (\<lambda>net. net),
      downcast_net = Some, delivery_future = DeliveryTask, chan_new = (\<lambda>x. (0, x)),
      chan_try_send = (\<lambda>_ m cx. Inr (True, cx\<lparr>ext := (ext cx)\<lparr>arrived := arrived (ext cx) @ [m]\<rparr>\<rparr>)),
      chan_try_receive = (\<lambda>_ cx. Inr (wire_receive cx)),
      chan_poll = (\<lambda>_ _ cx. case wire_receive cx of
        (None, cx) \<Rightarrow> Inr (Pending, cx) | (Some m, cx) \<Rightarrow> Inr (Ready (Some m), cx)),
      map_order = (\<lambda>ks. ks)\<rparr>"

definition wire_next :: "nat \<Rightarrow> id \<Rightarrow> wire_sim \<Rightarrow> panic + (nat \<times> nat) option poll \<times> wire_sim" where
  "wire_next r w cx =
     (case calls (ext cx) of
        [] \<Rightarrow> Inr (Pending, cx)
      | k # ks \<Rightarrow> Inr (Ready (Some k), cx\<lparr>ext := (ext cx)\<lparr>calls := ks\<rparr>\<rparr>))"

definition wire_tower :: wire_tower where
  "wire_tower =
     \<lparr>request_type = ''Request'', response_type = ''Response'',
      pack_request = Req, unpack_request = (\<lambda>p. case p of Req r \<Rightarrow> r | Resp _ \<Rightarrow> Start 0 (Id 0)),
      pack_response = Resp,
      unpack_response = (\<lambda>p. case p of Resp r \<Rightarrow> r | Req _ \<Rightarrow> Complete (Inl 0) (Id 0)),
      mpsc_channel = (\<lambda>x. (0, x)), mpsc_clone = (\<lambda>s x. (s, x)),
      mpsc_poll_ready = (\<lambda>_ _ cx. Inr (Ready True, cx)), mpsc_send = (\<lambda>_ _. ChannelFuture),
      mpsc_poll_send = (\<lambda>f _ cx. Inr ((f, Ready True), cx)), mpsc_next = wire_next,
      mpsc_drop_sender = (\<lambda>_ cx. Inr cx), call_channel = (\<lambda>x. (length (results x), x)),
      call_send = (\<lambda>s r cx. Inr (cx\<lparr>ext := (ext cx)\<lparr>results := (s, r) # results (ext cx)\<rparr>\<rparr>)),
      call_poll = (\<lambda>s _ cx. Inr (case map_of (results (ext cx)) s of
        None \<Rightarrow> Pending | Some r \<Rightarrow> Ready (Some r), cx)),
      poll_net_future = (\<lambda>f _ cx. Inr ((f, Pending), cx)),
      connection_reset = 1, addr_in_use = (\<lambda>_. 2), shared_error = (\<lambda>er. er),
      new_responders = (\<lambda>x. (0, x)), responders = (\<lambda>_. waiting),
      put_responders = (\<lambda>_ rs x. x\<lparr>waiting := rs\<rparr>), values_order = (\<lambda>ss. ss)\<rparr>"

text \<open>The client's two tasks; what its callers were sent is the list of results.\<close>

definition wire_send_task :: send_task where
  "wire_send_task = \<lparr>st_requests = 0, st_port = Id 9, st_remote = Addr (NodeId 2) (Id 8), st_responders = 0\<rparr>"

definition wire_recv_task :: recv_task where
  "wire_recv_task =
     \<lparr>rt_socket = \<lparr>socket_ty = ''Response'', inbox = 0, local_addr = Addr INIT (Id 9)\<rparr>,
      rt_remote = Addr (NodeId 2) (Id 8), rt_responders = 0\<rparr>"

lemma wire_client: "rpc_client wire_env wire_net wire_tower wire_send_task wire_recv_task results UNIV"
proof
  show "keeps_client wire_tower (st_responders wire_send_task) results cx cx'"
    if "chan_poll wire_net i w cx = Inr (v, cx')" for i w cx v cx'
    using that
    by (auto simp: wire_net_def wire_receive_def keeps_client_def wire_tower_def split: list.splits)
qed (auto simp: wire_tower_def wire_env_def wire_net_def wire_next_def wire_send_def keeps_client_def
    wire_send_task_def wire_recv_task_def split: list.splits)

interpretation wire: rpc_client wire_env wire_net wire_tower wire_send_task wire_recv_task results UNIV
  by (rule wire_client)

section \<open>A conversation\<close>

definition wire_start :: wire_sim where
  "wire_start =
     \<lparr>once_set = True, current_node = INIT, pre_next_global_id = 0, sim_time = 100,
      cell = CellFree, event_handler = NoopEventHandler,
      sleep_cells = Map.empty, next_cell = 0, upcoming_events = [], now = 100,
      arcs = Map.empty, queue = Some [],
      tasks = Map.empty, final_stopped = False, nodes = [\<lparr>run_level = Running, node_tasks = []\<rparr>],
      simulators_by_type = [NET \<mapsto> 0],
      simulators = [Some (new_net (UserFunction ()))],
      ext = \<lparr>calls = [(5, 3)], results = [], waiting = [], arrived = [], wire = []\<rparr>\<rparr>"

text \<open>A response of the server, put into the client's inbox.\<close>

definition wire_response :: "nat \<Rightarrow> wire_packet packet_rc" where
  "wire_response b = new_packet (packets wire_net) (Addr (NodeId 2) (Id 8)) (Addr INIT (Id 9))
     (Resp (Complete (Inr b) (Id 1)))"

definition wire_arrive :: "wire_packet packet_rc \<Rightarrow> wire_sim \<Rightarrow> wire_sim" where
  "wire_arrive p cx = cx\<lparr>ext := (ext cx)\<lparr>arrived := arrived (ext cx) @ [Inr p]\<rparr>\<rparr>"

text \<open>The states of the conversation, and what the turns return.\<close>

definition wire_state :: "panic + 'a \<times> wire_sim \<Rightarrow> wire_sim" where
  "wire_state r = (case r of Inr (_, cx) \<Rightarrow> cx | Inl _ \<Rightarrow> wire_start)"

definition wire_returns :: "'a \<Rightarrow> panic + 'a \<times> wire_sim \<Rightarrow> bool" where
  "wire_returns a r = (case r of Inr (a', _) \<Rightarrow> a' = a | Inl _ \<Rightarrow> False)"

lemma wire_returnsD: "wire_returns a r \<Longrightarrow> r = Inr (a, wire_state r)"
  by (auto simp: wire_returns_def wire_state_def split: sum.splits)

abbreviation "wire_turn \<equiv> send_turn wire_env wire_net wire_tower (Id 20) wire_send_task"
abbreviation "wire_sending \<equiv> AwaitSent (Id 1) 3 (Immediate (Inr ())) :: (nat, wire_future) send_state"
abbreviation "wire_poll \<equiv> socket_receive_poll wire_net (response_type wire_tower)
  (inbox (rt_socket wire_recv_task)) (Id 21)"

definition wire1 :: wire_sim where "wire1 = wire_state (wire_turn AwaitRequest wire_start)"
definition wire2 :: wire_sim where "wire2 = wire_state (wire_turn wire_sending wire1)"
definition wire3 :: wire_sim where "wire3 = wire_arrive (wire_response 25) wire2"
definition wire4 :: wire_sim where
  "wire4 = wire_state (recv_turn wire_env wire_net wire_tower (Id 21) wire_recv_task wire3)"

text \<open>The response comes while the request is being sent, and one more after the answer.\<close>

definition wire_early :: wire_sim where "wire_early = wire_arrive (wire_response 25) wire1"
definition wire_late :: wire_sim where "wire_late = wire_arrive (wire_response 26) wire4"

abbreviation "wire_got b \<equiv> Ready (Inr (Resp (Complete (Inr b) (Id 1)), Addr (NodeId 2) (Id 8)))"

lemma wire_turns:
  "wire_turn AwaitRequest wire_start = Inr ((wire_sending, Ready ()), wire1)"
  "wire_turn wire_sending wire1 = Inr ((AwaitRequest, Ready ()), wire2)"
  "recv_turn wire_env wire_net wire_tower (Id 21) wire_recv_task wire3 = Inr (Ready (), wire4)"
proof -
  have "wire_returns (wire_sending, Ready ()) (wire_turn AwaitRequest wire_start)" by code_simp
  then show "wire_turn AwaitRequest wire_start = Inr ((wire_sending, Ready ()), wire1)"
    unfolding wire1_def by (rule wire_returnsD)
  have "wire_returns (AwaitRequest, Ready ()) (wire_turn wire_sending wire1)" by code_simp
  then show "wire_turn wire_sending wire1 = Inr ((AwaitRequest, Ready ()), wire2)"
    unfolding wire2_def by (rule wire_returnsD)
  have "wire_returns (Ready ()) (recv_turn wire_env wire_net wire_tower (Id 21) wire_recv_task wire3)"
    by code_simp
  then show "recv_turn wire_env wire_net wire_tower (Id 21) wire_recv_task wire3 = Inr (Ready (), wire4)"
    unfolding wire4_def by (rule wire_returnsD)
qed

lemma wire_polls:
  "wire_poll wire3 = Inr (wire_got 25, wire_state (wire_poll wire3))"
  "wire_poll wire_early = Inr (wire_got 25, wire_state (wire_poll wire_early))"
  "wire_poll wire_late = Inr (wire_got 26, wire_state (wire_poll wire_late))"
proof -
  have "wire_returns (wire_got 25) (wire_poll wire3)" by code_simp
  then show "wire_poll wire3 = Inr (wire_got 25, wire_state (wire_poll wire3))" by (rule wire_returnsD)
  have "wire_returns (wire_got 25) (wire_poll wire_early)" by code_simp
  then show "wire_poll wire_early = Inr (wire_got 25, wire_state (wire_poll wire_early))" by (rule wire_returnsD)
  have "wire_returns (wire_got 26) (wire_poll wire_late)" by code_simp
  then show "wire_poll wire_late = Inr (wire_got 26, wire_state (wire_poll wire_late))" by (rule wire_returnsD)
qed

lemma wire_states:
  "results (ext wire4) = [(3, Inr 25)]" "waiting (ext wire4) = []" "waiting (ext wire_start) = []"
  "results (ext wire_start) = []"
  by code_simp+

lemma wire_tasks: "st_responders wire_send_task = 0" "rt_responders wire_recv_task = 0"
  by (simp_all add: wire_send_task_def wire_recv_task_def)

abbreviation "wire_step \<equiv> conversation_step wire_env wire_net wire_tower wire_send_task wire_recv_task results"
abbreviation "wire_at st cx \<equiv>
  \<lparr>cv_state = st, cv_sim = cx, cv_taken = [3]\<rparr> :: (nat, (nat \<times> instant) list, wire_future, unit net, wire_heap, nat) conversation"

lemma wire_arrive_step: "wire_step (wire_at st cx) (wire_at st (wire_arrive p cx))"
  using conversation_step.other [of wire_tower wire_send_task results "wire_at st cx" "wire_arrive p cx"]
  by (simp add: keeps_client_def wire_arrive_def wire_tower_def)

lemma wire_taken:
  "request_taken wire_tower (Id 20) wire_send_task AwaitRequest wire_start = [3]"
  "request_taken wire_tower (Id 20) wire_send_task wire_sending wire1 = []"
  by code_simp+

lemma wire_sent: "wire_step\<^sup>*\<^sup>* (start_conversation wire_start) (wire_at wire_sending wire1)"
proof (rule r_into_rtranclp)
  show "wire_step (start_conversation wire_start) (wire_at wire_sending wire1)"
    using conversation_step.sending [of wire_env wire_net wire_tower "Id 20" wire_send_task
        "start_conversation wire_start"] wire_turns(1) wire_taken(1)
    by (simp add: start_conversation_def del: send_turn.simps)
qed

lemma wire_delivered: "wire_step\<^sup>*\<^sup>* (start_conversation wire_start) (wire_at AwaitRequest wire3)"
proof -
  have "wire_step (wire_at wire_sending wire1) (wire_at AwaitRequest wire2)"
    using conversation_step.sending [of wire_env wire_net wire_tower "Id 20" wire_send_task
        "wire_at wire_sending wire1"] wire_turns(2) wire_taken(2)
    by (simp del: send_turn.simps)
  with wire_sent have "wire_step\<^sup>*\<^sup>* (start_conversation wire_start) (wire_at AwaitRequest wire2)"
    by (rule rtranclp.rtrancl_into_rtrancl)
  then show ?thesis
    unfolding wire3_def by (rule rtranclp.rtrancl_into_rtrancl) (rule wire_arrive_step)
qed

lemma wire_answer: "call_over wire_env wire_net wire_tower wire_send_task wire_recv_task (Id 1)
    (wire_at AwaitRequest wire3) (wire_at AwaitRequest wire4)"
proof -
  have "unpack_response wire_tower (Resp (Complete (Inr 25) (Id 1))) = Complete (Inr 25) (Id 1)"
    by (simp add: wire_tower_def)
  from call_over.responded [OF _ this, of wire_net wire_recv_task "Id 21" "wire_at AwaitRequest wire3"]
  show ?thesis using wire_polls(1) wire_turns(3) by simp
qed

text \<open>The one call of this conversation was taken, and its caller was sent the result that arrived.\<close>

theorem calls_are_answered_once_witness:
  "mset (map snd (open_calls wire_tower wire_send_task (wire_at AwaitRequest wire3))) +
      mset (map fst (results (ext wire3))) = {#3#} \<and>
    (\<exists>s. (Id 1, s) \<in> set (open_calls wire_tower wire_send_task (wire_at AwaitRequest wire3)) \<and>
      results (ext wire4) = (s, Inr 25) # results (ext wire3)) \<and> results (ext wire4) = [(3, Inr 25)]"
proof -
  have "responders wire_tower (st_responders wire_send_task) (ext wire_start) = []"
    by (simp add: wire_tower_def wire_states(3))
  note once = calls_are_answered_once [OF wire_client this wire_states(4) wire_delivered]
  have "unpack_response wire_tower (Resp (Complete (Inr 25) (Id 1))) = Complete (Inr 25) (Id 1)"
    by (simp add: wire_tower_def)
  with once wire_polls(1) wire_turns(3) have "\<exists>s. (Id 1, s) \<in>
      set (open_calls wire_tower wire_send_task (wire_at AwaitRequest wire3)) \<and>
      results (ext wire4) = (s, service_result (Inr 25)) # results (ext wire3)"
    by (simp only: conversation.simps)
  with once wire_states(1) show ?thesis by simp
qed

text \<open>A response comes too early while the request is being sent, and too late after the answer.\<close>

theorem unexpected_response_panics_witness:
  "recv_turn wire_env wire_net wire_tower (Id 21) wire_recv_task wire_early = Inl UnwrapNone \<and>
    recv_turn wire_env wire_net wire_tower (Id 21) wire_recv_task wire_late = Inl UnwrapNone"
proof -
  have start: "responders wire_tower (st_responders wire_send_task) (ext wire_start) = []"
    by (simp add: wire_tower_def wire_states(3))
  have unpack: "unpack_response wire_tower (Resp (Complete (Inr b) (Id 1))) = Complete (Inr b) (Id 1)" for b
    by (simp add: wire_tower_def)
  have from_server: "rt_remote wire_recv_task = Addr (NodeId 2) (Id 8)" by (simp add: wire_recv_task_def)
  have early: "wire_step\<^sup>*\<^sup>* (start_conversation wire_start) (wire_at wire_sending wire_early)"
    unfolding wire_early_def using wire_sent wire_arrive_step by (rule rtranclp.rtrancl_into_rtrancl)
  have late: "wire_step\<^sup>*\<^sup>* (wire_at AwaitRequest wire4) (wire_at AwaitRequest wire_late)"
    unfolding wire_late_def by (rule r_into_rtranclp) (rule wire_arrive_step)
  note panics = unexpected_response_panics [OF wire_client start wire_states(4)]
  have "recv_turn wire_env wire_net wire_tower (Id 21) wire_recv_task wire_early = Inl UnwrapNone"
    using panics [OF early, where v = "wire_at wire_sending wire_early" and i = "Id 1" and s = 3
        and out = "Immediate (Inr ())" and w = "Id 21" and p = "Resp (Complete (Inr 25) (Id 1))"
        and a = "Addr (NodeId 2) (Id 8)" and result = "Inr 25"] wire_polls(2) unpack from_server
    by simp
  moreover have "recv_turn wire_env wire_net wire_tower (Id 21) wire_recv_task wire_late = Inl UnwrapNone"
    using panics [OF wire_delivered, where v = "wire_at AwaitRequest wire_late" and i = "Id 1"
        and w = "Id 21" and p = "Resp (Complete (Inr 26) (Id 1))"
        and a = "Addr (NodeId 2) (Id 8)" and result = "Inr 26"] wire_answer late wire_polls(3) unpack from_server
    by auto
  ultimately show ?thesis ..
qed

end
