(* ===== verification/Served.thy ===== *)
theory Served
  imports Tower Inboxes "HOL-Library.Multiset"
begin

text \<open>
  A server's account: the task of \<open>run_server\<close> and the tasks that serve its requests run in any order,
  with anything else in between that sends nothing from the server's address. What happened is read off
  what the calls leave: what the socket and the service returned, the tasks of the executor, and the
  packets that reached the network.
\<close>

section \<open>What a server is observed by\<close>

text \<open>
  The futures of the tasks that the executor holds: among them those that serve a request, and those
  that \<open>enqueue_packet\<close> spawned for packets from the address of a socket and that have not been polled.
\<close>

definition task_future :: "('h, 'q, 'f, 's, 'x) sim \<Rightarrow> id \<rightharpoonup> 'f" where
  "task_future cx i = Option.bind (tasks cx i) (\<lambda>te. map_option tk_fut (te_task te))"

definition serving_tasks ::
  "(('er, 'f) serve_state \<Rightarrow> 'f) \<Rightarrow> ('h, 'q, 'f, 's, 'x) sim \<Rightarrow> (id \<times> ('er, 'f) serve_state) set" where
  "serving_tasks serve_fut cx = {(i, t). task_future cx i = Some (serve_fut t)}"

definition packet_tasks ::
  "('h, 'q, 'f, 's, 'x, 'p, 'er, 'g) net_ops \<Rightarrow> socket \<Rightarrow> ('h, 'q, 'f, 's, 'x) sim \<Rightarrow>
    (id \<times> 'p packet_rc) set" where
  "packet_tasks n s cx =
     {(i, p). hd_src (header p) = local_addr s \<and> (\<exists>at_time. task_future cx i =
       Some (delivery_future n (Enqueued at_time (hd_dst (header p), hd_ty (header p)) (Inr p))))}"

definition tasks_known :: "('h, 'q, 'f, 's, 'x) sim \<Rightarrow> bool" where
  "tasks_known cx \<longleftrightarrow>
     (\<forall>i. task_future cx i \<noteq> None \<longrightarrow> unat (id_val i) \<le> unat (pre_next_global_id cx))"

text \<open>
  Which packets were sent from the address between two states: with \<open>perfect_connectivity\<close> as the
  network's send function, those for which a task was spawned; with a send function of the program,
  those that it was called with, which are logged newest first. The flag \<open>perfect\<close> says which of the
  two the network has.
\<close>

definition sent_from :: "socket \<Rightarrow> 'p packet_rc list \<Rightarrow> 'p packet_rc list" where
  "sent_from s ps = filter (\<lambda>p. hd_src (header p) = local_addr s) ps"

definition sent_between ::
  "('h, 'q, 'f, 's, 'x, 'p, 'er, 'g) net_ops \<Rightarrow> bool \<Rightarrow> socket \<Rightarrow> ('x \<Rightarrow> 'p packet_rc list) \<Rightarrow>
    ('h, 'q, 'f, 's, 'x) sim \<Rightarrow> ('h, 'q, 'f, 's, 'x) sim \<Rightarrow> 'p packet_rc list \<Rightarrow> bool" where
  "sent_between n perfect s sends cx cx' ps \<longleftrightarrow>
     (if perfect
      then \<exists>ips. distinct ips \<and> set ips = packet_tasks n s cx' - packet_tasks n s cx \<and> ps = map snd ips
      else sent_from s (sends (ext cx')) = ps @ sent_from s (sends (ext cx)))"

definition quiet ::
  "('h, 'q, 'f, 's, 'x, 'p, 'er, 'g) net_ops \<Rightarrow> bool \<Rightarrow> socket \<Rightarrow> ('x \<Rightarrow> 'p packet_rc list) \<Rightarrow>
    ('h, 'q, 'f, 's, 'x) sim \<Rightarrow> ('h, 'q, 'f, 's, 'x) sim \<Rightarrow> bool" where
  "quiet n perfect s sends cx cx' \<longleftrightarrow>
     (if perfect then packet_tasks n s cx' \<subseteq> packet_tasks n s cx
      else sent_from s (sends (ext cx')) = sent_from s (sends (ext cx)))"

text \<open>
  Code that keeps the server's tasks: it sends nothing from the address, spawns none of the tasks that
  serve requests, and ids only grow.
\<close>

definition keeps_server ::
  "('h, 'q, 'f, 's, 'x, 'p, 'er, 'g) net_ops \<Rightarrow> (('er, 'f) serve_state \<Rightarrow> 'f) \<Rightarrow> bool \<Rightarrow> socket \<Rightarrow>
    ('x \<Rightarrow> 'p packet_rc list) \<Rightarrow> ('h, 'q, 'f, 's, 'x) sim \<Rightarrow> ('h, 'q, 'f, 's, 'x) sim \<Rightarrow> bool" where
  "keeps_server n serve_fut perfect s sends cx cx' \<longleftrightarrow>
     quiet n perfect s sends cx cx' \<and> serving_tasks serve_fut cx' \<subseteq> serving_tasks serve_fut cx \<and>
     (tasks_known cx \<longrightarrow> tasks_known cx') \<and>
     unat (pre_next_global_id cx) \<le> unat (pre_next_global_id cx')"

text \<open>Where the server's tasks are polled: on its node, with the network in the registry.\<close>

definition serving_scope ::
  "('h, 'q, 'f, 's, 'x, 'p, 'er, 'g) net_ops \<Rightarrow> bool \<Rightarrow> socket \<Rightarrow> ('h, 'q, 'f, 's, 'x) sim \<Rightarrow> bool" where
  "serving_scope n perfect s cx \<longleftrightarrow>
     current_node cx = addr_node (local_addr s) \<and>
     (case simulators_by_type cx NET of
        None \<Rightarrow> False
      | Some i \<Rightarrow>
          (case Option.bind (simulators cx ! i) (downcast_net n) of
             None \<Rightarrow> False
           | Some net \<Rightarrow>
               (case send_function net of PerfectConnectivity _ \<Rightarrow> perfect | UserFunction _ \<Rightarrow> \<not> perfect)))"

text \<open>
  A send function of the program keeps the packets that it is called with; nothing else that the server
  calls sends from its address: the service, the channels, the allocation of an output. The service
  leaves the node scope and the kind of the network's send function as they are. Futures are made of the
  state of their task, different ones of different states.
\<close>

locale rpc_server =
  fixes e :: "('h, 'q, 'f, 's, 'x, 'v) env"
    and n :: "('h, 'q, 'f, 's, 'x, 'p, 'er, 'g) net_ops"
    and tp :: "('h, 'q, 'f, 's, 'x, 'p, 'er, 'a, 'b, 'y) tower_ops"
    and sv :: "('h, 'q, 'f, 's, 'x, 'a, 'b, 'y, 'k) service_ops"
    and serve_fut :: "('er, 'f) serve_state \<Rightarrow> 'f"
    and perfect :: bool
    and s :: socket
    and sends :: "'x \<Rightarrow> 'p packet_rc list"
  assumes send_logged: "\<not> perfect \<Longrightarrow> call_send_function n g msg cx = Inr (out, cx') \<Longrightarrow>
      sends (ext cx') = msg # sends (ext cx) \<and> (tasks_known cx \<longrightarrow> tasks_known cx')"
    and serve_fut_inj: "serve_fut t = serve_fut t' \<Longrightarrow> t = t'"
    and delivery_inj: "delivery_future n d = delivery_future n d' \<Longrightarrow> d = d'"
    and futures_differ: "delivery_future n d \<noteq> serve_fut t"
    and oneshot_quiet: "oneshot_channel e x = (k, x') \<Longrightarrow> sent_from s (sends x') = sent_from s (sends x)"
    and chan_poll_keeps: "chan_poll n c w cx = Inr (v, cx') \<Longrightarrow> keeps_server n serve_fut perfect s sends cx cx'"
    and sent_keeps: "poll_net_future tp f w cx = Inr (v', cx') \<Longrightarrow>
      keeps_server n serve_fut perfect s sends cx cx'"
    and drop_keeps: "drop_future e f cx = Inr cx' \<Longrightarrow> keeps_server n serve_fut perfect s sends cx cx' \<and>
      (serving_scope n perfect s cx \<longrightarrow> serving_scope n perfect s cx')"
    and ready_keeps: "service_poll_ready sv st w cx = Inr (v'', cx') \<Longrightarrow>
      keeps_server n serve_fut perfect s sends cx cx'"
    and call_keeps: "service_call sv st req cx = Inr (v3, cx') \<Longrightarrow>
      keeps_server n serve_fut perfect s sends cx cx'"
    and poll_keeps: "service_poll sv f w cx = Inr (v4, cx') \<Longrightarrow>
      keeps_server n serve_fut perfect s sends cx cx' \<and>
      (serving_scope n perfect s cx \<longrightarrow> serving_scope n perfect s cx')"

section \<open>Runs of a server\<close>

text \<open>
  The state of the server's task, until it ends, the tasks that serve requests, in the order in which
  they were spawned, and the simulation; and of the past, each latest first: the requests received, by
  their ids and where they came from, the results that the service gave for them, the packets sent from
  the server's address, and the requests that were given up with the server's task or its node.
\<close>

record ('h, 'q, 'f, 's, 'x, 'p, 'er, 'a, 'b, 'y, 'k) service_run =
  sr_server :: "('k \<times> 'a server_state) option"
  sr_tasks :: "('er, 'f) serve_state list"
  sr_sim :: "('h, 'q, 'f, 's, 'x) sim"
  sr_received :: "(id \<times> addr) list"
  sr_served :: "((id \<times> addr) \<times> ('y + 'b)) list"
  sr_sent :: "'p packet_rc list"
  sr_lost :: "(id \<times> addr) list"

text \<open>The requests that wait for the service to be ready, and those that it is working on.\<close>

fun waiting_request :: "('k \<times> 'a server_state) option \<Rightarrow> (id \<times> addr) list" where
  "waiting_request (Some (k, ServerReady req i a)) = [(i, a)]"
| "waiting_request _ = []"

fun serving :: "('er, 'f) serve_state \<Rightarrow> (id \<times> addr) list" where
  "serving (Serving fut i port a) = [(i, a)]"
| "serving _ = []"

definition being_served :: "('er, 'f) serve_state list \<Rightarrow> (id \<times> addr) list" where
  "being_served ts = concat (map serving ts)"

text \<open>
  What a turn of the server received, by what its socket returns, and what a poll of a serving task got
  from the service.
\<close>

definition request_received ::
  "('h, 'q, 'f, 's, 'x, 'p, 'er, 'g) net_ops \<Rightarrow> ('h, 'q, 'f, 's, 'x, 'p, 'er, 'a, 'b, 'y) tower_ops \<Rightarrow>
    id \<Rightarrow> socket \<Rightarrow> 'a server_state \<Rightarrow> ('h, 'q, 'f, 's, 'x) sim \<Rightarrow> (id \<times> addr) list" where
  "request_received n tp w s st cx =
     (case st of
        ServerReady _ _ _ \<Rightarrow> []
      | ServerReceive \<Rightarrow>
          (case socket_receive_poll n (request_type tp) (inbox s) w cx of
             Inr (Ready (Inr (p, a)), _) \<Rightarrow> [(start_id (unpack_request tp p), a)]
           | _ \<Rightarrow> []))"

definition result_given ::
  "('h, 'q, 'f, 's, 'x, 'a, 'b, 'y, 'k) service_ops \<Rightarrow> id \<Rightarrow> ('er, 'f) serve_state \<Rightarrow>
    ('h, 'q, 'f, 's, 'x) sim \<Rightarrow> ((id \<times> addr) \<times> ('y + 'b)) list" where
  "result_given sv w t cx =
     (case t of
        Serving fut i port a \<Rightarrow>
          (case service_poll sv fut w cx of Inr ((_, Ready result), _) \<Rightarrow> [((i, a), result)] | _ \<Rightarrow> [])
      | _ \<Rightarrow> [])"

text \<open>The packet that answers a request with what the service returned.\<close>

definition reply_packet ::
  "('h, 'q, 'f, 's, 'x, 'p, 'er, 'g) net_ops \<Rightarrow> ('h, 'q, 'f, 's, 'x, 'p, 'er, 'a, 'b, 'y) tower_ops \<Rightarrow>
    socket \<Rightarrow> (id \<times> addr) \<times> ('y + 'b) \<Rightarrow> 'p packet_rc" where
  "reply_packet n tp s r =
     (case r of ((i, a), result) \<Rightarrow>
        new_packet (packets n) (local_addr s) a (pack_response tp (Complete result i)))"

text \<open>
  The steps: a turn of the server's task or a poll of a serving task, with whatever it results in; the
  server is aborted; its node is stopped; anything else that sends nothing from the address. The tasks
  that a turn spawned are those that serve a request after it and did not before.
\<close>

inductive service_step ::
  "('h, 'q, 'f, 's, 'x, 'v) env \<Rightarrow> ('h, 'q, 'f, 's, 'x, 'p, 'er, 'g) net_ops \<Rightarrow>
    ('h, 'q, 'f, 's, 'x, 'p, 'er, 'a, 'b, 'y) tower_ops \<Rightarrow>
    ('h, 'q, 'f, 's, 'x, 'a, 'b, 'y, 'k) service_ops \<Rightarrow> (('er, 'f) serve_state \<Rightarrow> 'f) \<Rightarrow> bool \<Rightarrow> socket \<Rightarrow>
    ('x \<Rightarrow> 'p packet_rc list) \<Rightarrow>
    ('h, 'q, 'f, 's, 'x, 'p, 'er, 'a, 'b, 'y, 'k) service_run \<Rightarrow>
    ('h, 'q, 'f, 's, 'x, 'p, 'er, 'a, 'b, 'y, 'k) service_run \<Rightarrow> bool"
  for e n tp sv serve_fut perfect s sends where
  turn: "sr_server v = Some (k, st) \<Longrightarrow>
    server_turn e n tp sv serve_fut w s (k, st) (sr_sim v) = Inr ((st', r), cx') \<Longrightarrow>
    distinct its \<Longrightarrow> set its = serving_tasks serve_fut cx' - serving_tasks serve_fut (sr_sim v) \<Longrightarrow>
    sent_between n perfect s sends (sr_sim v) cx' ps \<Longrightarrow>
    ended = (\<exists>error. r = Ready (Some error)) \<Longrightarrow>
    service_step e n tp sv serve_fut perfect s sends v
      (v\<lparr>sr_server := if ended then None else Some st', sr_tasks := sr_tasks v @ map snd its, sr_sim := cx',
        sr_received := request_received n tp w s st (sr_sim v) @ sr_received v, sr_sent := ps @ sr_sent v,
        sr_lost := (if ended then waiting_request (sr_server v) else []) @ sr_lost v\<rparr>)"
| serve: "j < length (sr_tasks v) \<Longrightarrow> serving_scope n perfect s (sr_sim v) \<Longrightarrow>
    serve_poll e n tp sv w (sr_tasks v ! j) (sr_sim v) = Inr ((t, r), cx') \<Longrightarrow>
    sent_between n perfect s sends (sr_sim v) cx' ps \<Longrightarrow>
    service_step e n tp sv serve_fut perfect s sends v
      (v\<lparr>sr_tasks := (sr_tasks v)[j := t], sr_sim := cx',
        sr_served := result_given sv w (sr_tasks v ! j) (sr_sim v) @ sr_served v, sr_sent := ps @ sr_sent v\<rparr>)"
| server_aborted: "quiet n perfect s sends (sr_sim v) cx' \<Longrightarrow> tasks_known cx' \<Longrightarrow>
    service_step e n tp sv serve_fut perfect s sends v
      (v\<lparr>sr_server := None, sr_sim := cx', sr_lost := waiting_request (sr_server v) @ sr_lost v\<rparr>)"
| node_stopped: "quiet n perfect s sends (sr_sim v) cx' \<Longrightarrow> tasks_known cx' \<Longrightarrow>
    service_step e n tp sv serve_fut perfect s sends v
      (v\<lparr>sr_server := None, sr_tasks := [], sr_sim := cx',
        sr_lost := waiting_request (sr_server v) @ being_served (sr_tasks v) @ sr_lost v\<rparr>)"
| other: "quiet n perfect s sends (sr_sim v) cx' \<Longrightarrow> tasks_known cx' \<Longrightarrow>
    service_step e n tp sv serve_fut perfect s sends v (v\<lparr>sr_sim := cx'\<rparr>)"

definition start_service ::
  "'k \<Rightarrow> ('h, 'q, 'f, 's, 'x) sim \<Rightarrow> ('h, 'q, 'f, 's, 'x, 'p, 'er, 'a, 'b, 'y, 'k) service_run" where
  "start_service k cx =
     \<lparr>sr_server = Some (k, ServerReceive), sr_tasks = [], sr_sim = cx, sr_received = [],
      sr_served = [], sr_sent = [], sr_lost = []\<rparr>"

text \<open>
  The account: what was sent from the server's address are the replies of what was served, in that
  order; every request received waits, is being served, was served, or was lost, each in one way and
  once; and none was lost while the server runs.
\<close>

definition service_inv ::
  "('h, 'q, 'f, 's, 'x, 'p, 'er, 'g) net_ops \<Rightarrow> ('h, 'q, 'f, 's, 'x, 'p, 'er, 'a, 'b, 'y) tower_ops \<Rightarrow>
    socket \<Rightarrow> ('h, 'q, 'f, 's, 'x, 'p, 'er, 'a, 'b, 'y, 'k) service_run \<Rightarrow> bool" where
  "service_inv n tp s v \<longleftrightarrow>
     tasks_known (sr_sim v) \<and> sr_sent v = map (reply_packet n tp s) (sr_served v) \<and>
     mset (waiting_request (sr_server v)) + mset (being_served (sr_tasks v)) +
       mset (map fst (sr_served v)) + mset (sr_lost v) = mset (sr_received v) \<and>
     (\<forall>t \<in> set (sr_tasks v). case t of Serving fut i port a \<Rightarrow> port = local_port s | _ \<Rightarrow> True) \<and>
     (sr_server v = None \<or> sr_lost v = [])"

section \<open>Every step keeps the account\<close>

lemma keeps_server_refl [simp]: "keeps_server n serve_fut perfect s sends cx cx"
  by (simp add: keeps_server_def quiet_def)

lemma keeps_server_trans:
  "keeps_server n serve_fut perfect s sends a b \<Longrightarrow> keeps_server n serve_fut perfect s sends b c \<Longrightarrow>
    keeps_server n serve_fut perfect s sends a c"
  by (auto simp: keeps_server_def quiet_def split: if_splits)

lemma quiet_between:
  "quiet n perfect s sends cx cx' \<Longrightarrow> sent_between n perfect s sends cx cx' ps \<longleftrightarrow> ps = []"
proof (cases perfect)
  case True
  then show "quiet n perfect s sends cx cx' \<Longrightarrow> sent_between n perfect s sends cx cx' ps \<longleftrightarrow> ps = []"
    unfolding quiet_def sent_between_def by (simp add: Diff_eq_empty_iff [THEN iffD2])
next
  case False
  then show "quiet n perfect s sends cx cx' \<Longrightarrow> sent_between n perfect s sends cx cx' ps \<longleftrightarrow> ps = []"
    unfolding quiet_def sent_between_def by auto
qed

text \<open>What concerns the server in a state: its tasks, the ids and the log.\<close>

lemma keeps_server_cong:
  assumes "tasks cx' = tasks cx" and "pre_next_global_id cx' = pre_next_global_id cx" and "ext cx' = ext cx"
  shows "keeps_server n serve_fut perfect s sends cx cx'"
proof -
  have "task_future cx' = task_future cx" by (rule ext) (simp add: task_future_def assms(1))
  then show ?thesis
    by (simp add: keeps_server_def quiet_def serving_tasks_def packet_tasks_def tasks_known_def assms)
qed

lemma spawned_future:
  assumes "spawn_task_on_node e node f cx = Inr (h, cx')"
  obtains i k x where "task_future cx' = (task_future cx)(i \<mapsto> f)" "oneshot_channel e (ext cx) = (k, x)"
    "ext cx' = x" "unat (pre_next_global_id cx) < unat (id_val i)" "tasks_known cx \<longrightarrow> tasks_known cx'"
proof -
  from assms obtain chan x i eh q where c: "oneshot_channel e (ext cx) = (chan, x)"
    and i: "unat (id_val i) = Suc (unat (pre_next_global_id cx))"
    and cx': "cx' = cx\<lparr>pre_next_global_id := id_val i, event_handler := eh,
       arcs := (arcs cx)(i \<mapsto> \<lparr>sh_state = TASK_READY, sh_id = i, sh_node = node\<rparr>),
       queue := Some (q @ [i]),
       tasks := (tasks cx)(i \<mapsto> \<lparr>te_shared = i,
         te_task = Some \<lparr>tk_shared = i, tk_snd = Some chan, tk_fut = f\<rparr>\<rparr>),
       nodes := (nodes cx)[to_index node := insert_task i (nodes cx ! to_index node)], ext := x\<rparr>"
    by (rule spawn_task_effect)
  have f: "task_future cx' = (task_future cx)(i \<mapsto> f)"
    by (rule ext) (simp add: task_future_def cx')
  have "tasks_known cx'" if "tasks_known cx"
    using that i unfolding tasks_known_def f by (auto simp: cx' split: if_splits)
  then show thesis using that [OF f c] i by (simp add: cx')
qed

lemma unknown_task:
  "tasks_known cx \<Longrightarrow> unat (pre_next_global_id cx) < unat (id_val i) \<Longrightarrow> task_future cx i = None"
  by (force simp: tasks_known_def)

lemma distinct_singleton: "set xs = {x} \<Longrightarrow> distinct xs \<Longrightarrow> xs = [x]"
  by (cases xs) (auto simp: insert_eq_iff subset_singleton_iff split: if_splits)

lemma being_served_update:
  "j < length ts \<Longrightarrow> mset (being_served ts) + mset (serving t) =
    mset (being_served (ts[j := t])) + mset (serving (ts ! j))"
proof (induction ts arbitrary: j)
  case (Cons t' ts)
  then show ?case by (cases j) (auto simp: being_served_def ac_simps)
qed simp

lemma being_served_append [simp]: "being_served (ts @ us) = being_served ts @ being_served us"
  by (simp add: being_served_def)

lemma being_served_simps [simp]:
  "being_served [] = []" "being_served [t] = serving t"
  by (simp_all add: being_served_def)

lemma close_inbox_same: "close_inbox e so net cx = Inr (r, cx') \<Longrightarrow> cx' = cx"
  by (auto simp: close_inbox_def Let_def split: if_splits)

lemma socket_drop_keeps:
  assumes "socket_drop e n so cx = Inr (u, cx')"
  shows "keeps_server n serve_fut perfect s sends cx cx'"
  using assms unfolding socket_drop_def
proof (cases rule: with_net_cases)
  case (1 i sim net net' cx1)
  from close_inbox_same [OF 1(6)] 1(10) show ?thesis by (intro keeps_server_cong) simp_all
qed

context rpc_server
begin

lemma keeps_new_tasks:
  assumes "keeps_server n serve_fut perfect s sends cx cx'"
    and "set its = serving_tasks serve_fut cx' - serving_tasks serve_fut cx"
    and "sent_between n perfect s sends cx cx' ps"
  shows "its = []" and "ps = []"
proof -
  have k: "serving_tasks serve_fut cx' \<subseteq> serving_tasks serve_fut cx" "quiet n perfect s sends cx cx'"
    using assms(1) unfolding keeps_server_def by simp_all
  have "set its = {}" unfolding assms(2) using k(1) by simp
  then show "its = []" by simp
  show "ps = []" using assms(3) quiet_between [OF k(2)] by simp
qed

lemma receive_keeps:
  assumes "socket_receive_poll n ty c w cx = Inr (v, cx')"
  shows "keeps_server n serve_fut perfect s sends cx cx'"
proof -
  obtain r cx1 where p: "chan_poll n c w cx = Inr (r, cx1)"
    using assms by (auto simp: socket_receive_poll_def)
  with assms have "cx' = cx1" by (cases r) (auto simp: socket_receive_poll_def)
  then show ?thesis using chan_poll_keeps [OF p] by simp
qed

lemma future_simps [simp]: "delivery_future n d = delivery_future n d' \<longleftrightarrow> d = d'"
  "delivery_future n d \<noteq> serve_fut t" "serve_fut t \<noteq> delivery_future n d" "serve_fut t = serve_fut t' \<longleftrightarrow> t = t'"
  by (rule iffI, erule delivery_inj, simp) (rule futures_differ, rule futures_differ [symmetric],
    rule iffI, erule serve_fut_inj, simp)

lemma spawn_effect:
  assumes "spawn e (serve_fut t) cx = Inr (h, cx')" and known: "tasks_known cx"
  obtains i where "serving_tasks serve_fut cx' = insert (i, t) (serving_tasks serve_fut cx)"
    "unat (pre_next_global_id cx) < unat (id_val i)" "quiet n perfect s sends cx cx'" "tasks_known cx'"
proof -
  obtain node where "spawn_task_on_node e node (serve_fut t) cx = Inr (h, cx')"
    using assms(1) by (auto simp: spawn_def)
  then obtain i k x where f: "task_future cx' = (task_future cx)(i \<mapsto> serve_fut t)"
    and x: "oneshot_channel e (ext cx) = (k, x)" "ext cx' = x"
    and i: "unat (pre_next_global_id cx) < unat (id_val i)" and known': "tasks_known cx \<longrightarrow> tasks_known cx'"
    by (rule spawned_future)
  have none: "task_future cx i = None" by (rule unknown_task [OF known i])
  have "serving_tasks serve_fut cx' = insert (i, t) (serving_tasks serve_fut cx)"
    using none by (auto simp: serving_tasks_def f split: if_splits)
  moreover have "packet_tasks n s cx' \<subseteq> packet_tasks n s cx"
    using none by (auto simp: packet_tasks_def f split: if_splits)
  then have "quiet n perfect s sends cx cx'"
    using oneshot_quiet [OF x(1)] x(2) by (simp add: quiet_def)
  ultimately show thesis using that i known' known by blast
qed

text \<open>A packet that the server sends is the one that reaches the network.\<close>

lemma send_immediate:
  assumes "tower_send e n port dst p cx = Inr (out, cx')" and scope: "serving_scope n perfect s cx" and perfect
  shows "out = Immediate (Inr ())"
proof -
  have "with_net n (net_send e n port dst p) cx = Inr (out, cx')"
    using assms(1) by (auto simp: tower_send_def simulator_get_def with_cx_Inr split: if_splits)
  then show ?thesis
  proof (cases rule: with_net_cases)
    case (1 i sim net net' cx1)
    obtain latency where "send_function net = PerfectConnectivity latency"
      using scope 1(1,3,4) assms(3) by (auto simp: serving_scope_def split: send_function.splits)
    then show ?thesis using 1(6) by (auto simp: net_send_def send_wrapped_def split: if_splits)
  qed
qed

lemma send_effect:
  assumes "tower_send e n (local_port s) dst p cx = Inr (out, cx')" and scope: "serving_scope n perfect s cx"
    and known: "tasks_known cx" and before: "keeps_server n serve_fut perfect s sends cx0 cx" "tasks_known cx0"
    and between: "sent_between n perfect s sends cx0 cx' ps"
  shows "ps = [new_packet (packets n) (local_addr s) dst p]" and "tasks_known cx'"
proof -
  let ?p = "new_packet (packets n) (local_addr s) dst p"
  have "with_net n (net_send e n (local_port s) dst p) cx = Inr (out, cx')"
    using assms(1) by (auto simp: tower_send_def simulator_get_def with_cx_Inr split: if_splits)
  then have "ps = [?p] \<and> tasks_known cx'"
  proof (cases rule: with_net_cases)
    case (1 i sim net net' cx1)
    let ?cx = "cx\<lparr>simulators := (simulators cx)[i := None]\<rparr>"
    have mode: "case send_function net of PerfectConnectivity _ \<Rightarrow> perfect | UserFunction _ \<Rightarrow> \<not> perfect"
      and node: "current_node cx = addr_node (local_addr s)"
      using scope 1(1,3,4) by (auto simp: serving_scope_def split: send_function.splits)
    have src: "Addr (current_node cx) (local_port s) = local_addr s" "hd_src (header ?p) = local_addr s"
      by (simp_all add: node local_port_def new_packet_def)
    obtain f where run: "run_send_function e n (send_function net) ?p ?cx = Inr ((f, out), cx1)"
      using 1(6) src by (auto simp: net_send_def send_wrapped_def cx_current_node_def split: if_splits)
    show ?thesis
    proof (cases "send_function net")
      case (PerfectConnectivity latency)
      with mode have perfect by simp
      obtain at_time h where sp: "spawn_task_on_node e INIT (delivery_future n
          (Enqueued at_time (hd_dst (header ?p), hd_ty (header ?p)) (Inr ?p))) ?cx = Inr (h, cx1)"
        using run PerfectConnectivity by (auto simp: enqueue_packet_def enqueue_def)
      from sp obtain j k x where f: "task_future cx1 = (task_future ?cx)(j \<mapsto> delivery_future n
          (Enqueued at_time (hd_dst (header ?p), hd_ty (header ?p)) (Inr ?p)))"
        and j: "unat (pre_next_global_id ?cx) < unat (id_val j)"
        and known': "tasks_known ?cx \<longrightarrow> tasks_known cx1"
        by (rule spawned_future) blast
      have same: "task_future ?cx = task_future cx" "task_future cx' = task_future cx1"
        by (rule ext, simp add: task_future_def 1(10))+
      have "tasks_known cx'"
        using known known' by (simp add: tasks_known_def same) (simp add: 1(10))
      have none: "task_future cx j = None" by (rule unknown_task [OF known]) (use j in simp)
      have now: "packet_tasks n s cx' = insert (j, ?p) (packet_tasks n s cx)"
        using none src(2) by (auto simp: packet_tasks_def same f split: if_splits)
      have "task_future cx0 j = None"
        by (rule unknown_task [OF before(2)]) (use j before(1) in \<open>simp add: keeps_server_def\<close>)
      then have "(j, ?p) \<notin> packet_tasks n s cx0" by (simp add: packet_tasks_def)
      moreover have "packet_tasks n s cx \<subseteq> packet_tasks n s cx0"
        using before(1) \<open>perfect\<close> by (simp add: keeps_server_def quiet_def)
      ultimately have "packet_tasks n s cx' - packet_tasks n s cx0 = {(j, ?p)}" unfolding now by blast
      then obtain ips where "distinct ips" "set ips = {(j, ?p)}" "ps = map snd ips"
        using between \<open>perfect\<close> by (auto simp: sent_between_def)
      moreover from this(2,1) have "ips = [(j, ?p)]" by (rule distinct_singleton)
      ultimately show ?thesis using \<open>tasks_known cx'\<close> by simp
    next
      case (UserFunction g)
      with mode have user: "\<not> perfect" by simp
      obtain r where "call_send_function n g ?p ?cx = Inr (r, cx1)" using run UserFunction by auto
      note l = send_logged [OF user this]
      have same: "task_future ?cx = task_future cx" "task_future cx' = task_future cx1"
        by (rule ext, simp add: task_future_def 1(10))+
      have "tasks_known cx'"
        using known l by (simp add: tasks_known_def same) (simp add: 1(10))
      moreover have "sent_from s (sends (ext cx')) = ?p # sent_from s (sends (ext cx0))"
        using l src(2) before(1) user by (simp add: 1(10) sent_from_def keeps_server_def quiet_def)
      ultimately show ?thesis using between user by (simp add: sent_between_def)
    qed
  qed
  then show "ps = [?p]" "tasks_known cx'" by simp_all
qed

text \<open>A turn of the server accounts for the request that it had or received.\<close>

lemma turn_effect:
  assumes turn: "server_turn e n tp sv serve_fut w s (k, st) cx = Inr ((st', r), cx')"
    and known: "tasks_known cx" and ended: "ended = (\<exists>error. r = Ready (Some error))"
    and its: "distinct its" "set its = serving_tasks serve_fut cx' - serving_tasks serve_fut cx"
    and sent: "sent_between n perfect s sends cx cx' ps"
  shows "ps = []" and "tasks_known cx'"
    and "mset (waiting_request (if ended then None else Some st')) + mset (being_served (map snd its)) +
      mset (if ended then waiting_request (Some (k, st)) else []) =
      mset (waiting_request (Some (k, st))) + mset (request_received n tp w s st cx)"
    and "\<forall>t \<in> snd ` set its. case t of Serving fut i port a \<Rightarrow> port = local_port s | _ \<Rightarrow> True"
proof -
  let ?goal = "ps = [] \<and> tasks_known cx' \<and>
    mset (waiting_request (if ended then None else Some st')) + mset (being_served (map snd its)) +
      mset (if ended then waiting_request (Some (k, st)) else []) =
      mset (waiting_request (Some (k, st))) + mset (request_received n tp w s st cx) \<and>
    (\<forall>t \<in> snd ` set its. case t of Serving fut i port a \<Rightarrow> port = local_port s | _ \<Rightarrow> True)"
  have kept: ?goal
    if "keeps_server n serve_fut perfect s sends cx cx'"
      and "mset (waiting_request (if ended then None else Some st')) +
        mset (if ended then waiting_request (Some (k, st)) else []) =
        mset (waiting_request (Some (k, st))) + mset (request_received n tp w s st cx)"
    using keeps_new_tasks [OF that(1) its(2) sent] that known by (simp add: keeps_server_def)
  have ?goal
  proof (cases st)
    case ServerReceive
    then obtain v cx1 where rcv: "socket_receive_poll n (request_type tp) (inbox s) w cx = Inr (v, cx1)"
      using turn by auto
    note keep = receive_keeps [OF rcv]
    show ?thesis
    proof (cases v)
      case Pending
      with turn rcv ServerReceive keep ended show ?thesis by (intro kept) (auto simp: request_received_def)
    next
      case (Ready res)
      show ?thesis
      proof (cases res)
        case (Inl error)
        obtain u where "socket_drop e n s cx1 = Inr (u, cx')" and r: "st' = (k, ServerReceive)" "r = Ready (Some (Inr error))"
          using turn rcv ServerReceive Ready Inl by auto
        from keeps_server_trans [OF keep socket_drop_keeps [OF this(1)]] show ?thesis
          by (rule kept) (simp add: r ended request_received_def ServerReceive rcv Ready Inl)
      next
        case (Inr pa)
        obtain p a where pa: "pa = (p, a)" by (cases pa)
        obtain req i where q: "unpack_request tp p = Start req i" by (cases "unpack_request tp p")
        have r: "st' = (k, ServerReady req i a)" "r = Ready None" "cx' = cx1"
          using turn rcv ServerReceive Ready Inr pa q by auto
        show ?thesis
          by (rule kept) (use keep in \<open>simp_all add: r ended request_received_def ServerReceive rcv Ready Inr pa q\<close>)
      qed
    qed
  next
    case (ServerReady req i a)
    then obtain k1 v cx1 where rdy: "service_poll_ready sv k w cx = Inr ((k1, v), cx1)"
      using turn by auto
    note keep = ready_keeps [OF rdy]
    have none: "request_received n tp w s (ServerReady req i a) cx = []" by (simp add: request_received_def)
    show ?thesis
    proof (cases v)
      case Pending
      then have r: "st' = (k1, st)" "r = Pending" "cx' = cx1" using turn rdy ServerReady by auto
      show ?thesis
        by (rule kept) (use keep in \<open>simp_all add: r ended none ServerReady\<close>)
    next
      case (Ready res)
      show ?thesis
      proof (cases res)
        case (Inl error)
        obtain u where "socket_drop e n s cx1 = Inr (u, cx')" and r: "r = Ready (Some (Inl error))"
          using turn rdy ServerReady Ready Inl by auto
        from keeps_server_trans [OF keep socket_drop_keeps [OF this(1)]] show ?thesis
          by (rule kept) (simp add: r ended none ServerReady)
      next
        case (Inr u)
        let ?t = "\<lambda>fut. Serving fut i (local_port s) a"
        obtain k2 fut cx2 h where call: "service_call sv k1 req cx1 = Inr ((k2, fut), cx2)"
          and sp: "spawn e (serve_fut (?t fut)) cx2 = Inr (h, cx')"
          and r: "st' = (k2, ServerReceive)" "r = Ready None"
          using turn rdy ServerReady Ready Inr by auto
        have keep2: "keeps_server n serve_fut perfect s sends cx cx2"
          by (rule keeps_server_trans [OF keep call_keeps [OF call]])
        then have known2: "tasks_known cx2" using known by (simp add: keeps_server_def)
        obtain j where now: "serving_tasks serve_fut cx' = insert (j, ?t fut) (serving_tasks serve_fut cx2)"
          and j: "unat (pre_next_global_id cx2) < unat (id_val j)"
          and q: "quiet n perfect s sends cx2 cx'" and known': "tasks_known cx'"
          by (rule spawn_effect [OF sp known2])
        have "task_future cx j = None"
          by (rule unknown_task [OF known]) (use j keep2 in \<open>simp add: keeps_server_def\<close>)
        then have "(j, ?t fut) \<notin> serving_tasks serve_fut cx" by (simp add: serving_tasks_def)
        moreover have "serving_tasks serve_fut cx2 \<subseteq> serving_tasks serve_fut cx"
          using keep2 by (simp add: keeps_server_def)
        ultimately have "set its = {(j, ?t fut)}" unfolding its(2) now by blast
        then have its': "its = [(j, ?t fut)]" using its(1) by (rule distinct_singleton)
        have "quiet n perfect s sends cx cx'"
          using keep2 q by (auto simp: keeps_server_def quiet_def split: if_splits)
        then have "ps = []" using sent quiet_between by blast
        then show ?thesis using known' by (simp add: its' r ended none ServerReady)
      qed
    qed
  qed
  then show "ps = []" "tasks_known cx'"
    "mset (waiting_request (if ended then None else Some st')) + mset (being_served (map snd its)) +
      mset (if ended then waiting_request (Some (k, st)) else []) =
      mset (waiting_request (Some (k, st))) + mset (request_received n tp w s st cx)"
    "\<forall>t \<in> snd ` set its. case t of Serving fut i port a \<Rightarrow> port = local_port s | _ \<Rightarrow> True"
    by blast+
qed

lemma await_sent_keeps:
  assumes "await_sent e tp w out cx = Inr ((out', v), cx')"
  shows "keeps_server n serve_fut perfect s sends cx cx'" and "out = Immediate x \<Longrightarrow> cx' = cx"
proof -
  show "keeps_server n serve_fut perfect s sends cx cx'"
  proof (cases out)
    case (Deferred f)
    then obtain f' v1 cx1 where f: "poll_net_future tp f w cx = Inr ((f', v1), cx1)"
      and r: "(case v1 of Pending \<Rightarrow> Inr ((Deferred f', Pending), cx1)
        | Ready r \<Rightarrow> andThen (drop_future e f' cx1) (\<lambda>cx. Inr ((Deferred f', Ready r), cx))) = Inr ((out', v), cx')"
      using assms by auto
    note k = sent_keeps [OF f]
    show ?thesis
    proof (cases v1)
      case Pending
      then show ?thesis using r k by simp
    next
      case (Ready x)
      then have "drop_future e f' cx1 = Inr cx'" using r by auto
      from keeps_server_trans [OF k conjunct1 [OF drop_keeps [OF this]]] show ?thesis .
    qed
  qed (use assms in simp)
  show "cx' = cx" if "out = Immediate x" using assms that by simp
qed

lemma await_response_effect:
  assumes "await_response e tp w out cx = Inr ((t, r), cx')"
  shows "keeps_server n serve_fut perfect s sends cx cx'" and "serving t = []"
    and "case t of Serving fut i port a \<Rightarrow> port = local_port s | _ \<Rightarrow> True"
    and "out = Immediate x \<Longrightarrow> cx' = cx"
proof -
  obtain out' v cx1 where a: "await_sent e tp w out cx = Inr ((out', v), cx1)"
    using assms by (auto simp: await_response_def)
  with assms have "cx' = cx1 \<and> (t = Responding out' \<or> t = Served)"
    by (cases v) (auto simp: await_response_def)
  then show "keeps_server n serve_fut perfect s sends cx cx'" "serving t = []"
    "case t of Serving fut i port a \<Rightarrow> port = local_port s | _ \<Rightarrow> True"
    "out = Immediate x \<Longrightarrow> cx' = cx"
    using await_sent_keeps [OF a] by auto
qed

text \<open>
  A poll of a serving task goes on with its request, or gets its result from the service and hands the
  one reply to the network.
\<close>

lemma serve_effect:
  assumes poll: "serve_poll e n tp sv w t cx = Inr ((t', r), cx')"
    and scope: "serving_scope n perfect s cx" and known: "tasks_known cx"
    and port: "case t of Serving fut i port a \<Rightarrow> port = local_port s | _ \<Rightarrow> True"
    and sent: "sent_between n perfect s sends cx cx' ps"
  shows "ps = map (reply_packet n tp s) (result_given sv w t cx)" and "tasks_known cx'"
    and "mset (serving t) = mset (serving t') + mset (map fst (result_given sv w t cx))"
    and "case t' of Serving fut i port a \<Rightarrow> port = local_port s | _ \<Rightarrow> True"
proof -
  have quietly: "ps = []" "tasks_known cx'" if "keeps_server n serve_fut perfect s sends cx cx'"
    using that sent quiet_between [of n perfect s sends cx cx' ps] known by (simp_all add: keeps_server_def)
  have "ps = map (reply_packet n tp s) (result_given sv w t cx) \<and> tasks_known cx' \<and>
    mset (serving t) = mset (serving t') + mset (map fst (result_given sv w t cx)) \<and>
    (case t' of Serving fut i port a \<Rightarrow> port = local_port s | _ \<Rightarrow> True)"
  proof (cases t)
    case (Serving fut i port' a)
    then obtain fut' v cx1 where sp: "service_poll sv fut w cx = Inr ((fut', v), cx1)" using poll by auto
    note keep1 = poll_keeps [OF sp]
    show ?thesis
    proof (cases v)
      case Pending
      then have "t' = Serving fut' i port' a" "cx' = cx1" using poll sp Serving by auto
      with keep1 quietly port show ?thesis by (simp add: Serving result_given_def sp Pending)
    next
      case (Ready result)
      obtain cx2 out cx3 where drop: "drop_future e fut' cx1 = Inr cx2"
        and send: "tower_send e n (local_port s) a (pack_response tp (Complete result i)) cx2 = Inr (out, cx3)"
        and resp: "await_response e tp w out cx3 = Inr ((t', r), cx')"
        using poll sp Serving Ready port by auto
      have keep2: "keeps_server n serve_fut perfect s sends cx cx2"
        by (rule keeps_server_trans [OF conjunct1 [OF keep1] conjunct1 [OF drop_keeps [OF drop]]])
      have scope2: "serving_scope n perfect s cx2" using scope keep1 drop_keeps [OF drop] by blast
      have known2: "tasks_known cx2" using keep2 known by (simp add: keeps_server_def)
      note rest = await_response_effect [OF resp]
      have sent3: "sent_between n perfect s sends cx cx3 ps"
      proof (cases perfect)
        case True
        from rest(4) send_immediate [OF send scope2 True] sent show ?thesis by simp
      next
        case False
        then show ?thesis
          using sent rest(1) by (simp add: sent_between_def keeps_server_def quiet_def)
      qed
      note s3 = send_effect [OF send scope2 known2 keep2 known sent3]
      show ?thesis
        using s3 rest by (simp add: Serving result_given_def sp Ready reply_packet_def keeps_server_def)
    qed
  next
    case (Responding out)
    then have "await_response e tp w out cx = Inr ((t', r), cx')" using poll by simp
    note rest = await_response_effect [OF this]
    show ?thesis using rest quietly [OF rest(1)] by (simp add: Responding result_given_def)
  qed (use poll in simp)
  then show "ps = map (reply_packet n tp s) (result_given sv w t cx)" "tasks_known cx'"
    "mset (serving t) = mset (serving t') + mset (map fst (result_given sv w t cx))"
    "case t' of Serving fut i port a \<Rightarrow> port = local_port s | _ \<Rightarrow> True" by blast+
qed

lemma service_inv_step:
  assumes "service_step e n tp sv serve_fut perfect s sends v v'" and inv: "service_inv n tp s v"
  shows "service_inv n tp s v'"
  using assms(1)
proof cases
  case (turn k st w st' r cx' its ps ended)
  have known: "tasks_known (sr_sim v)" using inv by (simp add: service_inv_def)
  note eff = turn_effect [OF turn(3) known turn(7,4,5,6)]
  have "mset (waiting_request (if ended then None else Some st')) +
      mset (being_served (sr_tasks v @ map snd its)) + mset (map fst (sr_served v)) +
      mset ((if ended then waiting_request (sr_server v) else []) @ sr_lost v) =
      mset (request_received n tp w s st (sr_sim v) @ sr_received v)"
    using inv eff(3) by (cases ended) (auto simp: service_inv_def turn(2) ac_simps)
  moreover have "ended \<or> sr_lost v = []" using inv turn(2) by (simp add: service_inv_def)
  ultimately show ?thesis
    using inv eff(1,2,4) unfolding turn(1) service_inv_def by (auto simp: ball_Un)
next
  case (serve j w t r cx' ps)
  have known: "tasks_known (sr_sim v)" using inv by (simp add: service_inv_def)
  have port: "case sr_tasks v ! j of Serving fut i port a \<Rightarrow> port = local_port s | _ \<Rightarrow> True"
    using inv nth_mem [OF serve(2)] by (auto simp: service_inv_def)
  note eff = serve_effect [OF serve(4,3) known port serve(5)]
  have "mset (being_served (sr_tasks v)) = mset (being_served ((sr_tasks v)[j := t])) +
      mset (map fst (result_given sv w (sr_tasks v ! j) (sr_sim v)))"
    using being_served_update [OF serve(2), of t] eff(3) by (simp add: ac_simps)
  then show ?thesis
    using inv eff(1,2,4) set_update_subset_insert [of "sr_tasks v" j t] unfolding serve(1)
    by (auto simp: service_inv_def ac_simps)
next
  case (server_aborted cx')
  then show ?thesis using inv by (auto simp: service_inv_def ac_simps)
next
  case (node_stopped cx')
  then show ?thesis using inv by (simp add: service_inv_def ac_simps)
next
  case (other cx')
  then show ?thesis using inv by (auto simp: service_inv_def ac_simps)
qed

lemma service_inv_run:
  assumes "(service_step e n tp sv serve_fut perfect s sends)\<^sup>*\<^sup>* (start_service k cx) v"
    and "tasks_known cx"
  shows "service_inv n tp s v"
  using assms(1)
proof (induction rule: rtranclp_induct)
  case base
  then show ?case using assms(2) by (simp add: service_inv_def start_service_def)
qed (rule service_inv_step)

end

section \<open>Replies\<close>

text \<open>
  C38: Whatever the turns of a server's tasks result in and the rest of the program does, each request
  that the server's socket gave it is in one place: it waits for the service, is being served by a task
  that was spawned for it, was served, or was lost, and that only when the server has ended. The packets
  sent from the server's address are the responses of the requests that were served, each once, with its
  id and what the service returned for it, to where it came from. This holds with
  \<open>perfect_connectivity\<close> and with a send function of the program.
\<close>

theorem requests_are_served_once:
  assumes "rpc_server e n tp sv serve_fut perfect s sends" and "tasks_known cx"
    and "(service_step e n tp sv serve_fut perfect s sends)\<^sup>*\<^sup>* (start_service k cx) v"
  shows "sr_sent v = map (reply_packet n tp s) (sr_served v) \<and>
    mset (waiting_request (sr_server v)) + mset (being_served (sr_tasks v)) +
      mset (map fst (sr_served v)) + mset (sr_lost v) = mset (sr_received v) \<and>
    (sr_server v = None \<or> sr_lost v = [])"
  using rpc_server.service_inv_run [OF assms(1,3,2)] by (simp add: service_inv_def)

end
