(* ===== verification/WireServer.thy ===== *)
theory WireServer
  imports Served Wire
begin

text \<open>
  A server of \<open>Tower\<close> over the wire of \<open>Wire\<close>, whose service doubles a number. It meets what
  \<open>rpc_server\<close> asks for with the packets that the wire recorded as its log, and a run of it serves a
  request.
\<close>

section \<open>A service\<close>

type_synonym wire_service_ops =
  "(nat, (nat \<times> instant) list, wire_future, unit net, wire_heap, nat, nat, nat, nat) service_ops"

text \<open>The service's state is the number of its calls.\<close>

definition doubler :: wire_service_ops where
  "doubler =
     \<lparr>service_poll_ready = (\<lambda>k _ cx. Inr ((k, Ready (Inr ())), cx)),
      service_call = (\<lambda>k req cx. Inr ((k + 1, Compute (2 * req)), cx)),
      service_poll = (\<lambda>f _ cx. Inr ((f, case f of Compute b \<Rightarrow> Ready (Inr b) | _ \<Rightarrow> Pending), cx))\<rparr>"

definition wire_socket :: socket where
  "wire_socket = \<lparr>socket_ty = ''Request'', inbox = 0, local_addr = Addr (NodeId 2) (Id 8)\<rparr>"

lemma wire_server: "rpc_server wire_env wire_net wire_tower doubler ServeTask perfect wire_socket wire"
proof
  fix cx cx' :: wire_sim
  have futures: "task_future cx' = task_future cx" if "tasks cx' = tasks cx"
    by (rule ext) (simp add: task_future_def that)
  then have keeps: "keeps_server wire_net ServeTask perfect wire_socket wire cx cx'"
    if "tasks cx' = tasks cx" "wire (ext cx') = wire (ext cx)" "pre_next_global_id cx' = pre_next_global_id cx"
    using that
    by (simp add: keeps_server_def quiet_def serving_tasks_def packet_tasks_def tasks_known_def)
  show "keeps_server wire_net ServeTask perfect wire_socket wire cx cx'"
    if "chan_poll wire_net i w cx = Inr (v, cx')" for i w v
    using that by (intro keeps) (auto simp: wire_net_def wire_receive_def split: list.splits)
  show "wire (ext cx') = msg # wire (ext cx) \<and> (tasks_known cx \<longrightarrow> tasks_known cx')"
    if "call_send_function wire_net g msg cx = Inr (out, cx')" for g msg out
    using that futures by (auto simp: wire_net_def wire_send_def tasks_known_def)
qed (auto simp: wire_tower_def wire_env_def wire_net_def doubler_def split: wire_future.splits)

interpretation served: rpc_server wire_env wire_net wire_tower doubler ServeTask perfect wire_socket wire
  for perfect by (rule wire_server)

section \<open>A run\<close>

text \<open>The wire's simulation on the server's node, with a request in the server's inbox.\<close>

definition wire_request :: "wire_packet packet_rc" where
  "wire_request = new_packet (packets wire_net) (Addr INIT (Id 9)) (Addr (NodeId 2) (Id 8)) (Req (Start 21 (Id 1)))"

definition serving0 :: wire_sim where
  "serving0 = wire_arrive wire_request (wire_start
     \<lparr>current_node := NodeId 2, nodes := replicate 2 \<lparr>run_level = Running, node_tasks = []\<rparr>\<rparr>)"

abbreviation "wire_serve \<equiv> server_turn wire_env wire_net wire_tower doubler ServeTask (Id 20) wire_socket"
abbreviation "wire_serving \<equiv> Serving (Compute 42) (Id 1) (Id 8) (Addr INIT (Id 9)) :: (nat, wire_future) serve_state"

definition serving1 :: wire_sim where "serving1 = wire_state (wire_serve (0, ServerReceive) serving0)"
definition serving2 :: wire_sim where
  "serving2 = wire_state (wire_serve (0, ServerReady 21 (Id 1) (Addr INIT (Id 9))) serving1)"
definition serving3 :: wire_sim where
  "serving3 = wire_state (serve_poll wire_env wire_net wire_tower doubler (Id 22) wire_serving serving2)"

lemma serve_turns:
  "wire_returns ((0, ServerReady 21 (Id 1) (Addr INIT (Id 9))), Ready None) (wire_serve (0, ServerReceive) serving0)"
  "wire_returns (Ready (Inr (Req (Start 21 (Id 1)), Addr INIT (Id 9))))
    (socket_receive_poll wire_net (request_type wire_tower) (inbox wire_socket) (Id 20) serving0)"
  "wire_returns ((1, ServerReceive), Ready None)
    (wire_serve (0, ServerReady 21 (Id 1) (Addr INIT (Id 9))) serving1)"
  "wire_returns (Served, Ready ()) (serve_poll wire_env wire_net wire_tower doubler (Id 22) wire_serving serving2)"
  "serving_scope wire_net False wire_socket serving2"
  "wire (ext serving0) = []" "wire (ext serving1) = []" "wire (ext serving2) = []"
  "wire (ext serving3) = [reply_packet wire_net wire_tower wire_socket ((Id 1, Addr INIT (Id 9)), Inr 42)]"
  "request_received wire_net wire_tower (Id 20) wire_socket (ServerReceive :: nat server_state) serving0 =
    [(Id 1, Addr INIT (Id 9))]"
  "result_given doubler (Id 22) wire_serving serving2 = [((Id 1, Addr INIT (Id 9)), Inr 42)]"
  by code_simp+

lemma serve_spawn:
  obtains h where "spawn wire_env (ServeTask wire_serving) serving1 = Inr (h, serving2)"
proof -
  have "wire_state (spawn wire_env (ServeTask wire_serving) serving1) = serving2"
    by (simp add: serving2_def doubler_def local_port_def wire_socket_def wire_state_def split: sum.split)
  moreover have "case spawn wire_env (ServeTask wire_serving) serving1 of Inl _ \<Rightarrow> False | Inr _ \<Rightarrow> True"
    by code_simp
  ultimately show thesis
    using that by (auto simp: wire_state_def split: sum.splits)
qed

abbreviation "wire_service_step \<equiv>
  service_step wire_env wire_net wire_tower doubler ServeTask False wire_socket wire"

definition wire_served ::
  "(nat, (nat \<times> instant) list, wire_future, unit net, wire_heap, wire_packet, nat, nat, nat, nat, nat) service_run" where
  "wire_served =
     \<lparr>sr_server = Some (1, ServerReceive), sr_tasks = [Served], sr_sim = serving3,
      sr_received = [(Id 1, Addr INIT (Id 9))], sr_served = [((Id 1, Addr INIT (Id 9)), Inr 42)],
      sr_sent = wire (ext serving3), sr_lost = []\<rparr>"

lemma serving_known: "tasks_known serving0" "tasks_known serving1"
  "serving_tasks ServeTask serving0 = {}" "serving_tasks ServeTask serving1 = {}"
proof -
  have "task_future serving0 i = None" for i
    by (simp add: task_future_def serving0_def wire_arrive_def wire_start_def)
  then show known: "tasks_known serving0" and none: "serving_tasks ServeTask serving0 = {}"
    by (simp_all add: tasks_known_def serving_tasks_def)
  obtain cx1 where rcv: "socket_receive_poll wire_net (request_type wire_tower) (inbox wire_socket) (Id 20) serving0 =
      Inr (Ready (Inr (Req (Start 21 (Id 1)), Addr INIT (Id 9))), cx1)"
    using wire_returnsD [OF serve_turns(2)] by blast
  have "unpack_request wire_tower (Req (Start 21 (Id 1))) = Start 21 (Id 1)" by (simp add: wire_tower_def)
  then have "serving1 = cx1" by (simp add: serving1_def wire_state_def rcv)
  with served.receive_keeps [OF rcv] have "keeps_server wire_net ServeTask False wire_socket wire serving0 serving1"
    by simp
  then show "tasks_known serving1" "serving_tasks ServeTask serving1 = {}"
    using known none by (simp_all add: keeps_server_def)
qed

lemma wire_service_run: "wire_service_step\<^sup>*\<^sup>* (start_service 0 serving0) wire_served"
proof -
  let ?a = "Addr INIT (Id 9)"
  let ?v1 = "\<lparr>sr_server = Some (0, ServerReady 21 (Id 1) ?a), sr_tasks = [], sr_sim = serving1,
    sr_received = [(Id 1, ?a)], sr_served = [], sr_sent = [], sr_lost = []\<rparr>"
  let ?v2 = "\<lparr>sr_server = Some (1, ServerReceive), sr_tasks = [wire_serving], sr_sim = serving2,
    sr_received = [(Id 1, ?a)], sr_served = [], sr_sent = [], sr_lost = []\<rparr>"
  note sent = sent_between_def [of wire_net False wire_socket wire] sent_from_def
  have "wire_service_step (start_service 0 serving0) ?v1"
    using service_step.turn [where v = "start_service 0 serving0" and k = 0 and st = ServerReceive
        and w = "Id 20" and cx' = serving1 and its = "[]" and ps = "[]" and ended = False
        and e = wire_env and n = wire_net and tp = wire_tower and sv = doubler and serve_fut = ServeTask
        and perfect = False and s = wire_socket and sends = wire]
      wire_returnsD [OF serve_turns(1), folded serving1_def] serving_known(3,4) serve_turns(6,7,10)
    by (simp add: start_service_def sent del: server_turn.simps)
  then have 1: "wire_service_step\<^sup>*\<^sup>* (start_service 0 serving0) ?v1" by (rule r_into_rtranclp)
  obtain h where h: "spawn wire_env (ServeTask wire_serving) serving1 = Inr (h, serving2)"
    by (rule serve_spawn)
  obtain i where "serving_tasks ServeTask serving2 = insert (i, wire_serving) (serving_tasks ServeTask serving1)"
    by (rule served.spawn_effect [OF h serving_known(2)])
  then have new: "set [(i, wire_serving)] = serving_tasks ServeTask serving2 - serving_tasks ServeTask serving1"
    by (simp add: serving_known(4))
  have none: "request_received wire_net wire_tower (Id 20) wire_socket (ServerReady 21 (Id 1) ?a) serving1 = []"
    by (simp add: request_received_def)
  have "wire_service_step ?v1 ?v2"
    using service_step.turn [where v = ?v1 and k = 0 and st = "ServerReady 21 (Id 1) ?a" and w = "Id 20"
        and cx' = serving2 and its = "[(i, wire_serving)]" and ps = "[]" and ended = False
        and e = wire_env and n = wire_net and tp = wire_tower and sv = doubler and serve_fut = ServeTask
        and perfect = False and s = wire_socket and sends = wire]
      new none wire_returnsD [OF serve_turns(3), folded serving2_def] serve_turns(7,8)
    by (simp add: sent del: server_turn.simps)
  with 1 have 2: "wire_service_step\<^sup>*\<^sup>* (start_service 0 serving0) ?v2" by (rule rtranclp.rtrancl_into_rtrancl)
  have "wire_service_step ?v2 wire_served"
    using service_step.serve [where v = ?v2 and j = 0 and w = "Id 22" and cx' = serving3
        and ps = "wire (ext serving3)"
        and e = wire_env and n = wire_net and tp = wire_tower and sv = doubler and serve_fut = ServeTask
        and perfect = False and s = wire_socket and sends = wire]
      serve_turns(5,8,9,11) wire_returnsD [OF serve_turns(4), folded serving3_def]
    by (simp add: wire_served_def sent reply_packet_def new_packet_def del: serve_poll.simps)
  with 2 show ?thesis by (rule rtranclp.rtrancl_into_rtrancl)
qed

text \<open>The request was received, and the one packet from the server's address is its response.\<close>

theorem requests_are_served_once_witness:
  "sr_sent wire_served = map (reply_packet wire_net wire_tower wire_socket) (sr_served wire_served) \<and>
    mset (map fst (sr_served wire_served)) = mset (sr_received wire_served) \<and>
    wire (ext serving3) = [reply_packet wire_net wire_tower wire_socket ((Id 1, Addr INIT (Id 9)), Inr 42)]"
  using requests_are_served_once [OF wire_server serving_known(1) wire_service_run] serve_turns(9)
  by (simp add: wire_served_def)

end
