(* ===== verification/TowerTasks.thy ===== *)
theory TowerTasks
  imports Tower Inboxes
begin

text \<open>
  The tasks of \<open>Tower\<close> are outside code to the executor. They act through the crate's operations, so when
  the channels and the service that they call keep to the executor's contract, every poll of theirs does.
\<close>

section \<open>Polls\<close>

text \<open>What a poll with an allocated waker does is a call of outside code.\<close>

definition polled ::
  "('h, 'q, 'f, 's, 'x, 'v) env \<Rightarrow> id \<Rightarrow> ('h, 'q, 'f, 's, 'x) sim \<Rightarrow> ('h, 'q, 'f, 's, 'x) sim \<Rightarrow> bool" where
  "polled e w cx cx' \<longleftrightarrow> (arcs cx w \<noteq> None \<longrightarrow> outside_call e cx cx')"

lemma polled_refl [simp]: "polled e w cx cx"
  by (simp add: polled_def)

lemma polled_call: "outside_call e cx cx' \<Longrightarrow> polled e w cx cx'"
  by (simp add: polled_def)

lemma polled_trans: "polled e w a b \<Longrightarrow> polled e w b c \<Longrightarrow> polled e w a c"
  unfolding polled_def using outside_call_arcs outside_call_trans by blast

section \<open>A poll is a sequence of turns\<close>

definition turns_to ::
  "('c \<Rightarrow> 'd \<Rightarrow> panic + ('c \<times> 'r) \<times> 'd) \<Rightarrow> 'c \<times> 'd \<Rightarrow> 'c \<times> 'd \<Rightarrow> bool" where
  "turns_to turn a b \<longleftrightarrow> (\<exists>r. turn (fst a) (snd a) = Inr ((fst b, r), snd b))"

lemma turns_toI: "turn st cx = Inr ((st', r), cx') \<Longrightarrow> turns_to turn (st, cx) (st', cx')"
  by (auto simp: turns_to_def)

lemma send_task_poll_turns:
  assumes "send_task_poll e n tp w t st cx = Some (Inr (st', cx'))"
  shows "(turns_to (send_turn e n tp w t))\<^sup>*\<^sup>* (st, cx) (st', cx')"
proof -
  have "r = Inr (st', cx') \<longrightarrow>
      (turns_to (send_turn e n tp w t))\<^sup>*\<^sup>* (st, cx) (st', cx')"
    if "send_task_poll e n tp w t st cx = Some r" for r
  proof (rule send_task_poll.raw_induct [OF _ that], goal_cases)
    case (1 poll e n tp w t st cx r)
    then show ?case
      by (auto split: sum.splits poll.splits prod.splits
          intro: turns_toI converse_rtranclp_into_rtranclp r_into_rtranclp)
  qed
  then show ?thesis using assms by simp
qed

lemma recv_task_poll_turns:
  assumes "recv_task_poll e n tp w t cx = Some (Inr cx')"
  shows "(\<lambda>cx cx'. \<exists>r. recv_turn e n tp w t cx = Inr (r, cx'))\<^sup>*\<^sup>* cx cx'"
proof -
  have "r = Inr cx' \<longrightarrow> (\<lambda>cx cx'. \<exists>r. recv_turn e n tp w t cx = Inr (r, cx'))\<^sup>*\<^sup>* cx cx'"
    if "recv_task_poll e n tp w t cx = Some r" for r
  proof (rule recv_task_poll.raw_induct [OF _ that], goal_cases)
    case (1 poll e n tp w t cx r)
    then show ?case
      by (auto split: sum.splits poll.splits prod.splits
          intro: converse_rtranclp_into_rtranclp r_into_rtranclp)
  qed
  then show ?thesis using assms by simp
qed

lemma server_poll_turns:
  assumes "server_poll e n tp sv serve_fut w s st cx = Some (Inr ((st', r'), cx'))"
  shows "(turns_to (server_turn e n tp sv serve_fut w s))\<^sup>*\<^sup>*
    (st, cx) (st', cx')"
proof -
  have "r = Inr ((st', r'), cx') \<longrightarrow>
      (turns_to (server_turn e n tp sv serve_fut w s))\<^sup>*\<^sup>*
        (st, cx) (st', cx')"
    if "server_poll e n tp sv serve_fut w s st cx = Some r" for r
  proof (rule server_poll.raw_induct [OF _ that], goal_cases)
    case (1 poll e n tp sv serve_fut w s st cx r)
    then show ?case
      by (auto split: sum.splits poll.splits prod.splits option.splits
          intro: turns_toI converse_rtranclp_into_rtranclp r_into_rtranclp)
  qed
  then show ?thesis using assms by simp
qed

section \<open>What the tasks call\<close>

text \<open>The channels of a client and a service as outside code, over the inboxes of the network.\<close>

locale tower_code = inbox_channels e n buffer + outside_code e contents
  for e :: "('h, 'q, 'f, 's, 'x, 'v) env"
    and n :: "('h, 'q, 'f, 's, 'x, 'p, 'er, 'g) net_ops"
    and buffer :: "'x \<Rightarrow> nat \<rightharpoonup> ('p, 'er) message list"
    and contents :: "'q \<Rightarrow> nat \<rightharpoonup> instant" +
  fixes tp :: "('h, 'q, 'f, 's, 'x, 'p, 'er, 'a, 'b, 'y) tower_ops"
    and sv :: "('h, 'q, 'f, 's, 'x, 'a, 'b, 'y, 'k) service_ops"
  assumes next_call: "mpsc_next tp r w cx = Inr (v1, cx') \<Longrightarrow> polled e w cx cx'"
    and poll_send_call: "mpsc_poll_send tp f w cx = Inr (v2, cx') \<Longrightarrow> polled e w cx cx'"
    and client_ready_call: "mpsc_poll_ready tp r w cx = Inr (v3, cx') \<Longrightarrow> polled e w cx cx'"
    and sender_drop_call: "mpsc_drop_sender tp r cx = Inr cx' \<Longrightarrow> outside_call e cx cx'"
    and answer_call: "call_send tp r res cx = Inr cx' \<Longrightarrow> outside_call e cx cx'"
    and answer_poll_call: "call_poll tp r w cx = Inr (v4, cx') \<Longrightarrow> polled e w cx cx'"
    and sent_call: "poll_net_future tp f w cx = Inr (v5, cx') \<Longrightarrow> polled e w cx cx'"
    and service_ready_call: "service_poll_ready sv k w cx = Inr (v6, cx') \<Longrightarrow> polled e w cx cx'"
    and service_call_call: "service_call sv k req cx = Inr (v7, cx') \<Longrightarrow> outside_call e cx cx'"
    and service_poll_call: "service_poll sv f w cx = Inr (v8, cx') \<Longrightarrow> polled e w cx cx'"

section \<open>Every poll is a call of outside code\<close>

context tower_code
begin

lemma tower_send_call: "tower_send e n port dst p cx = Inr (out, cx') \<Longrightarrow> outside_call e cx cx'"
  by (auto simp: tower_send_def net_send_call elim!: with_net_call)

lemma await_sent_polled:
  assumes "await_sent e tp w out cx = Inr (r, cx')"
  shows "polled e w cx cx'"
proof (cases out)
  case (Deferred f)
  then obtain f' v cx1 where f: "poll_net_future tp f w cx = Inr ((f', v), cx1)"
    and rest: "(case v of Pending \<Rightarrow> Inr ((Deferred f', Pending), cx1)
      | Ready r \<Rightarrow> andThen (drop_future e f' cx1) (\<lambda>cx. Inr ((Deferred f', Ready r), cx))) = Inr (r, cx')"
    using assms by auto
  show ?thesis
    using rest sent_call [OF f] polled_trans [OF sent_call [OF f] polled_call [OF drop_call]]
    by (cases v) auto
qed (use assms in simp)

lemma send_turn_polled:
  assumes "send_turn e n tp w t st cx = Inr (r, cx')"
  shows "polled e w cx cx'"
proof (cases st)
  case AwaitRequest
  then obtain v cx1 where nx: "mpsc_next tp (st_requests t) w cx = Inr (v, cx1)"
    and rest: "(case v of
       Pending \<Rightarrow> Inr ((AwaitRequest, Pending), cx1)
     | Ready None \<Rightarrow> Inl UnwrapNone
     | Ready (Some (req, responder)) \<Rightarrow>
         andThen (new_id (debug_build e) cx1) (\<lambda>(i, cx).
         andThen (tower_send e n (st_port t) (st_remote t) (pack_request tp (Start req i)) cx) (\<lambda>(out, cx).
         Inr ((AwaitSent i responder out, Ready ()), cx)))) = Inr (r, cx')"
    using assms by auto
  show ?thesis
  proof (cases v)
    case (Ready o')
    then obtain req i cx2 out where new: "new_id (debug_build e) cx1 = Inr (i, cx2)"
      and sent: "tower_send e n (st_port t) (st_remote t) (pack_request tp (Start req i)) cx2 = Inr (out, cx')"
      using rest by (cases o') auto
    have "polled e w cx1 cx'"
      by (rule polled_call [OF outside_call_trans [OF new_id_outside_call [OF new] tower_send_call [OF sent]]])
    then show ?thesis by (rule polled_trans [OF next_call [OF nx]])
  qed (use rest next_call [OF nx] in simp)
next
  case (AwaitSent i responder out)
  then obtain out' v cx1 where a: "await_sent e tp w out cx = Inr ((out', v), cx1)"
    and rest: "(case v of
       Pending \<Rightarrow> Inr ((AwaitSent i responder out', Pending), cx1)
     | Ready (Inr _) \<Rightarrow>
         Inr ((AwaitRequest, Ready ()), set_responders tp (st_responders t)
           (AList.update i responder (responders tp (st_responders t) (ext cx1))) cx1)
     | Ready (Inl error) \<Rightarrow>
         andThen (call_send tp responder (Inl (Inr error)) cx1) (\<lambda>cx.
         Inr ((AwaitRequest, Ready ()), cx))) = Inr (r, cx')"
    using assms by auto
  note one = await_sent_polled [OF a]
  show ?thesis
  proof (cases v)
    case (Ready res)
    then have "outside_call e cx1 cx'"
      using rest by (cases res) (auto simp: set_responders_def ext_call dest: answer_call)
    then show ?thesis using polled_trans [OF one polled_call] by blast
  qed (use rest one in simp)
qed

text \<open>A loop of turns is as many calls.\<close>

lemma send_task_poll_polled:
  assumes "send_task_poll e n tp w t st cx = Some (Inr (st', cx'))"
  shows "polled e w cx cx'"
  using send_task_poll_turns [OF assms]
  by (induction rule: rtranclp_induct2) (auto simp: turns_to_def intro: polled_trans send_turn_polled)

text \<open>The receiving task.\<close>

lemma answer_outside: "answer tp c response cx = Inr cx' \<Longrightarrow> outside_call e cx cx'"
  by (auto simp: answer_def Let_def set_responders_def split: tower_response.splits
      dest!: answer_call intro: outside_call_trans [OF ext_call])

lemma fail_all_outside: "fail_all tp c error cx = Inr cx' \<Longrightarrow> outside_call e cx cx'"
proof -
  assume "fail_all tp c error cx = Inr cx'"
  then have f: "foldE (\<lambda>s cx. call_send tp s (Inl (Inr (shared_error tp error))) cx)
      (values_order tp (map snd (responders tp c (ext cx)))) (set_responders tp c [] cx) = Inr cx'"
    by (simp add: fail_all_def Let_def)
  have "outside_call e cx (set_responders tp c [] cx)"
    by (simp add: set_responders_def ext_call)
  then show ?thesis
    by (rule foldE_inv [OF f]) (rule outside_call_trans, assumption, rule answer_call)
qed

lemma receive_polled: "socket_receive_poll n ty c w cx = Inr (r, cx') \<Longrightarrow> polled e w cx cx'"
  by (rule polled_call [OF socket_receive_poll_call])

lemma recv_turn_polled:
  assumes "recv_turn e n tp w t cx = Inr (r, cx')"
  shows "polled e w cx cx'"
proof -
  obtain v cx1 where v: "socket_receive_poll n (response_type tp) (inbox (rt_socket t)) w cx = Inr (v, cx1)"
    and rest: "(case v of
       Pending \<Rightarrow> Inr (Pending, cx1)
     | Ready (Inr (p, addr)) \<Rightarrow>
         if debug_build e \<and> addr \<noteq> rt_remote t then Inl AssertFailed
         else andThen (answer tp (rt_responders t) (unpack_response tp p) cx1) (\<lambda>cx. Inr (Ready (), cx))
     | Ready (Inl error) \<Rightarrow>
         andThen (fail_all tp (rt_responders t) error cx1) (\<lambda>cx. Inr (Ready (), cx))) = Inr (r, cx')"
    using assms by (auto simp: recv_turn_def)
  have "outside_call e cx1 cx'"
  proof (cases v)
    case (Ready m)
    then show ?thesis
      using rest by (cases m) (auto split: if_splits dest: answer_outside fail_all_outside)
  qed (use rest in simp)
  then show ?thesis using polled_trans [OF receive_polled [OF v] polled_call] by blast
qed

lemma recv_task_poll_polled:
  assumes "recv_task_poll e n tp w t cx = Some (Inr cx')"
  shows "polled e w cx cx'"
  using recv_task_poll_turns [OF assms]
  by (induction rule: rtranclp_induct) (auto intro: polled_trans recv_turn_polled)

text \<open>The future of a call.\<close>

lemma call_done_outside: "call_done tp s result cx = Inr (r, cx') \<Longrightarrow> outside_call e cx cx'"
  by (auto simp: call_done_def dest: sender_drop_call)

lemma await_answer_polled:
  assumes "await_answer tp w s r cx = Inr (res, cx')"
  shows "polled e w cx cx'"
proof -
  obtain v cx1 where v: "call_poll tp r w cx = Inr (v, cx1)"
    and rest: "(case v of
       Pending \<Rightarrow> Inr ((CallWaiting s r, Pending), cx1)
     | Ready (Some result) \<Rightarrow> call_done tp s result cx1
     | Ready None \<Rightarrow> call_done tp s (Inl (Inr (connection_reset tp))) cx1) = Inr (res, cx')"
    using assms by (auto simp: await_answer_def)
  have "outside_call e cx1 cx'"
  proof (cases v)
    case (Ready m)
    then show ?thesis using rest by (cases m) (auto dest: call_done_outside)
  qed (use rest in simp)
  then show ?thesis using polled_trans [OF answer_poll_call [OF v] polled_call] by blast
qed

lemma await_queued_polled:
  assumes "await_queued e tp w f s r cx = Inr (res, cx')"
  shows "polled e w cx cx'"
proof -
  obtain f' v cx1 where v: "mpsc_poll_send tp f w cx = Inr ((f', v), cx1)"
    and rest: "(case v of
       Pending \<Rightarrow> Inr ((CallSending f' s r, Pending), cx1)
     | Ready ok \<Rightarrow>
         andThen (drop_future e f' cx1) (\<lambda>cx.
         if ok then await_answer tp w s r cx
         else call_done tp s (Inl (Inr (connection_reset tp))) cx)) = Inr (res, cx')"
    using assms by (auto simp: await_queued_def)
  have "polled e w cx1 cx'"
  proof (cases v)
    case (Ready ok)
    then obtain cx2 where d: "drop_future e f' cx1 = Inr cx2"
      and "(if ok then await_answer tp w s r cx2
        else call_done tp s (Inl (Inr (connection_reset tp))) cx2) = Inr (res, cx')"
      using rest by auto
    then have "polled e w cx2 cx'"
      by (auto split: if_splits intro: await_answer_polled polled_call [OF call_done_outside])
    then show ?thesis by (rule polled_trans [OF polled_call [OF drop_call [OF d]]])
  qed (use rest in simp)
  then show ?thesis by (rule polled_trans [OF poll_send_call [OF v]])
qed

lemma call_future_polled:
  assumes "call_future_poll e tp w c cx = Inr (res, cx')"
  shows "polled e w cx cx'"
proof (cases c)
  case (CallStart s req)
  then show ?thesis
    using assms polled_trans [OF polled_call [OF ext_call] await_queued_polled]
    by (auto split: prod.splits)
qed (use assms in \<open>auto intro: await_queued_polled await_answer_polled\<close>)

text \<open>The server, and the tasks that serve requests.\<close>

lemma await_response_polled:
  assumes "await_response e tp w out cx = Inr (r, cx')"
  shows "polled e w cx cx'"
proof -
  obtain out' v cx1 where a: "await_sent e tp w out cx = Inr ((out', v), cx1)"
    using assms by (auto simp: await_response_def)
  with assms have "cx' = cx1" by (cases v) (auto simp: await_response_def)
  then show ?thesis using await_sent_polled [OF a] by simp
qed

lemma serve_polled:
  assumes "serve_poll e n tp sv w t cx = Inr (r, cx')"
  shows "polled e w cx cx'"
proof (cases t)
  case (Serving fut i local address)
  then obtain fut' v cx1 where v: "service_poll sv fut w cx = Inr ((fut', v), cx1)"
    and rest: "(case v of
       Pending \<Rightarrow> Inr ((Serving fut' i local address, Pending), cx1)
     | Ready result \<Rightarrow>
         andThen (drop_future e fut' cx1) (\<lambda>cx.
         andThen (tower_send e n local address (pack_response tp (Complete result i)) cx) (\<lambda>(out, cx).
         await_response e tp w out cx))) = Inr (r, cx')"
    using assms by auto
  have "polled e w cx1 cx'"
  proof (cases v)
    case (Ready result)
    then obtain cx2 out cx3 where d: "drop_future e fut' cx1 = Inr cx2"
      and sent: "tower_send e n local address (pack_response tp (Complete result i)) cx2 = Inr (out, cx3)"
      and resp: "await_response e tp w out cx3 = Inr (r, cx')"
      using rest by auto
    show ?thesis
      by (rule polled_trans [OF polled_call [OF outside_call_trans [OF drop_call [OF d] tower_send_call [OF sent]]]
          await_response_polled [OF resp]])
  qed (use rest in simp)
  then show ?thesis by (rule polled_trans [OF service_poll_call [OF v]])
qed (use assms in \<open>auto intro: await_response_polled\<close>)

lemma server_receive_polled:
  assumes "server_turn e n tp sv serve_fut w s (k, ServerReceive) cx = Inr (r, cx')"
  shows "polled e w cx cx'"
proof -
  obtain v cx1 where v: "socket_receive_poll n (request_type tp) (inbox s) w cx = Inr (v, cx1)"
    using assms by auto
  have "outside_call e cx1 cx'"
  proof (cases v)
    case (Ready m)
    then show ?thesis
      using assms v by (cases m) (auto split: tower_request.splits dest: socket_drop_call)
  qed (use assms v in auto)
  then show ?thesis using polled_trans [OF receive_polled [OF v] polled_call] by blast
qed

lemma server_ready_polled:
  assumes "server_turn e n tp sv serve_fut w s (k, ServerReady req i a) cx = Inr (r, cx')"
  shows "polled e w cx cx'"
proof -
  obtain k1 v cx1 where v: "service_poll_ready sv k w cx = Inr ((k1, v), cx1)"
    using assms by auto
  have "outside_call e cx1 cx'"
  proof (cases v)
    case (Ready m)
    show ?thesis
    proof (cases m)
      case (Inl error)
      then show ?thesis using assms v Ready by (auto dest: socket_drop_call)
    next
      case (Inr u)
      then obtain k2 fut cx2 h where c: "service_call sv k1 req cx1 = Inr ((k2, fut), cx2)"
        and sp: "spawn e (serve_fut (Serving fut i (local_port s) a)) cx2 = Inr (h, cx')"
        using assms v Ready by auto
      show ?thesis by (rule outside_call_trans [OF service_call_call [OF c] spawn_call [OF sp]])
    qed
  qed (use assms v in auto)
  then show ?thesis using polled_trans [OF service_ready_call [OF v] polled_call] by blast
qed

lemma server_poll_polled:
  assumes "server_poll e n tp sv serve_fut w s st cx = Some (Inr ((st', r), cx'))"
  shows "polled e w cx cx'"
proof -
  have turn: "polled e w cx cx'" if "server_turn e n tp sv serve_fut w s st cx = Inr (r, cx')" for st cx r cx'
  proof (cases st)
    case (Pair k t)
    then show ?thesis
      using that server_receive_polled server_ready_polled by (cases t) (simp_all del: server_turn.simps)
  qed
  show ?thesis
    using server_poll_turns [OF assms]
    by (induction rule: rtranclp_induct2) (auto simp: turns_to_def intro: polled_trans turn)
qed

lemma server_open_outside: "server_open n tp port cx = Inr (r, cx') \<Longrightarrow> outside_call e cx cx'"
  by (auto simp: server_open_def dest: socket_open_call)

text \<open>Making a client, calling it and dropping it.\<close>

lemma client_new_outside:
  assumes "client_new e n tp send_fut recv_fut remote cx = Inr (c, cx')"
  shows "outside_call e cx cx'"
proof -
  obtain r x where ch: "mpsc_channel tp (ext cx) = (r, x)" by (cases "mpsc_channel tp (ext cx)")
  obtain port cx1 opened cx2 where new: "new_id (debug_build e) (cx\<lparr>ext := x\<rparr>) = Inr (port, cx1)"
    and op: "socket_open n (response_type tp) port cx1 = Inr (opened, cx2)"
    using assms ch by (auto simp: client_new_def)
  obtain s where s: "opened = Inr s" using assms ch new op by (cases opened) (auto simp: client_new_def)
  obtain k x' where k: "new_responders tp (ext cx2) = (k, x')" by (cases "new_responders tp (ext cx2)")
  obtain f h1 cx3 f' h2 where sp: "spawn e f (cx2\<lparr>ext := x'\<rparr>) = Inr (h1, cx3)" "spawn e f' cx3 = Inr (h2, cx')"
    using assms ch new op s k by (auto simp: client_new_def)
  note this = outside_call_trans [OF ext_call new_id_outside_call [OF new]]
  note this = outside_call_trans [OF this socket_open_call [OF op]]
  note this = outside_call_trans [OF outside_call_trans [OF this ext_call] spawn_call [OF sp(1)]]
  from outside_call_trans [OF this spawn_call [OF sp(2)]] show ?thesis .
qed

lemma client_drop_outside: "client_drop e tp c cx = Inr cx' \<Longrightarrow> outside_call e cx cx'"
  by (cases "send_guard c"; cases "recv_guard c")
    (auto simp: client_drop_def intro!: outside_call_trans [OF sender_drop_call
      outside_call_trans [OF abort_inner_call abort_inner_call]])

lemma client_call_outside: "client_call tp c req cx = (st, cx') \<Longrightarrow> outside_call e cx cx'"
  by (auto simp: client_call_def ext_call split: prod.splits)

lemma client_ready_polled:
  assumes "client_poll_ready tp c w cx = Inr (r, cx')"
  shows "polled e w cx cx'"
proof -
  obtain v cx1 where v: "mpsc_poll_ready tp (request_sender c) w cx = Inr (v, cx1)"
    using assms by (auto simp: client_poll_ready_def)
  with assms have "cx' = cx1" by (cases v) (auto simp: client_poll_ready_def split: if_splits)
  then show ?thesis using client_ready_call [OF v] by simp
qed

end

section \<open>The tasks and the invariants\<close>

text \<open>
  Whatever a client and a server do, the runtime stays sound: polls of a client's two tasks, of the
  future of a call, of a server and of the tasks that serve its requests, and the making and the
  dropping of a client, keep the invariants of the executor and of the scheduler and return in the node
  that they were called in, over any channels and any service that do so, for any number of turns that
  a poll takes.
\<close>

lemma tower_keeps_the_invariants:
  assumes tc: "tower_code e n buffer contents tp sv" and inv: "sim_inv contents run cx"
    and w: "arcs cx w \<noteq> None"
    and step: "(\<exists>t st st'. send_task_poll e n tp w t st cx = Some (Inr (st', cx'))) \<or>
      (\<exists>t. recv_task_poll e n tp w t cx = Some (Inr cx')) \<or>
      (\<exists>c r. call_future_poll e tp w c cx = Inr (r, cx')) \<or>
      (\<exists>t r. serve_poll e n tp sv w t cx = Inr (r, cx')) \<or>
      (\<exists>f s st r. server_poll e n tp sv f w s st cx = Some (Inr (r, cx'))) \<or>
      (\<exists>port r. server_open n tp port cx = Inr (r, cx')) \<or>
      (\<exists>sf rf a c. client_new e n tp sf rf a cx = Inr (c, cx')) \<or>
      (\<exists>c. client_drop e tp c cx = Inr cx')"
  shows "sim_inv contents run cx' \<and> current_node cx' = current_node cx"
proof -
  have oc: "outside_code e contents" using tower_code.axioms(2) [OF tc] .
  have "polled e w cx cx'"
    using step tower_code.send_task_poll_polled [OF tc] tower_code.recv_task_poll_polled [OF tc]
      tower_code.call_future_polled [OF tc] tower_code.serve_polled [OF tc] tower_code.server_poll_polled [OF tc]
      polled_call [OF tower_code.server_open_outside [OF tc]] polled_call [OF tower_code.client_new_outside [OF tc]]
      polled_call [OF tower_code.client_drop_outside [OF tc]]
    by (elim disjE exE) fastforce+
  then have "outside_call e cx cx'" using w by (simp add: polled_def)
  then show ?thesis
    using outside_code.outside_call_inv(1) [OF oc _ inv] by (simp add: outside_call_def)
qed

end
