(* ===== verification/TowerTest.thy ===== *)
theory TowerTest
  imports TowerTasks Scripts
begin

text \<open>
  \<open>tests/tower.rs\<close>: a client that calls a server over a network, as one simulation. The futures are the
  tasks of \<open>Tower\<close>, the deliveries of \<open>Network\<close> and those of the test; the channels between them are
  lists in the state of outside code. They keep to the contract of outside code, and the simulation is
  run by evaluation.
\<close>

section \<open>Futures and channels\<close>

text \<open>A request is the result that the service is to return, of type \<open>Result<i32, i32>\<close>.\<close>

type_synonym answer = "nat + nat"

datatype tw_packet = Request "answer tower_request" | Response "(nat, nat) tower_response"

text \<open>
  The root task, the server, the service's future, the tasks of a server and of a client, the sending of
  a call into a client's queue, the client's task (with the calls that are not done), deliveries, and
  the root future.
\<close>

datatype tw_future =
    TestStart "answer list"
  | TestSleeping "answer list" nat node_id id
  | TestJoining task_handle
  | ServerStart id
  | ServerRunning socket "unit \<times> answer server_state"
  | Computing "nat option" answer
  | Serve "(nat, tw_future) serve_state"
  | Sender send_task "(nat, tw_future) send_state"
  | Receiver recv_task
  | Queueing nat "answer \<times> nat"
  | ClientStart addr "answer list"
  | ClientRunning client instant "(answer \<times> (answer, tw_future) call_state) list"
  | Delivering "(tw_packet, nat) delivery"
  | TestRoot "tw_future root"
  | Finished

text \<open>
  A client's queue, with the task that waits for a request, and a one-shot channel for each call: open,
  with the task that waits, answered, or closed.
\<close>

record tw_queue =
  q_buf :: "(answer \<times> nat) list"
  q_waiter :: "id option"

datatype call_channel = CallOpen "id option" | CallAnswered "(nat, nat, nat) tower_result" | CallClosed

record tw_heap = "(tw_packet, nat) heap" +
  queues :: "tw_queue list"
  call_channels :: "call_channel list"
  responder_maps :: "(id \<times> nat) list list"

type_synonym tw_sim = "(nat, (nat \<times> instant) list, tw_future, unit net, tw_heap) sim"
type_synonym tw_env_type = "(nat, (nat \<times> instant) list, tw_future, unit net, tw_heap, unit) env"
type_synonym tw_net_ops = "(nat, (nat \<times> instant) list, tw_future, unit net, tw_heap, tw_packet, nat, unit) net_ops"
type_synonym tw_tower_ops =
  "(nat, (nat \<times> instant) list, tw_future, unit net, tw_heap, tw_packet, nat, answer, nat, nat) tower_ops"
type_synonym tw_service_ops =
  "(nat, (nat \<times> instant) list, tw_future, unit net, tw_heap, answer, nat, nat, unit) service_ops"

definition tw_type :: "tw_packet \<Rightarrow> type_id" where
  "tw_type p = (case p of Request _ \<Rightarrow> ''TowerRequest'' | Response _ \<Rightarrow> ''TowerResponse'')"

definition tw_net :: tw_net_ops where
  "tw_net =
     \<lparr>packets = \<lparr>packet_concrete = tw_type, packet_type_id = tw_type,
        packet_level = (\<lambda>_. default_level), clone_packet = default_clone\<rparr>,
      rc_unique = (\<lambda>_ _. True),
      call_send_function = (\<lambda>g _ cx. Inr ((g, Immediate (Inr ())), cx)),
      box_net = (\<lambda>net. net), downcast_net = Some, delivery_future = Delivering,
      chan_new = inbox_new, chan_try_send = inbox_try_send,
      chan_try_receive = inbox_try_receive, chan_poll = inbox_poll, map_order = (\<lambda>ks. ks)\<rparr>"

section \<open>The channels of a client\<close>

definition set_queue :: "nat \<Rightarrow> tw_queue \<Rightarrow> tw_sim \<Rightarrow> tw_sim" where
  "set_queue c q cx = cx\<lparr>ext := (ext cx)\<lparr>queues := (queues (ext cx))[c := q]\<rparr>\<rparr>"

definition set_call :: "nat \<Rightarrow> call_channel \<Rightarrow> tw_sim \<Rightarrow> tw_sim" where
  "set_call c s cx = cx\<lparr>ext := (ext cx)\<lparr>call_channels := (call_channels (ext cx))[c := s]\<rparr>\<rparr>"

definition wake_option :: "id option \<Rightarrow> tw_sim \<Rightarrow> panic + tw_sim" where
  "wake_option w cx = (case w of None \<Rightarrow> Inr cx | Some w \<Rightarrow> wake_by_ref w cx)"

text \<open>The queue has room for every sender, and its receiver is woken.\<close>

definition queue_send :: "tw_future \<Rightarrow> id \<Rightarrow> tw_sim \<Rightarrow> panic + (tw_future \<times> bool poll) \<times> tw_sim" where
  "queue_send f w cx =
     (case f of
        Queueing c m \<Rightarrow>
          if length (queues (ext cx)) \<le> c then Inl IndexOutOfBounds
          else
            let q = queues (ext cx) ! c in
            andThen (wake_option (q_waiter q) (set_queue c \<lparr>q_buf = q_buf q @ [m], q_waiter = None\<rparr> cx))
              (\<lambda>cx. Inr ((Finished, Ready True), cx))
      | _ \<Rightarrow> Inl Unreachable)"

definition queue_next :: "nat \<Rightarrow> id \<Rightarrow> tw_sim \<Rightarrow> panic + (answer \<times> nat) option poll \<times> tw_sim" where
  "queue_next c w cx =
     (if length (queues (ext cx)) \<le> c then Inl IndexOutOfBounds
      else
        let q = queues (ext cx) ! c in
        (case q_buf q of
           [] \<Rightarrow> Inr (Pending, set_queue c (q\<lparr>q_waiter := Some w\<rparr>) cx)
         | m # b \<Rightarrow> Inr (Ready (Some m), set_queue c (q\<lparr>q_buf := b\<rparr>) cx)))"

definition call_answer :: "nat \<Rightarrow> (nat, nat, nat) tower_result \<Rightarrow> tw_sim \<Rightarrow> panic + tw_sim" where
  "call_answer c r cx =
     (if length (call_channels (ext cx)) \<le> c then Inl IndexOutOfBounds
      else case call_channels (ext cx) ! c of
        CallOpen w \<Rightarrow> wake_option w (set_call c (CallAnswered r) cx)
      | _ \<Rightarrow> Inr cx)"

definition call_await ::
  "nat \<Rightarrow> id \<Rightarrow> tw_sim \<Rightarrow> panic + (nat, nat, nat) tower_result option poll \<times> tw_sim" where
  "call_await c w cx =
     (if length (call_channels (ext cx)) \<le> c then Inl IndexOutOfBounds
      else case call_channels (ext cx) ! c of
        CallOpen _ \<Rightarrow> Inr (Pending, set_call c (CallOpen (Some w)) cx)
      | CallAnswered r \<Rightarrow> Inr (Ready (Some r), set_call c CallClosed cx)
      | CallClosed \<Rightarrow> Inr (Ready None, cx))"

definition tw_tower :: tw_tower_ops where
  "tw_tower =
     \<lparr>request_type = ''TowerRequest'', response_type = ''TowerResponse'',
      pack_request = Request, unpack_request = (\<lambda>p. case p of Request r \<Rightarrow> r | Response _ \<Rightarrow> Start (Inl 0) (Id 0)),
      pack_response = Response,
      unpack_response = (\<lambda>p. case p of Response r \<Rightarrow> r | Request _ \<Rightarrow> Complete (Inl 0) (Id 0)),
      mpsc_channel = (\<lambda>x. (length (queues x), x\<lparr>queues := queues x @ [\<lparr>q_buf = [], q_waiter = None\<rparr>]\<rparr>)),
      mpsc_clone = (\<lambda>s x. (s, x)), mpsc_poll_ready = (\<lambda>_ _ cx. Inr (Ready True, cx)),
      mpsc_send = Queueing, mpsc_poll_send = queue_send, mpsc_next = queue_next,
      mpsc_drop_sender = (\<lambda>_ cx. Inr cx),
      call_channel = (\<lambda>x. (length (call_channels x), x\<lparr>call_channels := call_channels x @ [CallOpen None]\<rparr>)),
      call_send = call_answer, call_poll = call_await,
      poll_net_future = (\<lambda>_ _ _. Inl Unreachable),
      connection_reset = 1, addr_in_use = (\<lambda>_. 2), shared_error = (\<lambda>er. er),
      new_responders = (\<lambda>x. (length (responder_maps x), x\<lparr>responder_maps := responder_maps x @ [[]]\<rparr>)),
      responders = (\<lambda>c x. responder_maps x ! c),
      put_responders = (\<lambda>c rs x. x\<lparr>responder_maps := (responder_maps x)[c := rs]\<rparr>),
      values_order = (\<lambda>ss. ss)\<rparr>"

section \<open>The service\<close>

definition COMPUTE_LATENCY :: duration where
  "COMPUTE_LATENCY = 50000000"

definition NET_LATENCY :: duration where
  "NET_LATENCY = 20000000"

text \<open>The future of a call of the service, which returns the request after a sleep.\<close>

definition await_computed :: "nat \<Rightarrow> answer \<Rightarrow> id \<Rightarrow> tw_sim \<Rightarrow> panic + (tw_future \<times> answer poll) \<times> tw_sim" where
  "await_computed k x w cx =
     andThen (sleep_poll list_pq k w cx) (\<lambda>(r, cx).
     case r of
       Pending \<Rightarrow> Inr ((Computing (Some k) x, Pending), cx)
     | Ready _ \<Rightarrow> andThen (sleep_drop list_pq k cx) (\<lambda>cx. Inr ((Finished, Ready x), cx)))"

definition compute_poll :: "tw_future \<Rightarrow> id \<Rightarrow> tw_sim \<Rightarrow> panic + (tw_future \<times> answer poll) \<times> tw_sim" where
  "compute_poll f w cx =
     (case f of
        Computing None x \<Rightarrow> andThen (sleep 0 COMPUTE_LATENCY cx) (\<lambda>(k, cx). await_computed k x w cx)
      | Computing (Some k) x \<Rightarrow> await_computed k x w cx
      | _ \<Rightarrow> Inl Unreachable)"

definition tw_service :: tw_service_ops where
  "tw_service =
     \<lparr>service_poll_ready = (\<lambda>k _ cx. Inr ((k, Ready (Inr ())), cx)),
      service_call = (\<lambda>k x cx. Inr ((k, Computing None x), cx)),
      service_poll = compute_poll\<rparr>"

section \<open>The environment\<close>

text \<open>
  Dropping a client aborts its tasks and drops their futures, so there is the environment in which those
  are dropped, and the one in which clients are.
\<close>

definition tw_env :: "(tw_future \<Rightarrow> tw_sim \<Rightarrow> panic + tw_sim) \<Rightarrow> tw_env_type" where
  "tw_env d =
     \<lparr>debug_build = True, env_hasher = count_hasher, env_pq = list_pq, set_order = (\<lambda>xs. xs),
      oneshot_channel = new_channel,
      oneshot_send = (\<lambda>c _. close_channel Sent c),
      oneshot_drop_sender = close_channel Closed,
      oneshot_poll = poll_channel,
      poll_future = (\<lambda>_ _ _. Inl (UserPanic 0)),
      drop_future = d,
      on_create_node = net_create_node tw_net,
      on_stop_node = (\<lambda>net cx. Inr (net, cx)),
      on_start_node = net_start_node tw_net,
      drop_simulator = (\<lambda>_ cx. Inr cx)\<rparr>"

fun drop_task_future :: "tw_future \<Rightarrow> tw_sim \<Rightarrow> panic + tw_sim" where
  "drop_task_future (TestSleeping inputs k server port) cx = sleep_drop list_pq k cx"
| "drop_task_future (ServerRunning s st) cx =
     andThen (socket_drop (tw_env (\<lambda>_. Inr)) tw_net s cx) (\<lambda>(_, cx). Inr cx)"
| "drop_task_future (Computing (Some k) x) cx = sleep_drop list_pq k cx"
| "drop_task_future (Serve (Serving f i port a)) cx = drop_task_future f cx"
| "drop_task_future (Receiver t) cx =
     andThen (socket_drop (tw_env (\<lambda>_. Inr)) tw_net (rt_socket t) cx) (\<lambda>(_, cx). Inr cx)"
| "drop_task_future (Delivering d) cx = delivery_drop list_pq d cx"
| "drop_task_future f cx = Inr cx"

definition tw_root :: "(tw_future, tw_heap, unit) root_ops" where
  "tw_root =
     \<lparr>root_future = TestRoot, get_ret = main_output, put_ret = (\<lambda>c x. x\<lparr>main_output := c\<rparr>)\<rparr>"

fun drop_tw_future :: "tw_future \<Rightarrow> tw_sim \<Rightarrow> panic + tw_sim" where
  "drop_tw_future (ClientRunning c t1 calls) cx = client_drop (tw_env drop_task_future) tw_tower c cx"
| "drop_tw_future (TestRoot (RootAwaiting f)) cx =
     andThen (drop_tw_future f cx) (\<lambda>cx. Inr (release_output tw_root cx))"
| "drop_tw_future f cx = drop_task_future f cx"

abbreviation tw_base :: tw_env_type where
  "tw_base \<equiv> tw_env drop_tw_future"

section \<open>The test\<close>

text \<open>\<open>spawn_server\<close>, and the task that it spawns, which runs \<open>run_server\<close>.\<close>

definition spawn_server :: "node_id \<Rightarrow> id \<Rightarrow> tw_sim \<Rightarrow> panic + unit \<times> tw_sim" where
  "spawn_server node port cx = node_spawn tw_base node (ServerStart port) cx"

definition server_running :: "socket \<Rightarrow> unit \<times> answer server_state \<Rightarrow> id \<Rightarrow> tw_sim \<Rightarrow>
    panic + (tw_future \<times> unit poll) \<times> tw_sim" where
  "server_running s st w cx =
     (case server_poll tw_base tw_net tw_tower tw_service Serve w s st cx of
        None \<Rightarrow> Inl OutOfFuel
      | Some r \<Rightarrow> andThen r (\<lambda>((st, r), cx).
          case r of
            Pending \<Rightarrow> Inr ((ServerRunning s st, Pending), cx)
          | Ready _ \<Rightarrow> Inr ((Finished, Ready ()), cx)))"

definition server_start :: "id \<Rightarrow> id \<Rightarrow> tw_sim \<Rightarrow> panic + (tw_future \<times> unit poll) \<times> tw_sim" where
  "server_start port w cx =
     andThen (server_open tw_net tw_tower port cx) (\<lambda>(r, cx).
     case r of
       Inl _ \<Rightarrow> Inr ((Finished, Ready ()), cx)
     | Inr s \<Rightarrow> server_running s ((), ServerReceive) w cx)"

text \<open>
  \<open>run_client\<close>: each call is checked against its input and the time that it took when it is ready, and
  the task is ready when all calls are; then it drops the client.
\<close>

fun unwrap_left :: "(nat, nat, nat) tower_result \<Rightarrow> panic + answer" where
  "unwrap_left (Inl (Inl y)) = Inr (Inl y)"
| "unwrap_left (Inl (Inr er)) = Inl UnwrapNone"
| "unwrap_left (Inr b) = Inr (Inr b)"

definition check_call :: "instant \<Rightarrow> answer \<Rightarrow> (nat, nat, nat) tower_result \<Rightarrow> tw_sim \<Rightarrow> panic + unit" where
  "check_call t1 x result cx =
     andThen (unwrap_left result) (\<lambda>answer.
     if answer = x \<and> duration_since (instant_now 0 cx) t1 = COMPUTE_LATENCY + 2 * NET_LATENCY
     then Inr () else Inl AssertFailed)"

fun poll_calls ::
  "instant \<Rightarrow> id \<Rightarrow> (answer \<times> (answer, tw_future) call_state) list \<Rightarrow> tw_sim \<Rightarrow>
    panic + (answer \<times> (answer, tw_future) call_state) list \<times> tw_sim" where
  "poll_calls t1 w [] cx = Inr ([], cx)"
| "poll_calls t1 w ((x, c) # calls) cx =
     andThen (call_future_poll tw_base tw_tower w c cx) (\<lambda>((c, r), cx).
     case r of
       Pending \<Rightarrow> andThen (poll_calls t1 w calls cx) (\<lambda>(calls, cx). Inr ((x, c) # calls, cx))
     | Ready result \<Rightarrow> andThen (check_call t1 x result cx) (\<lambda>_. poll_calls t1 w calls cx))"

definition client_running ::
  "client \<Rightarrow> instant \<Rightarrow> (answer \<times> (answer, tw_future) call_state) list \<Rightarrow> id \<Rightarrow> tw_sim \<Rightarrow>
    panic + (tw_future \<times> unit poll) \<times> tw_sim" where
  "client_running c t1 calls w cx =
     andThen (poll_calls t1 w calls cx) (\<lambda>(calls, cx).
     case calls of
       [] \<Rightarrow> andThen (client_drop tw_base tw_tower c cx) (\<lambda>cx. Inr ((Finished, Ready ()), cx))
     | _ \<Rightarrow> Inr ((ClientRunning c t1 calls, Pending), cx))"

primrec start_calls :: "client \<Rightarrow> answer list \<Rightarrow> tw_sim \<Rightarrow>
    (answer \<times> (answer, tw_future) call_state) list \<times> tw_sim" where
  "start_calls c [] cx = ([], cx)"
| "start_calls c (x # xs) cx =
     (let (fut, cx) = client_call tw_tower c x cx; (calls, cx) = start_calls c xs cx in ((x, fut) # calls, cx))"

definition run_client :: "addr \<Rightarrow> answer list \<Rightarrow> id \<Rightarrow> tw_sim \<Rightarrow> panic + (tw_future \<times> unit poll) \<times> tw_sim" where
  "run_client address inputs w cx =
     andThen (client_new tw_base tw_net tw_tower (\<lambda>t. Sender t AwaitRequest) Receiver address cx) (\<lambda>(c, cx).
     let t1 = instant_now 0 cx; (calls, cx) = start_calls c inputs cx in client_running c t1 calls w cx)"

text \<open>The root task, which is the future that the closure \<open>tower\<close> gives to the builder.\<close>

definition test_joining :: "task_handle \<Rightarrow> id \<Rightarrow> tw_sim \<Rightarrow> panic + (tw_future \<times> unit poll) \<times> tw_sim" where
  "test_joining h w cx =
     andThen (task_handle_poll tw_base h w cx) (\<lambda>(r, cx).
     case r of
       Pending \<Rightarrow> Inr ((TestJoining h, Pending), cx)
     | Ready (Inl _) \<Rightarrow> Inl UnwrapNone
     | Ready (Inr _) \<Rightarrow> Inr ((Finished, Ready ()), cx))"

definition test_sleeping ::
  "answer list \<Rightarrow> nat \<Rightarrow> node_id \<Rightarrow> id \<Rightarrow> id \<Rightarrow> tw_sim \<Rightarrow> panic + (tw_future \<times> unit poll) \<times> tw_sim" where
  "test_sleeping inputs k server port w cx =
     andThen (sleep_poll list_pq k w cx) (\<lambda>(r, cx).
     case r of
       Pending \<Rightarrow> Inr ((TestSleeping inputs k server port, Pending), cx)
     | Ready _ \<Rightarrow>
         andThen (sleep_drop list_pq k cx) (\<lambda>cx.
         andThen (create_node tw_base cx) (\<lambda>(node, cx).
         andThen (spawn_task_on_node tw_base node (ClientStart (Addr server port) inputs) cx)
           (\<lambda>(h, cx). test_joining h w cx))))"

definition tower :: "answer list \<Rightarrow> id \<Rightarrow> tw_sim \<Rightarrow> panic + (tw_future \<times> unit poll) \<times> tw_sim" where
  "tower inputs w cx =
     andThen (add_simulator NET (new_net (PerfectConnectivity NET_LATENCY)) cx) (\<lambda>(_, cx).
     andThen (create_node tw_base cx) (\<lambda>(server, cx).
     andThen (new_id (debug_build tw_base) cx) (\<lambda>(port, cx).
     andThen (spawn_server server port cx) (\<lambda>(_, cx).
     andThen (sleep 0 1000000 cx) (\<lambda>(k, cx). test_sleeping inputs k server port w cx)))))"

section \<open>Polling\<close>

declare send_task_poll.simps [code] recv_task_poll.simps [code] server_poll.simps [code]

definition sender_poll ::
  "send_task \<Rightarrow> (nat, tw_future) send_state \<Rightarrow> id \<Rightarrow> tw_sim \<Rightarrow> panic + (tw_future \<times> unit poll) \<times> tw_sim" where
  "sender_poll t st w cx =
     (case send_task_poll tw_base tw_net tw_tower w t st cx of
        None \<Rightarrow> Inl OutOfFuel
      | Some r \<Rightarrow> andThen r (\<lambda>(st, cx). Inr ((Sender t st, Pending), cx)))"

definition receiver_poll :: "recv_task \<Rightarrow> id \<Rightarrow> tw_sim \<Rightarrow> panic + (tw_future \<times> unit poll) \<times> tw_sim" where
  "receiver_poll t w cx =
     (case recv_task_poll tw_base tw_net tw_tower w t cx of
        None \<Rightarrow> Inl OutOfFuel
      | Some r \<Rightarrow> andThen r (\<lambda>cx. Inr ((Receiver t, Pending), cx)))"

fun poll_tw_future :: "id \<Rightarrow> tw_future \<Rightarrow> tw_sim \<Rightarrow> panic + (tw_future \<times> unit poll) \<times> tw_sim" where
  "poll_tw_future w (TestStart inputs) cx = tower inputs w cx"
| "poll_tw_future w (TestSleeping inputs k server port) cx = test_sleeping inputs k server port w cx"
| "poll_tw_future w (TestJoining h) cx = test_joining h w cx"
| "poll_tw_future w (ServerStart port) cx = server_start port w cx"
| "poll_tw_future w (ServerRunning s st) cx = server_running s st w cx"
| "poll_tw_future w (Serve t) cx =
     andThen (serve_poll tw_base tw_net tw_tower tw_service w t cx) (\<lambda>((t, r), cx). Inr ((Serve t, r), cx))"
| "poll_tw_future w (Sender t st) cx = sender_poll t st w cx"
| "poll_tw_future w (Receiver t) cx = receiver_poll t w cx"
| "poll_tw_future w (ClientStart address inputs) cx = run_client address inputs w cx"
| "poll_tw_future w (ClientRunning c t1 calls) cx = client_running c t1 calls w cx"
| "poll_tw_future w (Delivering d) cx =
     (if instant_range d then
        andThen (delivery_poll tw_base tw_net w d cx) (\<lambda>((d, r), cx). Inr ((Delivering d, r), cx))
      else Inl Overflow)"
| "poll_tw_future w (TestRoot (RootAwaiting f)) cx =
     andThen (poll_tw_future w f cx) (\<lambda>(polled, cx).
     andThen (root_poll (tw_base\<lparr>poll_future := \<lambda>_ _ cx. Inr (polled, cx)\<rparr>) tw_root w (RootAwaiting f) cx)
       (\<lambda>((r, p), cx). Inr ((TestRoot r, p), cx)))"
| "poll_tw_future w _ cx = Inl Unreachable"

definition tw_full :: tw_env_type where
  "tw_full = tw_base\<lparr>poll_future := poll_tw_future\<rparr>"

text \<open>The builder's run of the test, each run on a thread and with channels of its own.\<close>

definition tw_thread :: "tw_heap \<Rightarrow> tw_sim" where
  "tw_thread x =
     \<lparr>once_set = False, current_node = INIT, pre_next_global_id = 0, sim_time = 0,
      cell = CellNone, event_handler = NoopEventHandler,
      sleep_cells = Map.empty, next_cell = 0, upcoming_events = [], now = 0,
      arcs = Map.empty, queue = None,
      tasks = Map.empty, final_stopped = False, nodes = [],
      simulators_by_type = Map.empty, simulators = [], ext = x\<rparr>"

definition tw_heap0 :: "unit ret_cell \<Rightarrow> tw_heap" where
  "tw_heap0 out =
     \<lparr>channels = [], handles = [], log = [], inbox_chans = [], sockets = [], main_output = out,
      rc_count = 0, static_counter = 0, queues = [], call_channels = [], responder_maps = []\<rparr>"

definition tower_test :: "answer list \<Rightarrow> sim_builder \<Rightarrow> (panic + duration) option" where
  "tower_test inputs b =
     andThenO
       (builder_run_all tw_full tw_root
         (\<lambda>cx. Inr (TestStart inputs, cx\<lparr>ext := tw_heap0 (main_output (ext cx))\<rparr>)) tw_thread (\<lambda>_. 0)
         b (tw_heap0 \<lparr>ret_value = None, ret_count = 2\<rparr>))
       (\<lambda>(out, x). Some (andThen (unwrap_output out) (\<lambda>_. Inr (time_elapsed out))))"

section \<open>The futures keep to the contract\<close>

lemma tw_env_simps [simp]:
  "debug_build (tw_env d)" "env_pq (tw_env d) = list_pq" "set_order (tw_env d) xs = xs"
  "oneshot_channel (tw_env d) = new_channel" "oneshot_send (tw_env d) c v = close_channel Sent c"
  "oneshot_drop_sender (tw_env d) = close_channel Closed" "oneshot_poll (tw_env d) = poll_channel"
  "poll_future (tw_env d) w f cx = Inl (UserPanic 0)" "drop_future (tw_env d) = d"
  "on_create_node (tw_env d) = net_create_node tw_net" "on_stop_node (tw_env d) net cx = Inr (net, cx)"
  "on_start_node (tw_env d) = net_start_node tw_net" "drop_simulator (tw_env d) net cx = Inr cx"
  by (simp_all add: tw_env_def)

lemma tw_env_call:
  assumes "outside_call (tw_env d) cx cx'"
  shows "outside_call (tw_env d') cx cx'"
proof -
  have "tw_env d' = (tw_env d)\<lparr>drop_future := d'\<rparr>" by (simp add: tw_env_def)
  then show ?thesis using outside_call_mono [OF assms ustep_drop] by metis
qed

interpretation tw_inboxes: inbox_channels "tw_env d" tw_net script_buffer
  for d :: "tw_future \<Rightarrow> tw_sim \<Rightarrow> panic + tw_sim"
  by (rule heap_inbox_channels) (auto simp: tw_net_def)

lemma tw_outside_code:
  assumes "\<And>f cx cx'. d f cx = Inr cx' \<Longrightarrow> outside_call (tw_env d) cx cx'"
  shows "outside_code (tw_env d) map_of"
proof (intro outside_code.intro outside_code_axioms.intro)
  show "priority_queue (env_pq (tw_env d)) map_of"
    by (simp add: list_pq.priority_queue_axioms)
qed (use assms in \<open>auto intro: close_channel_call simp: net_create_node_def dest: tw_inboxes.net_start_node_call\<close>)

lemma tw_sleep_drop_call: "sleep_drop list_pq k cx = Inr cx' \<Longrightarrow> outside_call (tw_env d) cx cx'"
  using sleep_drop_outside_call [of "tw_env d"] by simp

lemma tw_sleep_poll_polled: "sleep_poll list_pq k w cx = Inr (r, cx') \<Longrightarrow> polled (tw_env d) w cx cx'"
  using sleep_poll_outside_call [of "tw_env d"] by (auto simp: polled_def)

lemma drop_task_future_call: "drop_task_future f cx = Inr cx' \<Longrightarrow> outside_call (tw_env d) cx cx'"
proof (induction f cx rule: drop_task_future.induct)
  case (6 dl cx)
  then show ?case by (cases dl) (auto intro: tw_sleep_drop_call)
qed (auto intro: tw_sleep_drop_call tw_env_call [OF tw_inboxes.socket_drop_call])

section \<open>The channels keep to the contract\<close>

lemma wake_option_call: "wake_option w cx = Inr cx' \<Longrightarrow> outside_call e cx cx'"
  by (auto simp: wake_option_def split: option.splits intro: wake_call)

lemma set_queue_call: "outside_call e cx (set_queue c q cx)"
  by (simp add: set_queue_def ext_call)

lemma set_call_call: "outside_call e cx (set_call c s cx)"
  by (simp add: set_call_def ext_call)

lemma queue_send_call: "queue_send f w cx = Inr (r, cx') \<Longrightarrow> outside_call e cx cx'"
  by (auto simp: queue_send_def Let_def split: tw_future.splits if_splits
      intro: outside_call_trans [OF set_queue_call wake_option_call])

lemma queue_next_call: "queue_next c w cx = Inr (r, cx') \<Longrightarrow> outside_call e cx cx'"
  by (auto simp: queue_next_def Let_def set_queue_call split: list.splits if_splits)

lemma call_answer_call: "call_answer c v cx = Inr cx' \<Longrightarrow> outside_call e cx cx'"
  by (auto simp: call_answer_def split: call_channel.splits if_splits
      intro: outside_call_trans [OF set_call_call wake_option_call])

lemma call_await_call: "call_await c w cx = Inr (r, cx') \<Longrightarrow> outside_call e cx cx'"
  by (auto simp: call_await_def set_call_call split: call_channel.splits if_splits)

lemma compute_polled:
  assumes "compute_poll f w cx = Inr (r, cx')"
  shows "polled (tw_env d) w cx cx'"
proof -
  have await: "polled (tw_env d) w cx cx'" if aw: "await_computed k x w cx = Inr (r, cx')" for k x cx
  proof -
    obtain v cx1 where v: "sleep_poll list_pq k w cx = Inr (v, cx1)"
      and rest: "(case v of
         Pending \<Rightarrow> Inr ((Computing (Some k) x, Pending), cx1)
       | Ready _ \<Rightarrow> andThen (sleep_drop list_pq k cx1) (\<lambda>cx. Inr ((Finished, Ready x), cx))) = Inr (r, cx')"
      using aw by (auto simp: await_computed_def)
    have "outside_call (tw_env d) cx1 cx'"
      using rest by (cases v) (auto intro: tw_sleep_drop_call)
    then show ?thesis using polled_trans [OF tw_sleep_poll_polled [OF v] polled_call] by blast
  qed
  show ?thesis
    using assms
    by (auto simp: compute_poll_def split: tw_future.splits option.splits
        intro: await polled_trans [OF polled_call [OF sleep_call] await])
qed

text \<open>The tasks of \<open>Tower\<close>, with these channels and this service.\<close>

lemma tw_tower_code:
  assumes "outside_code (tw_env d) map_of"
  shows "tower_code (tw_env d) tw_net script_buffer map_of tw_tower tw_service"
proof (intro tower_code.intro tower_code_axioms.intro tw_inboxes.inbox_channels_axioms assms)
qed (auto simp: tw_tower_def tw_service_def
    intro: polled_call queue_next_call queue_send_call call_answer_call call_await_call compute_polled)

interpretation dropping: tower_code "tw_env drop_task_future" tw_net script_buffer map_of tw_tower tw_service
  by (rule tw_tower_code, rule tw_outside_code) (rule drop_task_future_call)

lemma drop_tw_future_call: "drop_tw_future f cx = Inr cx' \<Longrightarrow> outside_call tw_base cx cx'"
proof (induction f cx arbitrary: cx' rule: drop_tw_future.induct)
  case (1 c t1 calls cx)
  then show ?case using tw_env_call [OF dropping.client_drop_outside] by simp
next
  case (2 f cx)
  then show ?case using outside_call_trans [OF _ release_call] by fastforce
qed (auto intro: drop_task_future_call simp del: drop_task_future.simps)

lemma tw_base_outside_code: "outside_code tw_base map_of"
  by (rule tw_outside_code) (rule drop_tw_future_call)

interpretation tw: tower_code tw_base tw_net script_buffer map_of tw_tower tw_service
  by (rule tw_tower_code [OF tw_base_outside_code])

section \<open>The test keeps to the contract\<close>

lemma server_running_polled:
  assumes "server_running s st w cx = Inr (r, cx')"
  shows "polled tw_base w cx cx'"
proof -
  obtain st' v cx1 where v: "server_poll tw_base tw_net tw_tower tw_service Serve w s st cx =
      Some (Inr ((st', v), cx1))"
    using assms by (auto simp: server_running_def split: option.splits)
  with assms have "cx' = cx1" by (cases v) (auto simp: server_running_def)
  then show ?thesis using tw.server_poll_polled [OF v] by simp
qed

lemma server_start_polled:
  assumes "server_start port w cx = Inr (r, cx')"
  shows "polled tw_base w cx cx'"
proof -
  obtain v cx1 where v: "server_open tw_net tw_tower port cx = Inr (v, cx1)"
    using assms by (auto simp: server_start_def)
  have "polled tw_base w cx1 cx'"
    using assms v by (cases v) (auto simp: server_start_def server_running_polled)
  then show ?thesis by (rule polled_trans [OF polled_call [OF tw.server_open_outside [OF v]]])
qed

lemma poll_calls_polled: "poll_calls t1 w calls cx = Inr (calls', cx') \<Longrightarrow> polled tw_base w cx cx'"
proof (induction calls arbitrary: calls' cx)
  case (Cons xc calls)
  obtain x c where xc: "xc = (x, c)" by (cases xc)
  obtain c' v cx1 where v: "call_future_poll tw_base tw_tower w c cx = Inr ((c', v), cx1)"
    using Cons.prems by (auto simp: xc)
  have "\<exists>calls'. poll_calls t1 w calls cx1 = Inr (calls', cx')"
    using Cons.prems v by (cases v) (auto simp: xc)
  then show ?case using polled_trans [OF tw.call_future_polled [OF v]] Cons.IH by blast
qed simp

lemma client_running_polled:
  assumes "client_running c t1 calls w cx = Inr (r, cx')"
  shows "polled tw_base w cx cx'"
proof -
  obtain calls' cx1 where p: "poll_calls t1 w calls cx = Inr (calls', cx1)"
    using assms by (auto simp: client_running_def)
  have "polled tw_base w cx1 cx'"
    using assms p by (cases calls') (auto simp: client_running_def intro: polled_call tw.client_drop_outside)
  then show ?thesis by (rule polled_trans [OF poll_calls_polled [OF p]])
qed

lemma start_calls_call: "start_calls c xs cx = (calls, cx') \<Longrightarrow> outside_call tw_base cx cx'"
proof (induction xs arbitrary: calls cx)
  case (Cons x xs)
  then show ?case
    using outside_call_trans [OF tw.client_call_outside] by (auto simp: Let_def split: prod.splits)
qed simp

lemma run_client_polled:
  assumes "run_client address inputs w cx = Inr (r, cx')"
  shows "polled tw_base w cx cx'"
proof -
  obtain c cx1 calls cx2 where n: "client_new tw_base tw_net tw_tower (\<lambda>t. Sender t AwaitRequest) Receiver address cx =
      Inr (c, cx1)" and s: "start_calls c inputs cx1 = (calls, cx2)"
    and run: "client_running c (instant_now 0 cx1) calls w cx2 = Inr (r, cx')"
  proof -
    obtain c cx1 where n: "client_new tw_base tw_net tw_tower (\<lambda>t. Sender t AwaitRequest) Receiver address cx =
        Inr (c, cx1)"
      using assms by (auto simp: run_client_def)
    moreover obtain calls cx2 where "start_calls c inputs cx1 = (calls, cx2)"
      by (cases "start_calls c inputs cx1")
    ultimately show thesis using assms that by (auto simp: run_client_def)
  qed
  note polled_call [OF outside_call_trans [OF tw.client_new_outside [OF n] start_calls_call [OF s]]]
  from polled_trans [OF this client_running_polled [OF run]] show ?thesis .
qed

lemma test_joining_polled:
  assumes "test_joining h w cx = Inr (r, cx')"
  shows "polled tw_base w cx cx'"
proof -
  obtain v cx1 where v: "oneshot_poll tw_base (handle_result h) w cx = Inr (v, cx1)"
    and rest: "(case map_result v of
       Pending \<Rightarrow> Inr ((TestJoining h, Pending), cx1)
     | Ready (Inl _) \<Rightarrow> Inl UnwrapNone
     | Ready (Inr _) \<Rightarrow> Inr ((Finished, Ready ()), cx1)) = Inr (r, cx')"
    using assms by (auto simp: test_joining_def task_handle_poll_def)
  have "outside_call tw_base cx cx1"
    using v by (auto simp: poll_channel_def set_channel_def ext_call split: if_splits channel.splits)
  moreover have "cx' = cx1"
    using rest by (cases v rule: map_result.cases) auto
  ultimately show ?thesis by (simp add: polled_call)
qed

lemma test_sleeping_polled:
  assumes "test_sleeping inputs k server port w cx = Inr (r, cx')"
  shows "polled tw_base w cx cx'"
proof -
  obtain v cx1 where v: "sleep_poll list_pq k w cx = Inr (v, cx1)"
    using assms by (auto simp: test_sleeping_def)
  show ?thesis
  proof (cases v)
    case (Ready t)
    then obtain cx2 node cx3 f h cx4 where d: "sleep_drop list_pq k cx1 = Inr cx2"
      and c: "create_node tw_base cx2 = Inr (node, cx3)"
      and sp: "spawn_task_on_node tw_base node f cx3 = Inr (h, cx4)"
      and j: "test_joining h w cx4 = Inr (r, cx')"
      using assms v by (auto simp: test_sleeping_def)
    note outside_call_trans [OF tw_sleep_drop_call [OF d] outside_code.create_node_call [OF tw_base_outside_code c]]
    note polled_call [OF outside_call_trans [OF this spawn_on_call [OF sp]]]
    note polled_trans [OF this test_joining_polled [OF j]]
    from polled_trans [OF tw_sleep_poll_polled [OF v] this] show ?thesis .
  qed (use assms v tw_sleep_poll_polled [OF v] in \<open>simp add: test_sleeping_def\<close>)
qed

lemma tower_polled:
  assumes "tower inputs w cx = Inr (r, cx')"
  shows "polled tw_base w cx cx'"
proof -
  obtain s u cx1 server cx2 port cx3 f h cx4 k cx5 where a: "add_simulator NET s cx = Inr (u, cx1)"
    and c: "create_node tw_base cx1 = Inr (server, cx2)"
    and i: "new_id (debug_build tw_base) cx2 = Inr (port, cx3)"
    and sp: "spawn_task_on_node tw_base server f cx3 = Inr (h, cx4)"
    and sl: "sleep 0 1000000 cx4 = Inr (k, cx5)" and t: "test_sleeping inputs k server port w cx5 = Inr (r, cx')"
    using assms by (auto simp: tower_def spawn_server_def node_spawn_def)
  note outside_call_trans [OF add_simulator_call [OF a] outside_code.create_node_call [OF tw_base_outside_code c]]
  note outside_call_trans [OF outside_call_trans [OF this new_id_outside_call [OF i]] spawn_on_call [OF sp]]
  note polled_call [OF outside_call_trans [OF this sleep_call [OF sl]]]
  from polled_trans [OF this test_sleeping_polled [OF t]] show ?thesis .
qed

lemma task_polls_polled:
  "sender_poll t st w cx = Inr (r, cx') \<Longrightarrow> polled tw_base w cx cx'"
  "receiver_poll rt w cx = Inr (r, cx') \<Longrightarrow> polled tw_base w cx cx'"
  by (auto simp: sender_poll_def receiver_poll_def split: option.splits
      dest: tw.send_task_poll_polled tw.recv_task_poll_polled)

lemma poll_tw_future_polled: "poll_tw_future w f cx = Inr (r, cx') \<Longrightarrow> polled tw_base w cx cx'"
proof (induction w f cx arbitrary: r cx' rule: poll_tw_future.induct)
  case (11 w d cx)
  then obtain d' v where "delivery_poll tw_base tw_net w d cx = Inr ((d', v), cx')" and "instant_range d"
    by (auto split: if_splits)
  then show ?case using tw_inboxes.delivery_poll_call by (fastforce simp: polled_def)
next
  case (12 w f cx)
  then obtain polled cx1 v where p: "poll_tw_future w f cx = Inr (polled, cx1)"
    and rest: "root_poll (tw_base\<lparr>poll_future := \<lambda>_ _ cx. Inr (polled, cx)\<rparr>) tw_root w
      (RootAwaiting f) cx1 = Inr (v, cx')"
    by fastforce
  from polled_trans [OF 12(1) [OF p] polled_call [OF root_poll_call [OF rest tw_base_outside_code]]]
  show ?case .
qed (auto intro: tower_polled test_sleeping_polled test_joining_polled server_start_polled server_running_polled
    tw.serve_polled task_polls_polled run_client_polled client_running_polled)

text \<open>A simulation of clients and servers is one of outside code that keeps to its contract.\<close>

lemma tw_full_outside_code: "outside_code tw_full map_of"
  unfolding tw_full_def
  by (rule outside_code_poll [OF tw_base_outside_code])
    (use poll_tw_future_polled in \<open>auto simp: polled_def\<close>)

interpretation tw_sim: outside_code tw_full map_of
  by (rule tw_full_outside_code)

section \<open>Runs\<close>

text \<open>
  The test passes: both calls give back what was asked for after the time that the test asserts, and the
  simulation ends after the millisecond that it waits for the server and these 90. This is one run, without
  the check of determinism.
\<close>

lemma tower_test_passes:
  "tower_test [Inr 3, Inl 2] (default_builder\<lparr>builder_check := CheckNone\<rparr>) = Some (Inr 91000000)"
  by code_simp

text \<open>
  A simulation in which the root task has run to its sleep and has made a client and a call, whose
  request is in the client's queue, as a state for the next theorem.
\<close>

definition tw_start :: "panic + tw_sim" where
  "tw_start =
     andThen (install_context tw_full NoopEventHandler 0 0 (tw_thread (tw_heap0 \<lparr>ret_value = None, ret_count = 2\<rparr>)))
       (init_fn tw_full tw_root (\<lambda>cx. Inr (TestStart [], cx)))"

definition tw_calling :: "panic + tw_sim" where
  "tw_calling =
     andThen tw_start (\<lambda>cx.
     andThen (tower [] (Id 1) cx) (\<lambda>(_, cx).
     andThen (run_client (Addr (NodeId 2) (Id 2)) [Inr 3] (Id 1) cx) (\<lambda>(_, cx). Inr cx)))"

lemma tw_calling_inv:
  assumes "tw_calling = Inr cx" and "arcs cx0 (Id 1) \<noteq> None" and "tw_start = Inr cx0"
  shows "sim_inv map_of None cx"
proof -
  obtain cx1 h where i: "install_context tw_full NoopEventHandler 0 0
      (tw_thread (tw_heap0 \<lparr>ret_value = None, ret_count = 2\<rparr>)) = Inr cx1"
    and sp: "spawn tw_full (root_future tw_root (RootAwaiting (TestStart []))) cx1 = Inr (h, cx0)"
    using assms(3) by (auto simp: tw_start_def init_fn_def)
  obtain r cx2 r' where t: "tower [] (Id 1) cx0 = Inr (r, cx2)"
    and c: "run_client (Addr (NodeId 2) (Id 2)) [Inr 3] (Id 1) cx2 = Inr (r', cx)"
    using assms(1) by (auto simp: tw_calling_def assms(3))
  have "fresh_thread (tw_thread (tw_heap0 \<lparr>ret_value = None, ret_count = 2\<rparr>))"
    by (simp add: fresh_thread_def tw_thread_def)
  then have "loop_start tw_full 0 cx0"
    using i spawn_call [OF sp] by (auto simp: loop_start_def)
  then have inv: "sim_inv map_of None cx0" by (rule tw_sim.loop_start_inv(1))
  have "outside_call tw_base cx0 cx"
    using polled_trans [OF tower_polled [OF t] run_client_polled [OF c]] assms(2) by (simp add: polled_def)
  then show ?thesis
    by (rule outside_code.outside_call_inv(1) [OF tw_base_outside_code _ inv])
qed

text \<open>The client's sending task takes the call and sends its request, whose caller then waits.\<close>

definition tw_send_task :: send_task where
  "tw_send_task =
     \<lparr>st_requests = 0, st_port = Id 4, st_remote = Addr (NodeId 2) (Id 2), st_responders = 0\<rparr>"

lemma tower_keeps_the_invariants_example:
  "\<exists>cx st' cx'. tw_calling = Inr cx \<and>
    send_task_poll tw_base tw_net tw_tower (Id 1) tw_send_task AwaitRequest cx = Some (Inr (st', cx')) \<and>
    length (concat (responder_maps (ext cx'))) = 1 \<and> sim_inv map_of None cx' \<and> current_node cx' = INIT"
proof -
  let ?send = "send_task_poll tw_base tw_net tw_tower (Id 1) tw_send_task AwaitRequest"
  have "case tw_start of Inr cx0 \<Rightarrow> arcs cx0 (Id 1) \<noteq> None | Inl _ \<Rightarrow> False" by code_simp
  then obtain cx0 where cx0: "tw_start = Inr cx0" "arcs cx0 (Id 1) \<noteq> None" by (auto split: sum.splits)
  have "case tw_calling of Inr cx \<Rightarrow> arcs cx (Id 1) \<noteq> None \<and> current_node cx = INIT \<and>
      ends_with (\<lambda>(st', cx'). length (concat (responder_maps (ext cx'))) = 1) (?send cx) | Inl _ \<Rightarrow> False"
    by code_simp
  then obtain cx st' cx' where cx: "tw_calling = Inr cx" "arcs cx (Id 1) \<noteq> None" "current_node cx = INIT"
    and send: "?send cx = Some (Inr (st', cx'))" and len: "length (concat (responder_maps (ext cx'))) = 1"
    by (auto simp: ends_with_iff split: sum.splits)
  have "tower_code tw_base tw_net script_buffer map_of tw_tower tw_service"
    by (rule tw_tower_code [OF tw_base_outside_code])
  from tower_keeps_the_invariants [OF this tw_calling_inv [OF cx(1) cx0(2,1)] cx(2), of cx'] send
  have "sim_inv map_of None cx' \<and> current_node cx' = current_node cx" by blast
  then show ?thesis using cx send len by (intro exI [of _ cx] exI [of _ st'] exI [of _ cx']) simp
qed

end
