(* ===== verification/NetTypes.thy ===== *)
theory NetTypes
  imports NetGuarantees
begin

text \<open>
  Sockets are typed, packets are not: \<open>Socket<T>\<close> downcasts what it receives to \<open>T\<close> and unwraps the
  result. A type invariant of the inboxes shows that the downcast never fails, since packets are only
  enqueued under the type that their header has from \<open>PacketRc::new\<close>.
\<close>

section \<open>Typed queues\<close>

text \<open>Every packet in a queue has the type of the queue's key.\<close>

definition queue_typed ::
  "('h, 'q, 'f, 's, 'x, 'p, 'er, 'g) net_ops \<Rightarrow> type_id \<Rightarrow> ('p, 'er) message list \<Rightarrow> bool" where
  "queue_typed n ty b \<longleftrightarrow> (\<forall>m. Inr m \<in> set b \<longrightarrow> packet_concrete (packets n) (packet m) = ty)"

definition well_typed ::
  "('h, 'q, 'f, 's, 'x, 'p, 'er, 'g) net_ops \<Rightarrow> ('p, 'er) network \<Rightarrow> bool" where
  "well_typed n w \<longleftrightarrow> (\<forall>k b. w k = Some b \<longrightarrow> queue_typed n (snd k) b)"

text \<open>\<open>packet_type_id\<close> is what it is documented to be: it is not overridden.\<close>

definition honest_packets :: "('h, 'q, 'f, 's, 'x, 'p, 'er, 'g) net_ops \<Rightarrow> bool" where
  "honest_packets n \<longleftrightarrow> packet_type_id (packets n) = packet_concrete (packets n)"

lemma queue_typed_simps [simp]:
  "queue_typed n ty []"
  "queue_typed n ty (Inl er # b) \<longleftrightarrow> queue_typed n ty b"
  "queue_typed n ty (Inr m # b) \<longleftrightarrow> packet_concrete (packets n) (packet m) = ty \<and> queue_typed n ty b"
  "queue_typed n ty (b @ b') \<longleftrightarrow> queue_typed n ty b \<and> queue_typed n ty b'"
  by (auto simp: queue_typed_def)

lemma queue_typed_tl: "queue_typed n ty b \<Longrightarrow> queue_typed n ty (tl b)"
  by (cases b) (auto simp: queue_typed_def)

lemma well_typedD: "well_typed n w \<Longrightarrow> w k = Some b \<Longrightarrow> queue_typed n (snd k) b"
  unfolding well_typed_def by blast

lemma well_typed_empty [simp]: "well_typed n Map.empty"
  by (simp add: well_typed_def)

lemma well_typed_upd: "well_typed n w \<Longrightarrow> queue_typed n (snd k) b \<Longrightarrow> well_typed n (w(k \<mapsto> b))"
  unfolding well_typed_def by (metis fun_upd_apply option.inject)

lemma well_typed_open: "well_typed n w \<Longrightarrow> spec_open k w = Some w' \<Longrightarrow> well_typed n w'"
  by (auto simp: spec_open_def split: if_splits intro!: well_typed_upd)

lemma well_typed_close: "well_typed n w \<Longrightarrow> well_typed n (spec_close k w)"
  by (simp add: spec_close_def well_typed_def)

lemma well_typed_deliver:
  assumes "well_typed n w" and "queue_typed n (snd k) [m]"
  shows "well_typed n (spec_deliver k m w)"
proof (cases "w k")
  case (Some b)
  then have "queue_typed n (snd k) (b @ [m])" using assms well_typedD by (simp only: queue_typed_simps) blast
  then show ?thesis using Some assms(1) by (simp add: spec_deliver_def well_typed_upd)
qed (use assms(1) in \<open>simp add: spec_deliver_def\<close>)

lemma well_typed_restart: "well_typed n w \<Longrightarrow> well_typed n (spec_restart node w)"
  by (auto simp: spec_restart_def well_typed_def)

lemma well_typed_receive: "well_typed n w \<Longrightarrow> w k = Some b \<Longrightarrow> well_typed n (w(k \<mapsto> tl b))"
  by (rule well_typed_upd) (auto dest: well_typedD queue_typed_tl)

section \<open>What is on its way\<close>

text \<open>
  A message between its sender and an inbox is in the future of a delivery task. Those futures are
  the unnamed ones of \<open>Inboxes::enqueue\<close>: no other future is equal to one, and no other code makes one.
\<close>

definition in_flight ::
  "('h, 'q, 'f, 's, 'x, 'p, 'er, 'g) net_ops \<Rightarrow> ('h, 'q, 'f, 's, 'x) sim \<Rightarrow> ('p, 'er) delivery set"
where
  "in_flight n cx =
     {d. \<exists>i te t. tasks cx i = Some te \<and> te_task te = Some t \<and> tk_fut t = delivery_future n d}"

definition the_inboxes ::
  "('h, 'q, 'f, 's, 'x, 'p, 'er, 'g) net_ops \<Rightarrow> ('h, 'q, 'f, 's, 'x) sim \<Rightarrow>
    (inbox_key \<times> nat) list option" where
  "the_inboxes n cx = map_option inboxes (the_net n cx)"

text \<open>
  The channels' operations wake tasks but neither make tasks nor end them, as a channel library does.
\<close>

definition channels_keep_tasks :: "('h, 'q, 'f, 's, 'x, 'p, 'er, 'g) net_ops \<Rightarrow> bool" where
  "channels_keep_tasks n \<longleftrightarrow>
     (\<forall>c m cx ok cx'. chan_try_send n c m cx = Inr (ok, cx') \<longrightarrow> tasks cx' = tasks cx) \<and>
     (\<forall>c cx r cx'. chan_try_receive n c cx = Inr (r, cx') \<longrightarrow> tasks cx' = tasks cx) \<and>
     (\<forall>c w cx r cx'. chan_poll n c w cx = Inr (r, cx') \<longrightarrow> tasks cx' = tasks cx)"

section \<open>Everything that can happen to the network\<close>

text \<open>
  A step is one operation of the network, or anything at all that leaves the inboxes, their contents
  and the messages on their way alone. Whoever enqueues holds the network lent out of its slot, and so
  does a starting node while it notifies the network: \<open>lent\<close> and \<open>lent'\<close> are the states inside. A
  delivery is polled by the main loop, which holds its task meanwhile and puts it back after.
\<close>

inductive network_step ::
  "('h, 'q, 'f, 's, 'x, 'v) env \<Rightarrow> ('h, 'q, 'f, 's, 'x, 'p, 'er, 'g) net_ops \<Rightarrow>
    ('x \<Rightarrow> nat \<rightharpoonup> ('p, 'er) message list) \<Rightarrow>
    ('h, 'q, 'f, 's, 'x) sim \<Rightarrow> ('h, 'q, 'f, 's, 'x) sim \<Rightarrow> bool"
  for e n buffer where
  opened: "socket_open n ty port cx = Inr (r, cx') \<Longrightarrow> network_step e n buffer cx cx'"
| dropped: "socket_drop e n s cx = Inr (u, cx') \<Longrightarrow> network_step e n buffer cx cx'"
| sent: "the_net n cx = Some net \<Longrightarrow> send_function net = PerfectConnectivity latency \<Longrightarrow>
    socket_send e n s dst p cx = Inr (out, cx') \<Longrightarrow> network_step e n buffer cx cx'"
| sent_from: "the_net n cx = Some net \<Longrightarrow> send_function net = PerfectConnectivity latency \<Longrightarrow>
    with_net n (net_send e n port dst p) cx = Inr (out, cx') \<Longrightarrow> network_step e n buffer cx cx'"
| packet_enqueued: "ext lent = ext cx \<Longrightarrow> in_flight n lent \<subseteq> in_flight n cx \<Longrightarrow>
    enqueue_packet e n at_time (new_packet (packets n) src dst p) lent = Inr lent' \<Longrightarrow>
    the_inboxes n cx' = the_inboxes n cx \<Longrightarrow> ext cx' = ext lent' \<Longrightarrow>
    in_flight n cx' \<subseteq> in_flight n lent' \<Longrightarrow> network_step e n buffer cx cx'"
| error_enqueued: "ext lent = ext cx \<Longrightarrow> in_flight n lent \<subseteq> in_flight n cx \<Longrightarrow>
    enqueue_error e n at_time dst ty error lent = Inr lent' \<Longrightarrow>
    the_inboxes n cx' = the_inboxes n cx \<Longrightarrow> ext cx' = ext lent' \<Longrightarrow>
    in_flight n cx' \<subseteq> in_flight n lent' \<Longrightarrow> network_step e n buffer cx cx'"
| delivery_polled: "d \<in> in_flight n cx \<Longrightarrow>
    the_net n held = the_net n cx \<Longrightarrow> ext held = ext cx \<Longrightarrow> in_flight n held \<subseteq> in_flight n cx \<Longrightarrow>
    delivery_poll e n w d held = Inr ((d', r), held') \<Longrightarrow>
    the_net n cx' = the_net n held' \<Longrightarrow> ext cx' = ext held' \<Longrightarrow>
    in_flight n cx' \<subseteq> insert d' (in_flight n held') \<Longrightarrow> network_step e n buffer cx cx'"
| received: "the_net n cx = Some net \<Longrightarrow>
    map_of (inboxes net) (local_addr s, socket_ty s) = Some (inbox (s :: socket)) \<Longrightarrow>
    socket_receive_poll n (socket_ty s) (inbox s) w cx = Inr (r, cx') \<Longrightarrow> network_step e n buffer cx cx'"
| restarted: "the_net n cx = Some net \<Longrightarrow> ext lent = ext cx \<Longrightarrow> in_flight n lent \<subseteq> in_flight n cx \<Longrightarrow>
    net_start_node n net lent = Inr (net', lent') \<Longrightarrow>
    the_net n cx' = Some net' \<Longrightarrow> ext cx' = ext lent' \<Longrightarrow> in_flight n cx' \<subseteq> in_flight n lent' \<Longrightarrow>
    network_step e n buffer cx cx'"
| elsewhere: "the_inboxes n cx' = the_inboxes n cx \<Longrightarrow>
    (\<And>net. the_net n cx = Some net \<Longrightarrow>
      net_queues buffer net (ext cx') = net_queues buffer net (ext cx)) \<Longrightarrow>
    in_flight n cx' \<subseteq> in_flight n cx \<Longrightarrow> network_step e n buffer cx cx'"

text \<open>The type invariant: of the inboxes, and of what is on its way to them.\<close>

fun delivery_typed ::
  "('h, 'q, 'f, 's, 'x, 'p, 'er, 'g) net_ops \<Rightarrow> ('p, 'er) delivery \<Rightarrow> bool" where
  "delivery_typed n (Enqueued t key m) \<longleftrightarrow> queue_typed n (snd key) [m]"
| "delivery_typed n (Sleeping k key m) \<longleftrightarrow> queue_typed n (snd key) [m]"
| "delivery_typed n Delivered \<longleftrightarrow> True"

definition typed_net ::
  "('h, 'q, 'f, 's, 'x, 'p, 'er, 'g) net_ops \<Rightarrow> ('x \<Rightarrow> nat \<rightharpoonup> ('p, 'er) message list) \<Rightarrow>
    ('h, 'q, 'f, 's, 'x) sim \<Rightarrow> bool" where
  "typed_net n buffer cx \<longleftrightarrow>
     (case the_net n cx of
        None \<Rightarrow> False
      | Some net \<Rightarrow> net_ok buffer net (ext cx) \<and> well_typed n (net_queues buffer net (ext cx))) \<and>
     (\<forall>d \<in> in_flight n cx. delivery_typed n d)"

lemma typed_netI:
  "the_net n cx = Some net \<Longrightarrow> net_ok buffer net (ext cx) \<Longrightarrow>
    well_typed n (net_queues buffer net (ext cx)) \<Longrightarrow> \<forall>d \<in> in_flight n cx. delivery_typed n d \<Longrightarrow>
    typed_net n buffer cx"
  by (simp add: typed_net_def)

lemma typed_netE:
  assumes "typed_net n buffer cx"
  obtains net where "the_net n cx = Some net" "net_ok buffer net (ext cx)"
    "well_typed n (net_queues buffer net (ext cx))" "\<forall>d \<in> in_flight n cx. delivery_typed n d"
  using assms by (auto simp: typed_net_def split: option.splits)

lemma in_flight_same: "tasks cx' = tasks cx \<Longrightarrow> in_flight n cx' = in_flight n cx"
  by (simp add: in_flight_def)

text \<open>Only the inboxes of a network matter here.\<close>

lemma net_queues_inboxes: "inboxes net' = inboxes net \<Longrightarrow> net_queues buffer net' = net_queues buffer net"
  by (simp add: net_queues_def fun_eq_iff)

lemma net_ok_inboxes: "inboxes net' = inboxes net \<Longrightarrow> net_ok buffer net' = net_ok buffer net"
  by (simp add: net_ok_def fun_eq_iff)

lemma net_ok_queues:
  assumes "net_ok buffer net x" and "net_queues buffer net x' = net_queues buffer net x"
  shows "net_ok buffer net x'"
proof -
  have "buffer x' c = buffer x c" if "map_of (inboxes net) k = Some c" for k c
    using fun_cong [OF assms(2), of k] that by (simp add: net_queues_def)
  then show ?thesis using assms(1) by (fastforce simp: net_ok_def)
qed

lemma typed_net_same_inboxes:
  assumes "the_net n cx = Some net" "net_ok buffer net (ext cx)"
    "well_typed n (net_queues buffer net (ext cx))"
    and "the_inboxes n cx' = the_inboxes n cx"
    and "net_queues buffer net (ext cx') = net_queues buffer net (ext cx)"
    and "\<forall>d \<in> in_flight n cx'. delivery_typed n d"
  shows "typed_net n buffer cx'"
proof -
  obtain net' where net': "the_net n cx' = Some net'" and i: "inboxes net' = inboxes net"
    using assms(1,4) by (auto simp: the_inboxes_def)
  show ?thesis
    by (rule typed_netI [OF net'])
      (use net_ok_queues [OF assms(2,5)] assms(3,5,6) in
        \<open>simp_all add: net_queues_inboxes [OF i] net_ok_inboxes [OF i]\<close>)
qed

section \<open>Each operation, on what is on its way\<close>

lemma enqueue_in_flight:
  assumes "enqueue e n t key m cx = Inr cx'" and inj: "inj (delivery_future n)"
  shows "in_flight n cx' \<subseteq> insert (Enqueued t key m) (in_flight n cx)"
    and "\<exists>c. oneshot_channel e (ext cx) = (c, ext cx')"
proof -
  obtain h where "spawn_task_on_node e INIT (delivery_future n (Enqueued t key m)) cx = Inr (h, cx')"
    using assms(1) by (auto simp: enqueue_def)
  then show "in_flight n cx' \<subseteq> insert (Enqueued t key m) (in_flight n cx)"
    and "\<exists>c. oneshot_channel e (ext cx) = (c, ext cx')"
  proof (atomize (full), cases rule: spawn_task_effect)
    case (1 chan x i eh q)
    have "d \<in> insert (Enqueued t key m) (in_flight n cx)" if d: "d \<in> in_flight n cx'" for d
    proof -
      obtain j te tk where j: "tasks cx' j = Some te" "te_task te = Some tk" "tk_fut tk = delivery_future n d"
        using d by (auto simp: in_flight_def)
      show ?thesis
      proof (cases "j = i")
        case True
        then have "delivery_future n d = delivery_future n (Enqueued t key m)" using j by (auto simp: 1(9))
        then show ?thesis using injD [OF inj] by blast
      next
        case False
        then have "tasks cx j = Some te" using j(1) by (simp add: 1(9))
        then show ?thesis using j(2,3) by (auto simp: in_flight_def)
      qed
    qed
    then show "in_flight n cx' \<subseteq> insert (Enqueued t key m) (in_flight n cx) \<and>
        (\<exists>c. oneshot_channel e (ext cx) = (c, ext cx'))"
      using 1(5) by (auto simp: 1(9))
  qed
qed

lemma with_net_tasks:
  assumes "with_net n f cx = Inr (a, cx')"
    and "\<And>net c a net' c'. f net c = Inr ((a, net'), c') \<Longrightarrow> tasks c' = tasks c"
  shows "tasks cx' = tasks cx"
  using assms(1) by (rule with_net_cases) (use assms(2) in fastforce)

lemma open_tasks: "socket_open n ty port cx = Inr (r, cx') \<Longrightarrow> tasks cx' = tasks cx"
  by (auto simp: socket_open_def cx_current_node_def simulator_get_def with_cx_Inr open_inbox_def
      split: if_splits option.splits prod.splits dest!: with_net_tasks)

lemma drop_tasks: "socket_drop e n s cx = Inr (u, cx') \<Longrightarrow> tasks cx' = tasks cx"
  unfolding socket_drop_def
  by (erule with_net_tasks) (auto simp: close_inbox_def Let_def split: if_splits)

lemma deliver_tasks:
  assumes "deliver n key m cx = Inr (u, cx')" and "channels_keep_tasks n"
  shows "tasks cx' = tasks cx"
proof -
  have "with_net n (offer n key m) cx = Inr (u, cx')"
    using assms(1) by (simp add: deliver_def)
  then show ?thesis
    by (rule with_net_tasks)
      (use assms(2) in \<open>auto simp: offer_def channels_keep_tasks_def split: option.splits\<close>)
qed

lemma start_tasks:
  assumes "net_start_node n net cx = Inr (net', cx')" and keep: "channels_keep_tasks n"
  shows "tasks cx' = tasks cx"
proof -
  have drain: "tasks c' = tasks c" if "drain n k fuel c = Inr c'" for k fuel c c'
    using that
  proof (induction fuel arbitrary: c)
    case (Suc fuel)
    obtain r c1 where "chan_try_receive n k c = Inr (r, c1)"
      "(case r of None \<Rightarrow> Inr c1 | Some _ \<Rightarrow> drain n k fuel c1) = Inr c'"
      using Suc.prems by auto
    moreover from this have "tasks c1 = tasks c" using keep by (simp add: channels_keep_tasks_def)
    ultimately show ?case using Suc.IH [of c1] by (auto split: option.splits)
  qed simp
  have "foldE (restart_inbox n net (current_node cx)) (map_order n (map fst (inboxes net))) cx = Inr cx'"
    using assms(1) by (auto simp: net_start_node_def cx_current_node_def split: if_splits)
  then show ?thesis
    by (rule foldE_frame) (auto simp: restart_inbox_def simp del: drain.simps dest: drain split: option.splits if_splits)
qed

lemma new_packet_type:
  "honest_packets n \<Longrightarrow>
    packet_concrete (packets n) (packet (new_packet (packets n) src dst p)) =
    hd_ty (header (new_packet (packets n) src dst p))"
  by (simp add: honest_packets_def new_packet_def)

lemma receive_polls:
  assumes "socket_receive_poll n ty c w cx = Inr (r, cx')"
  shows "\<exists>q. chan_poll n c w cx = Inr (q, cx')"
proof -
  obtain q cx1 where q: "chan_poll n c w cx = Inr (q, cx1)"
    and "(case q of Pending \<Rightarrow> Inr (Pending, cx1)
      | Ready msg \<Rightarrow> andThen (unwrap msg) (\<lambda>msg.
          andThen (unwrap_message n ty msg cx1) (\<lambda>out. Inr (Ready out, cx1)))) = Inr (r, cx')"
    using assms by (auto simp: socket_receive_poll_def)
  then show ?thesis by (cases q) auto
qed

context inbox_channels
begin

lemma poll_queues:
  assumes ok: "net_ok buffer net (ext cx)" and c: "map_of (inboxes net) k = Some c"
    and q: "chan_poll n c w cx = Inr (q, cx')"
  obtains b where "net_queues buffer net (ext cx) k = Some b" "net_ok buffer net (ext cx')"
    "net_queues buffer net (ext cx') = (net_queues buffer net (ext cx))(k \<mapsto> tl b)"
    "the_net n cx' = the_net n cx" "q = (case b of [] \<Rightarrow> Pending | m # _ \<Rightarrow> Ready (Some m))"
proof -
  obtain b where b: "buffer (ext cx) c = Some b" "length b \<le> INBOX_CAPACITY"
    by (rule net_ok_channel [OF ok c])
  note p = poll_chan [OF q b(1)]
  have "length (tl b) \<le> INBOX_CAPACITY" using b(2) by simp
  note ch = net_queues_change [OF ok c conjunct1 [OF p] this]
  show ?thesis
    by (rule that [of b])
      (use b p ch net_queues_key [OF c, of buffer] poll_frame [OF q] in
        \<open>auto simp: same_registry_def intro: the_net_same\<close>)
qed

lemma receive_typed:
  assumes ok: "net_ok buffer net (ext cx)" "well_typed n (net_queues buffer net (ext cx))"
    and c: "map_of (inboxes net) (addr, ty) = Some c"
    and r: "socket_receive_poll n ty c w cx = Inl panic"
  shows "chan_poll n c w cx = Inl panic \<or>
    (\<exists>p. packet_concrete (packets n) p = ty \<and> clone_packet (packets n) p = Inl panic)"
proof (cases "chan_poll n c w cx")
  case (Inr a)
  obtain q cx1 where q: "chan_poll n c w cx = Inr (q, cx1)" using Inr by (cases a) auto
  obtain b where b: "net_queues buffer net (ext cx) (addr, ty) = Some b"
    "q = (case b of [] \<Rightarrow> Pending | m # _ \<Rightarrow> Ready (Some m))"
    by (rule poll_queues [OF ok(1) c q])
  obtain m b' where m: "b = m # b'" using r q b(2) by (cases b) (auto simp: socket_receive_poll_def)
  then have "unwrap_message n ty m cx1 = Inl panic"
    using r q b(2) by (simp add: socket_receive_poll_def andThen_eq_Inl)
  moreover have "queue_typed n ty [m]" using well_typedD [OF ok(2) b(1)] m by (cases m) auto
  ultimately show ?thesis
    by (auto simp: unwrap_message_def andThen_eq_Inl split: sum.splits if_splits)
qed (use r in \<open>simp add: socket_receive_poll_def\<close>)

lemma delivery_poll_typed:
  assumes r: "delivery_poll e n w d cx = Inr ((d', r), cx')" and typed: "delivery_typed n d"
    and net: "the_net n cx = Some net" "net_ok buffer net (ext cx)"
      "well_typed n (net_queues buffer net (ext cx))"
    and keep: "channels_keep_tasks n"
  shows "the_net n cx' = Some net \<and> net_ok buffer net (ext cx') \<and>
    well_typed n (net_queues buffer net (ext cx')) \<and> tasks cx' = tasks cx \<and> delivery_typed n d'"
proof -
  have await: "the_net n cx' = Some net \<and> net_ok buffer net (ext cx') \<and>
      well_typed n (net_queues buffer net (ext cx')) \<and> tasks cx' = tasks c \<and> delivery_typed n d'"
    if a: "await_delivery e n w k key m c = Inr ((d', r), cx')" and m: "queue_typed n (snd key) [m]"
      and c: "the_net n c = Some net" "ext c = ext cx" for k key m c
  proof -
    obtain p c1 where p: "sleep_poll (env_pq e) k w c = Inr (p, c1)"
      and rest: "(case p of Pending \<Rightarrow> Inr ((Sleeping k key m, Pending), c1)
        | Ready _ \<Rightarrow> andThen (sleep_drop (env_pq e) k c1) (\<lambda>cx.
            andThen (deliver n key m cx) (\<lambda>(_, cx). Inr ((Delivered, Ready ()), cx)))) =
          Inr ((d', r), cx')"
      using a by (auto simp: await_delivery_def)
    note r1 = sleep_poll_rest [OF p] and t1 = sleep_poll_frame(3) [OF p]
    have n1: "the_net n c1 = Some net" using c(1) by (simp add: the_net_same [OF r1(5,6)])
    show ?thesis
    proof (cases p)
      case Pending
      then show ?thesis using rest n1 r1(7) t1 c net m by auto
    next
      case (Ready v)
      obtain c2 u where c2: "sleep_drop (env_pq e) k c1 = Inr c2" and d: "deliver n key m c2 = Inr (u, cx')"
        and d': "d' = Delivered"
        using rest Ready by auto
      note r2 = sleep_drop_rest [OF c2]
      have n2: "the_net n c2 = Some net" using n1 by (simp add: the_net_same [OF r2(5,6)])
      have e2: "ext c2 = ext cx" using r1(7) r2(7) c(2) by simp
      note q = deliver_queues [OF d n2, unfolded e2, OF net(2)]
      have "well_typed n (net_queues buffer net (ext cx'))"
        unfolding q(3) by (rule well_typed_deliver [OF net(3) m])
      then show ?thesis
        using q(1,2) d' deliver_tasks [OF d keep] t1 sleep_drop_frame(3) [OF c2] by simp
    qed
  qed
  show ?thesis
  proof (cases d)
    case (Enqueued t key m)
    obtain k c where s: "sleep_until t cx = (k, c)" by (cases "sleep_until t cx")
    then have "ext c = ext cx" "the_net n c = the_net n cx" "tasks c = tasks cx"
      by (auto simp: sleep_until_def intro: the_net_same)
    moreover have "await_delivery e n w k key m c = Inr ((d', r), cx')" using r Enqueued s by simp
    ultimately show ?thesis using await [of k key m c] typed Enqueued net(1) by simp
  next
    case (Sleeping k key m)
    then show ?thesis using await [of k key m cx] r typed net(1) by simp
  qed (use r in simp)
qed

lemma oneshot_keeps:
  "oneshot_channel e (ext cx) = (c, x) \<Longrightarrow> net_queues buffer net x = net_queues buffer net (ext cx)"
  by (simp add: net_queues_def oneshot_buffer)

text \<open>Sending, with the function that the crate provides: the packet is enqueued, and that is all.\<close>

lemma send_typed:
  assumes s: "with_net n (send_wrapped e n (new_packet (packets n) src dst p)) cx = Inr (out, cx')"
    and inv: "typed_net n buffer cx" and honest: "honest_packets n" and inj: "inj (delivery_future n)"
    and sf: "the_net n cx = Some net" "send_function net = PerfectConnectivity latency"
  shows "typed_net n buffer cx'"
proof -
  let ?m = "new_packet (packets n) src dst p"
  have net: "net_ok buffer net (ext cx)" "well_typed n (net_queues buffer net (ext cx))"
    and fl: "\<forall>d \<in> in_flight n cx. delivery_typed n d"
    using inv sf(1) by (auto elim: typed_netE)
  from s show ?thesis
  proof (cases rule: with_net_cases)
    case (1 i sim net0 net' cx1)
    let ?lent = "cx\<lparr>simulators := (simulators cx)[i := None]\<rparr>"
    have "net0 = net" using 1(1-4) sf(1) by (simp add: the_net_def)
    then obtain t where enq: "enqueue e n t (hd_dst (header ?m), hd_ty (header ?m)) (Inr ?m) ?lent = Inr cx1"
      and net': "net' = net"
      using 1(6) sf(2)
      by (auto simp: send_wrapped_def cx_current_node_def enqueue_packet_def split: if_splits)
    note q = enqueue_in_flight [OF enq inj]
    obtain h where "spawn_task_on_node e INIT (delivery_future n
        (Enqueued t (hd_dst (header ?m), hd_ty (header ?m)) (Inr ?m))) ?lent = Inr (h, cx1)"
      using enq by (auto simp: enqueue_def)
    then have same: "simulators cx1 = simulators ?lent" "simulators_by_type cx1 = simulators_by_type cx"
      by (auto elim!: spawn_task_effect)
    have "the_net n cx' = Some net"
      using 1(1,2,4) same net' downcast_box by (simp add: 1(10) the_net_def)
    moreover have "net_queues buffer net (ext cx') = net_queues buffer net (ext cx)"
      using q(2) oneshot_keeps [of cx] by (auto simp: 1(10))
    moreover have "in_flight n cx' = in_flight n cx1" "in_flight n ?lent = in_flight n cx"
      by (rule in_flight_same; simp add: 1(10))+
    then have "\<forall>d \<in> in_flight n cx'. delivery_typed n d"
      using q(1) fl new_packet_type [OF honest] by auto
    ultimately show ?thesis
      using sf(1) net by (intro typed_net_same_inboxes [OF sf(1) net]) (simp_all add: the_inboxes_def)
  qed
qed

lemma network_step_typed:
  assumes "network_step e n buffer cx cx'" and inv: "typed_net n buffer cx" and honest: "honest_packets n"
    and inj: "inj (delivery_future n)" and keep: "channels_keep_tasks n"
  shows "typed_net n buffer cx'"
proof -
  obtain net where net: "the_net n cx = Some net" "net_ok buffer net (ext cx)"
    "well_typed n (net_queues buffer net (ext cx))" and fl: "\<forall>d \<in> in_flight n cx. delivery_typed n d"
    using inv by (rule typed_netE)
  have enq: "typed_net n buffer cx'"
    if "enqueue e n t key m lent = Inr lent'" and "queue_typed n (snd key) [m]"
      and lent: "ext lent = ext cx" "in_flight n lent \<subseteq> in_flight n cx"
      and home: "the_inboxes n cx' = the_inboxes n cx" "ext cx' = ext lent'" "in_flight n cx' \<subseteq> in_flight n lent'"
    for t key m lent lent'
  proof -
    note q = enqueue_in_flight [OF that(1) inj]
    have "net_queues buffer net (ext cx') = net_queues buffer net (ext cx)"
      using q(2) oneshot_keeps [of lent] lent(1) home(2) by auto
    moreover have "\<forall>d \<in> in_flight n cx'. delivery_typed n d"
    proof
      fix d
      assume "d \<in> in_flight n cx'"
      then have "d = Enqueued t key m \<or> d \<in> in_flight n cx" using q(1) lent(2) home(3) by blast
      then show "delivery_typed n d" using that(2) fl by auto
    qed
    ultimately show ?thesis using typed_net_same_inboxes [OF net home(1)] by simp
  qed
  show ?thesis
    using assms(1)
  proof cases
    case (opened ty port r)
    obtain net' where o: "the_net n cx' = Some net'" "net_ok buffer net' (ext cx')"
      "case r of
         Inl _ \<Rightarrow> net' = net \<and> ext cx' = ext cx \<and>
           spec_open (Addr (current_node cx) port, ty) (net_queues buffer net (ext cx)) = None
       | Inr s \<Rightarrow> socket_ty s = ty \<and> local_addr s = Addr (current_node cx) port \<and>
           map_of (inboxes net') (Addr (current_node cx) port, ty) = Some (inbox s) \<and>
           spec_open (Addr (current_node cx) port, ty) (net_queues buffer net (ext cx)) =
             Some (net_queues buffer net' (ext cx'))"
      by (rule socket_open_queues [OF opened net(1,2)])
    have "well_typed n (net_queues buffer net' (ext cx'))"
      using o(3) net(3) by (auto split: sum.splits intro: well_typed_open)
    with o(1,2) show ?thesis
      using fl by (intro typed_netI) (simp_all add: in_flight_same [OF open_tasks [OF opened]])
  next
    case (dropped s u)
    obtain net' where "the_net n cx' = Some net'" "net_ok buffer net' (ext cx')"
      "net_queues buffer net' (ext cx') =
        spec_close (local_addr s, socket_ty s) (net_queues buffer net (ext cx))"
      by (rule socket_drop_queues [OF dropped net(1,2)])
    note c = this
    have "well_typed n (net_queues buffer net' (ext cx'))"
      unfolding c(3) by (rule well_typed_close [OF net(3)])
    moreover have "\<forall>d \<in> in_flight n cx'. delivery_typed n d"
      using fl by (simp add: in_flight_same [OF drop_tasks [OF dropped]])
    ultimately show ?thesis by (rule typed_netI [OF c(1,2)])
  next
    case (sent net0 latency s dst p out)
    show ?thesis
      by (rule send_typed [OF sent(3) [unfolded socket_send_def] inv honest inj sent(1,2)])
  next
    case (sent_from net0 latency port dst p out)
    have "with_net n (send_wrapped e n (new_packet (packets n) (Addr (current_node cx) port) dst p)) cx =
        Inr (out, cx')"
      using sent_from(3)
      by (auto simp: with_net_def simulator_with_def with_simulator_option_def take_simulator_def
          with_cx_Inr net_send_def cx_current_node_def split: option.splits if_splits)
    from send_typed [OF this inv honest inj sent_from(1,2)] show ?thesis .
  next
    case (packet_enqueued lent at_time src dst p lent')
    let ?m = "new_packet (packets n) src dst p"
    have "queue_typed n (snd (hd_dst (header ?m), hd_ty (header ?m))) [Inr ?m]"
      using new_packet_type [OF honest] by simp
    from enq [OF packet_enqueued(3) [unfolded enqueue_packet_def] this] packet_enqueued
    show ?thesis by blast
  next
    case (error_enqueued lent at_time dst ty error lent')
    have "queue_typed n (snd (dst, ty)) [Inl error]" by simp
    from enq [OF error_enqueued(3) [unfolded enqueue_error_def] this] error_enqueued
    show ?thesis by blast
  next
    case (delivery_polled d held w d' r held')
    have d: "delivery_typed n d" using fl delivery_polled(1) by blast
    have held: "the_net n held = Some net" "net_ok buffer net (ext held)"
      "well_typed n (net_queues buffer net (ext held))"
      using net delivery_polled(2,3) by simp_all
    note q = delivery_poll_typed [OF delivery_polled(5) d held keep]
    then have d': "delivery_typed n d'" and t: "tasks held' = tasks held" by simp_all
    note f = in_flight_same [OF t, of n]
    then have "in_flight n cx' \<subseteq> insert d' (in_flight n cx)" using delivery_polled(4,8) by blast
    then have "\<forall>d \<in> in_flight n cx'. delivery_typed n d" using d' fl by blast
    moreover have "the_net n cx' = Some net" "net_ok buffer net (ext cx')"
      "well_typed n (net_queues buffer net (ext cx'))"
      unfolding delivery_polled(6,7) using q by blast+
    ultimately show ?thesis by (intro typed_netI)
  next
    case (received net0 s w r)
    obtain q where q: "chan_poll n (inbox s) w cx = Inr (q, cx')"
      using receive_polls [OF received(3)] by blast
    have "tasks cx' = tasks cx" using keep q by (auto simp: channels_keep_tasks_def)
    note f = in_flight_same [OF this, of n]
    have "map_of (inboxes net) (local_addr s, socket_ty s) = Some (inbox s)"
      using received(1,2) net(1) by simp
    from net(2) this q show ?thesis
    proof (rule poll_queues)
      fix b
      assume b: "net_queues buffer net (ext cx) (local_addr s, socket_ty s) = Some b"
        "net_ok buffer net (ext cx')" "the_net n cx' = the_net n cx"
        and w: "net_queues buffer net (ext cx') =
          (net_queues buffer net (ext cx))((local_addr s, socket_ty s) \<mapsto> tl b)"
      have "well_typed n (net_queues buffer net (ext cx'))"
        unfolding w by (rule well_typed_receive [OF net(3) b(1)])
      then show ?thesis using b(2,3) net(1) fl f by (intro typed_netI) simp_all
    qed
  next
    case (restarted net0 lent net' lent')
    have "net_ok buffer net0 (ext lent)" using restarted(1,2) net(1,2) by simp
    note s = net_start_node_queues [OF restarted(4) this]
    have "\<forall>d \<in> in_flight n cx'. delivery_typed n d"
      using fl restarted(3,7) in_flight_same [OF start_tasks [OF restarted(4) keep]] by blast
    then show ?thesis
      using s restarted net well_typed_restart [OF net(3)] by (intro typed_netI) auto
  next
    case elsewhere
    show ?thesis
      by (rule typed_net_same_inboxes [OF net elsewhere(1)]) (use elsewhere(2,3) net(1) fl in auto)
  qed
qed

lemma network_run_typed:
  assumes "(network_step e n buffer)\<^sup>*\<^sup>* cx cx'" and "typed_net n buffer cx" and "honest_packets n"
    and "inj (delivery_future n)" and "channels_keep_tasks n"
  shows "typed_net n buffer cx'"
  using assms(1) by (induction rule: rtranclp_induct) (use assms(2-5) network_step_typed in auto)

end

section \<open>Receiving is type safe\<close>

text \<open>
  C35: Whatever happens to the network once it is added, the downcast in \<open>unwrap_message\<close> succeeds: however
  sockets are opened, dropped and received from, packets are sent and packets and errors enqueued,
  deliveries polled and nodes started, in any order and between any other things that the program does, a
  panic while receiving on an open socket is one of the channel library or of the \<open>clone_packet\<close> of
  a packet of the socket's own type. (Packets report their own type; the futures of the network are made by
  nobody else.)
\<close>

theorem sockets_receive_their_type:
  assumes ch: "inbox_channels e n buffer" and honest: "honest_packets n"
    and own: "inj (delivery_future n)" "channels_keep_tasks n"
    and start: "the_net n cx0 = Some net0" "inboxes net0 = []" "in_flight n cx0 = {}"
    and run: "(network_step e n buffer)\<^sup>*\<^sup>* cx0 cx"
    and net: "the_net n cx = Some net" "map_of (inboxes net) (local_addr s, socket_ty s) = Some (inbox s)"
    and receive: "socket_receive_poll n (socket_ty s) (inbox s) w cx = Inl panic"
  shows "chan_poll n (inbox s) w cx = Inl panic \<or>
    (\<exists>p. packet_concrete (packets n) p = socket_ty s \<and> clone_packet (packets n) p = Inl panic)"
proof -
  have "typed_net n buffer cx0"
    by (rule typed_netI [OF start(1)])
      (simp_all add: net_ok_def net_queues_def start(2,3) well_typed_def)
  then have "typed_net n buffer cx"
    by (rule inbox_channels.network_run_typed [OF ch run _ honest own])
  then show ?thesis
    by (rule typed_netE) (use net inbox_channels.receive_typed [OF ch _ _ _ receive] in auto)
qed

text \<open>
  A packet of which there is another reference is cloned, and the default of \<open>clone_packet\<close> panics.
\<close>

abbreviation "shared_net \<equiv> witness_net\<lparr>rc_unique := (\<lambda>_ _. False)\<rparr>"

lemma shared_channels: "inbox_channels witness_env shared_net script_buffer"
  using witness_channels by (simp add: inbox_channels_def)

lemma wake_tasks: "wake_by_ref w cx = Inr cx' \<Longrightarrow> tasks cx' = tasks (cx :: ('h, 'q, 'f, 's, 'x) sim)"
  by (auto elim!: wake_by_ref_cases simp: store_state_def)

lemma set_inbox_tasks [simp]: "tasks (set_inbox c ch cx) = tasks cx"
  by (simp add: set_inbox_def)

lemma shared_keeps_tasks: "channels_keep_tasks shared_net"
proof -
  have "tasks cx' = tasks cx" if "inbox_try_send c m cx = Inr (ok, cx')" for c m ok and cx cx' :: "nat script_sim"
    using that by (auto simp: inbox_try_send_def Let_def dest!: wake_tasks split: if_splits option.splits)
  moreover have "tasks cx' = tasks cx" if "inbox_try_receive c cx = Inr (r, cx')" for c r and cx cx' :: "nat script_sim"
    using that by (auto simp: inbox_try_receive_def Let_def split: if_splits list.splits)
  moreover have "tasks cx' = tasks cx" if "inbox_poll c w cx = Inr (r, cx')" for c w r and cx cx' :: "nat script_sim"
    using that by (auto simp: inbox_poll_def Let_def split: if_splits list.splits)
  ultimately show ?thesis by (simp add: channels_keep_tasks_def script_net_def)
qed

text \<open>Taking apart what an evaluation has found.\<close>

lemma returnsE:
  assumes "case r of Inr (a, c) \<Rightarrow> P a c | Inl _ \<Rightarrow> False"
  obtains a c where "r = Inr (a, c)" "P a c"
  using assms by (auto split: sum.splits)

lemma someE:
  assumes "case x of Some a \<Rightarrow> P a | None \<Rightarrow> False"
  obtains a where "x = Some a" "P a"
  using assms by (auto split: option.splits)

theorem sockets_receive_their_type_witness:
  "\<exists>cx :: nat script_sim. socket_receive_poll shared_net ''P'' 0 (Id 1) cx = Inl Unimplemented \<and>
     (chan_poll shared_net 0 (Id 1) cx = Inl Unimplemented \<or>
       (\<exists>p. packet_concrete (packets shared_net) p = ''P'' \<and>
         clone_packet (packets shared_net) p = Inl Unimplemented))"
proof -
  let ?n = "shared_net" and ?dst = "Addr INIT (Id 7)"
  let ?s = "\<lparr>socket_ty = ''P'', inbox = 0, local_addr = ?dst\<rparr>"
  let ?d = "Enqueued 100 (?dst, ''P'') (Inr (new_packet (packets ?n) (Addr INIT (Id 9)) ?dst 5))"
  let ?new = "\<lambda>cx. andThen (install_context witness_env NoopEventHandler 100 0 cx)
    (add_simulator NET (NetSim (new_net (PerfectConnectivity 0))))"
  let ?open = "socket_open ?n ''P'' (Id 7)"
  let ?send = "with_net ?n (net_send witness_env ?n (Id 9) ?dst 5)"
  let ?poll = "delivery_poll witness_env ?n (Id 1) ?d"
  let ?P3 = "\<lambda>cx3. (case the_net ?n cx3 of Some net \<Rightarrow>
      map_of (inboxes net) (?dst, ''P'') = Some 0 | None \<Rightarrow> False) \<and>
    (case socket_receive_poll ?n ''P'' 0 (Id 1) cx3 of Inl p \<Rightarrow> p = Unimplemented | _ \<Rightarrow> False)"
  let ?P2 = "\<lambda>cx2. (case tasks cx2 (Id 1) of Some te \<Rightarrow> (case te_task te of Some t \<Rightarrow>
      tk_fut t = Deliver ?d | None \<Rightarrow> False) | None \<Rightarrow> False) \<and>
    (case ?poll cx2 of Inr (_, cx3) \<Rightarrow> ?P3 cx3 | Inl _ \<Rightarrow> False)"
  let ?P1 = "\<lambda>cx1. (case the_net ?n cx1 of Some net \<Rightarrow>
      send_function net = PerfectConnectivity 0 | None \<Rightarrow> False) \<and>
    (case ?send cx1 of Inr (_, cx2) \<Rightarrow> ?P2 cx2 | Inl _ \<Rightarrow> False)"
  have "case ?new script_thread of
      Inr (_, cx0) \<Rightarrow> net_is [] cx0 \<and> (case ?open cx0 of Inr (_, cx1) \<Rightarrow> ?P1 cx1 | Inl _ \<Rightarrow> False)
    | Inl _ \<Rightarrow> False"
    by code_simp
  then obtain u cx0 where new: "?new script_thread = Inr (u, cx0)" and p0: "net_is [] cx0 \<and>
      (case ?open cx0 of Inr (_, cx1) \<Rightarrow> ?P1 cx1 | Inl _ \<Rightarrow> False)"
    by (rule returnsE)
  note empty = conjunct1 [OF p0]
  from conjunct2 [OF p0] obtain r1 cx1 where opened: "?open cx0 = Inr (r1, cx1)" and p1: "?P1 cx1"
    by (rule returnsE)
  from conjunct1 [OF p1] obtain net1 where
    net1: "the_net ?n cx1 = Some net1" "send_function net1 = PerfectConnectivity 0"
    by (rule someE)
  from conjunct2 [OF p1] obtain r2 cx2 where sent: "?send cx1 = Inr (r2, cx2)" and p2: "?P2 cx2"
    by (rule returnsE)
  from conjunct1 [OF p2] have d: "?d \<in> in_flight ?n cx2"
    by (elim someE) (auto simp: in_flight_def script_net_def)
  from conjunct2 [OF p2] obtain r3 cx3 where polled': "?poll cx2 = Inr (r3, cx3)" and p3: "?P3 cx3"
    by (rule returnsE)
  obtain d' p where polled: "?poll cx2 = Inr ((d', p), cx3)" using polled' by (cases r3) simp
  from conjunct1 [OF p3] obtain net where
    net: "the_net ?n cx3 = Some net" "map_of (inboxes net) (?dst, ''P'') = Some 0"
    by (rule someE)
  have receive: "socket_receive_poll ?n ''P'' 0 (Id 1) cx3 = Inl Unimplemented"
    using conjunct2 [OF p3] by (cases "socket_receive_poll ?n ''P'' 0 (Id 1) cx3") simp_all
  obtain net0 where "the_net witness_net cx0 = Some net0" "inboxes net0 = []"
    using empty by (rule net_is_empty)
  moreover have "downcast_net ?n = downcast_net witness_net" by simp
  ultimately have start: "the_net ?n cx0 = Some net0" "inboxes net0 = []"
    unfolding the_net_def by (simp_all only:)
  have "tasks cx0 = Map.empty"
    using new by (auto simp: install_context_def add_simulator_def with_cx_Inr fresh_executor_def Let_def
        split: if_splits cell_status.splits)
  then have none: "in_flight ?n cx0 = {}" by (simp add: in_flight_def)
  have own: "honest_packets ?n" "inj (delivery_future ?n)"
    by (simp_all add: honest_packets_def script_net_def inj_def)
  let ?step = "network_step witness_env ?n script_buffer"
  have "?step cx0 cx1" using opened by (rule network_step.opened)
  moreover have "?step cx1 cx2" by (rule network_step.sent_from [OF net1 sent])
  moreover have "?step cx2 cx3"
    by (rule network_step.delivery_polled [OF d refl refl _ polled refl refl]) auto
  ultimately have run: "?step\<^sup>*\<^sup>* cx0 cx3" by (meson converse_rtranclp_into_rtranclp rtranclp.rtrancl_refl)
  have "map_of (inboxes net) (local_addr ?s, socket_ty ?s) = Some (inbox ?s)" using net(2) by simp
  from sockets_receive_their_type [OF shared_channels own shared_keeps_tasks start none run net(1) this,
      of "Id 1" Unimplemented]
  show ?thesis using receive by auto
qed

end
