(* ===== verification/Examples.thy ===== *)
theory Examples
  imports Scripts
begin

text \<open>
  Programs of the repository, run by evaluation: the example in the documentation of the network, two
  of \<open>examples/\<close> and the tests of \<open>tests/runtime.rs\<close>, as scripts. Ids are written as the numbers that
  \<open>Id::new\<close> returns there (the root task has the first), and a socket is dropped where its block ends.
\<close>

abbreviation from_millis :: "nat \<Rightarrow> duration" where
  "from_millis n \<equiv> n * 1000000"

abbreviation from_secs :: "nat \<Rightarrow> duration" where
  "from_secs n \<equiv> n * 1000000000"

section \<open>The example of the network\<close>

text \<open>\<open>net/net_doc_example.rs\<close>; the packets \<open>ping\<close>, \<open>pong\<close> and \<open>pong2\<close> are 1, 2 and 3.\<close>

definition doc_node1 :: "action list" where
  "doc_node1 =
     [OpenSocket 2, ReceiveFrom 0 2 3, SendTo 0 2 3 2, SleepFor (from_millis 1),
      NewId, SendFrom 8 2 3 3, CloseSocket 0]"

definition doc_node2 :: "action list" where
  "doc_node2 =
     [OpenSocket 3, SleepFor (from_millis 1), SendTo 1 1 2 1, Receive 1, Receive 1, CloseSocket 1]"

definition doc_example :: "action list" where
  "doc_example =
     [AddNet (from_millis 20), NewId, CreateNode, NewId, CreateNode, SpawnOn 1 doc_node1, SpawnOn 2 doc_node2]"

text \<open>What a simulation leaves behind: the time it took, and the log.\<close>

definition run_from :: "duration \<Rightarrow> action list \<Rightarrow> (panic + duration \<times> nat list) option" where
  "run_from start as =
     (case run_script_simulation NoopEventHandler start as of
        None \<Rightarrow> None
      | Some (Inl p) \<Rightarrow> Some (Inl p)
      | Some (Inr (out, cx)) \<Rightarrow> Some (Inr (time_elapsed out - start, log (ext cx))))"

text \<open>
  The example returns from its root future when it has spawned its two tasks, which ends the
  simulation: neither task is ever polled, and none of the example's assertions is checked.
\<close>

lemma doc_example_ends_at_once: "run_from 0 doc_example = Some (Inr (0, []))"
  by code_simp

section \<open>Two examples\<close>

text \<open>
  \<open>examples/run.rs\<close>, and \<open>examples/time.rs\<close>, whose two clocks both read the simulated time (\<open>Interception\<close>);
  what it asserts of them is asserted of the times that are logged.
\<close>

definition run_example :: "action list" where
  "run_example = [SleepFor (from_secs 5), Log 5]"

definition time_example :: "duration \<Rightarrow> action list" where
  "time_example start =
     (let duration = from_secs 120
      in [LogTime, AssertLog [start], SleepFor duration,
        LogTime, AssertLog [start, start + duration]])"

lemma time_example_runs:
  "run_from (from_secs (3600 * 24)) (time_example (from_secs (3600 * 24))) =
    Some (Inr (from_secs 120, [from_secs 86400, from_secs 86520]))"
  by code_simp

lemma example_runs: "run_from 0 run_example = Some (Inr (from_secs 5, [5]))"
  by code_simp

section \<open>Tests\<close>

text \<open>
  \<open>tests/runtime.rs\<close>, run by the builder of \<open>SimBuilder::new_test\<close>: three runs are checked to report the
  same events. A run begins with the closure of the test, which leaves nothing of a previous run but
  the static counter.
\<close>

definition test_heap :: "nat \<Rightarrow> unit ret_cell \<Rightarrow> script_heap" where
  "test_heap counter out =
     \<lparr>channels = [], handles = [], log = [], inbox_chans = [], sockets = [], main_output = out,
      rc_count = 0, static_counter = counter\<rparr>"

definition test_closure :: "fut \<Rightarrow> nat script_sim \<Rightarrow> panic + fut \<times> nat script_sim" where
  "test_closure f cx =
     Inr (f, cx\<lparr>ext := test_heap (static_counter (ext cx)) (main_output (ext cx))\<rparr>)"

definition run_test :: "fut \<Rightarrow> (panic + duration) option" where
  "run_test f =
     (case new_test None of
        Inl p \<Rightarrow> Some (Inl p)
      | Inr b \<Rightarrow>
          andThenO
            (builder_run_all witness_env script_root (test_closure f) (\<lambda>x. script_thread\<lparr>ext := x\<rparr>) (\<lambda>_. 0)
              b (ext script_thread))
            (\<lambda>(out, x). Some (andThen (unwrap_output out) (\<lambda>_. Inr (time_elapsed out)))))"

text \<open>
  An assertion on a flag or a cell that a task sets is one on the log here. A task has its own handle by
  its number, where the code sends it through a channel or puts it into a cell before the task runs.
\<close>

definition node_task_runs :: fut where
  "node_task_runs = Script None [CreateNode, SpawnOn 1 [Log 1], SleepFor (from_millis 1), AssertLog [1]]"

definition wake_and_abort :: fut where
  "wake_and_abort = Script None [Spawn [Wake 0, Abort 0], JoinOk 0]"

definition abort_and_wake :: fut where
  "abort_and_wake = Script None [Spawn [Abort 0, Wake 0], JoinOk 0]"

definition elapsed_sim_time :: fut where
  "elapsed_sim_time = Script None [SleepFor (from_secs 1)]"

text \<open>The values of a hash map, the numbers below ten, come in some order, the same in each run.\<close>

definition id_hashmap :: "nat list \<Rightarrow> action list" where
  "id_hashmap values = replicate 10 NewId @ map (\<lambda>x. SleepFor (from_secs x)) values"

definition global_state :: fut where
  "global_state = Script None [SleepCounted]"

definition spawn_on_drop :: fut where
  "spawn_on_drop = Guarded (Script None [Forever]) [Spawn [Raise 1]]"

definition simulator_on_drop :: fut where
  "simulator_on_drop = Guarded (Script None [AddSim]) [UseSim]"

definition simulator_after_node :: fut where
  "simulator_after_node = Script None [CreateNode, AddSim]"

definition simulator_after_stop :: fut where
  "simulator_after_stop = Guarded (Script None [Forever]) [AddSim]"

text \<open>The first reference to the \<open>Rc\<close> is made by the root task.\<close>

definition kill_node :: fut where
  "kill_node =
     (let task = [SleepFor (from_millis 10), Log 1, SleepFor (from_millis 10)];
          spawn_on_new_node = (\<lambda>n. [CloneRc, CreateNode, SpawnGuarded n task [DropRc]])
      in Script None ([CloneRc] @ spawn_on_new_node 1 @ spawn_on_new_node 2 @
        [AssertRc 3, StopNode 1, AssertRc 2, SleepFor (from_millis 15), StopNode 2, AssertRc 1, AssertLog [1]]))"

definition abort_self :: fut where
  "abort_self =
     Script None [CloneRc, CloneRc, SpawnGuarded 0 [SleepFor (from_millis 1), Abort 0, Forever] [DropRc],
       SleepFor (from_millis 2), AssertRc 1]"

text \<open>The tests that return, and the time that they take.\<close>

lemma abort_tests_pass:
  "run_test wake_and_abort = Some (Inr 0)"
  "run_test abort_and_wake = Some (Inr 0)"
  "run_test abort_self = Some (Inr (from_millis 2))"
  by code_simp+

lemma time_tests_pass:
  "run_test node_task_runs = Some (Inr (from_millis 1))"
  "run_test elapsed_sim_time = Some (Inr (from_secs 1))"
  by code_simp+

lemma simulator_on_drop_passes: "run_test simulator_on_drop = Some (Inr 0)"
  by code_simp

lemma kill_node_passes: "run_test kill_node = Some (Inr (from_millis 15))"
  by code_simp

text \<open>Of this one, a run without the check.\<close>

lemma id_hashmap_runs: "run_from 0 (id_hashmap [3, 1, 4, 0, 5, 9, 2, 6, 8, 7]) = Some (Inr (from_secs 45, []))"
  by code_simp

text \<open>
  The tests that are to panic: a spawn and a new simulator are refused at the end of the simulation, a
  simulator when there are nodes, and the determinism check notices the static counter.
\<close>

lemma tests_panic:
  "run_test simulator_after_node = Some (Inl AssertFailed)"
  "run_test simulator_after_stop = Some (Inl AssertFailed)"
  "run_test spawn_on_drop = Some (Inl (NodeIsStopped INIT))"
  "run_test global_state =
    Some (Inl (ValidationFailed 2 (TimeAdvanced (from_secs 1)) (TimeAdvanced (from_secs 2))))"
  by code_simp+

end
