(* ===== verification/Fairness.thy ===== *)
theory Fairness
  imports Scripts
begin

text \<open>
  No task is starved: a task in the ready queue comes up after at most as many turns of the main loop
  as there are tasks before it.
\<close>

section \<open>One turn\<close>

text \<open>A turn that begins in this state takes the task to poll it.\<close>

definition takes :: "('h, 'q, 'f, 's, 'x, 'v) env \<Rightarrow> ('h, 'q, 'f, 's, 'x) sim \<Rightarrow> id \<Rightarrow> bool" where
  "takes e cx i \<longleftrightarrow>
     (case with_cx (next_task e) cx of Inr (Some t, _) \<Rightarrow> tk_shared t = i | _ \<Rightarrow> False)"

lemma retirable_gone: "retirable cx i \<Longrightarrow> gone cx i"
  by (auto simp: retirable_def gone_def)

lemma no_earlierD:
  assumes "no_earlier cx cx'"
  shows "gone cx i \<Longrightarrow> gone cx' i" and "final_stopped cx \<Longrightarrow> final_stopped cx'"
    and "cell cx' = cell cx"
  using assms by (auto simp: no_earlier_def)

text \<open>Where an element of a queue is, when the front of the queue is taken.\<close>

lemma queue_position:
  assumes "a @ i # b = dead @ j # q"
  obtains "i \<in> set dead" | "i = j" | a' where "q = a' @ i # b" "length a' < length a"
proof -
  have "(\<exists>us. a = dead @ us \<and> us @ i # b = j # q) \<or> (\<exists>us. a @ us = dead \<and> i # b = us @ j # q)"
    using assms by (simp add: append_eq_append_conv2) metis
  then show ?thesis
  proof
    assume "\<exists>us. a = dead @ us \<and> us @ i # b = j # q"
    then obtain us where us: "a = dead @ us" "us @ i # b = j # q" by blast
    show ?thesis
    proof (cases us)
      case Nil
      then show ?thesis using us that(2) by simp
    next
      case (Cons k us')
      then show ?thesis using us that(3) [of us'] by simp
    qed
  next
    assume "\<exists>us. a @ us = dead \<and> i # b = us @ j # q"
    then obtain us where us: "a @ us = dead" "i # b = us @ j # q" by blast
    then show ?thesis using that(1,2) by (cases us) auto
  qed
qed

context outside_code
begin

lemma turn_advances:
  assumes inv: "sim_inv contents None cx" and free: "cell cx = CellFree"
    and t: "turn e cx cx'" and q: "queue cx = Some (a @ i # b)" and go: "\<not> final_stopped cx"
  shows "takes e cx i \<or> gone cx' i \<or> (\<exists>a' b'. queue cx' = Some (a' @ i # b') \<and> length a' < length a)"
proof -
  have turn: "loop_turn e cx = Inr (True, cx')" using t by (simp add: turn_def)
  have "no_earlier cx cx'" using loop_turn_outcome [OF inv free] turn by simp
  note gone = no_earlierD(1) [OF this]
  let ?c = "cx\<lparr>cell := CellBorrowed\<rparr>"
  have ec: "exec_inv None ?c" and qc: "queue ?c = Some (a @ i # b)" using inv q by (auto simp: sim_inv_def)
  have n: "next_task e ?c = next_ready e (a @ i # b) ?c" using go q by (simp add: next_task_def)
  obtain o' c1 where x: "next_ready e (a @ i # b) ?c = Inr (o', c1)"
    using turn free n by (auto simp: loop_turn_def with_cx_def split: sum.splits)
  have w: "with_cx (next_task e) cx = Inr (o', c1\<lparr>cell := CellFree\<rparr>)"
    using x n free by (simp add: with_cx_def)
  note out = next_ready_outcome [OF ec qc, of e]
  show ?thesis
  proof (cases o')
    case None
    then have "retirable ?c i" using out x by simp
    then show ?thesis using gone retirable_gone by fastforce
  next
    case (Some u)
    let ?c1 = "c1\<lparr>cell := CellFree\<rparr>"
    have "\<exists>dead q'. a @ i # b = dead @ tk_shared u # q' \<and> queue c1 = Some q' \<and>
        (\<forall>i \<in> set dead. retirable ?c i)"
      using out unfolding x Some sum.case prod.case option.case by blast
    then obtain dead q' where d: "a @ i # b = dead @ tk_shared u # q'" "queue c1 = Some q'"
      "\<forall>i \<in> set dead. retirable ?c i" by blast
    from d(1) show ?thesis
    proof (cases rule: queue_position)
      case 1
      then show ?thesis using d(3) gone retirable_gone by fastforce
    next
      case 2
      then show ?thesis using w Some by (simp add: takes_def)
    next
      case (3 a')
      have bb: "sim_inv contents None ?c" using inv by simp
      have c1: "sim_inv contents (Some (tk_shared u)) ?c1" "tk_snd u \<noteq> None"
        using next_task_outcome [OF bb] n x Some by auto
      have "poll_task e u ?c1 = Inr ((), cx')"
        using turn w Some by (auto simp: loop_turn_def)
      then have "queue_grows ?c1 cx'" using poll_task_outcome [OF c1(1) _ c1(2)] by simp
      from queue_growsD [OF this, of q'] d(2) obtain l where "queue cx' = Some (q' @ l)" by auto
      then have "queue cx' = Some (a' @ i # (b @ l))" using 3(1) by simp
      then show ?thesis using 3(2) by blast
    qed
  qed
qed

lemma turns_advance:
  assumes "(turn e ^^ k) cx cx'" and "length a < k" and "queue cx = Some (a @ i # b)"
    and "sim_inv contents None cx" and "cell cx = CellFree" and "\<not> final_stopped cx'"
  shows "gone cx' i \<or> (\<exists>m c. m \<le> length a \<and> (turn e ^^ m) cx c \<and> takes e c i)"
  using assms
proof (induction k arbitrary: cx a b)
  case (Suc k)
  obtain c where t: "turn e cx c" and rest: "(turn e ^^ k) c cx'"
    using Suc.prems(1) by (rule relpowp_Suc_E2)
  note c = turns_inv [OF r_into_rtranclp [of "turn e", OF t] Suc.prems(4,5)]
  have free: "cell c = CellFree" using c Suc.prems(5) by (simp add: no_earlier_def)
  note later = turns_inv [OF relpowp_imp_rtranclp [OF rest] conjunct1 [OF c] free]
  have "no_earlier cx cx'" by (rule no_earlier_trans) (use c later in blast)+
  then have go: "\<not> final_stopped cx" using Suc.prems(6) no_earlierD(2) by blast
  consider "takes e cx i" | "gone c i" | a' b' where "queue c = Some (a' @ i # b')" "length a' < length a"
    using turn_advances [OF Suc.prems(4,5) t Suc.prems(3) go] by blast
  then show ?case
  proof cases
    case 1
    have "(turn e ^^ 0) cx cx" by simp
    with 1 show ?thesis by blast
  next
    case 2
    then show ?thesis using later no_earlierD(1) by blast
  next
    case (3 a' b')
    have "length a' < k" using 3(2) Suc.prems(2) by simp
    from Suc.IH [OF rest this 3(1) conjunct1 [OF c] free Suc.prems(6)]
    consider "gone cx' i" | m c' where "m \<le> length a'" "(turn e ^^ m) c c'" "takes e c' i" by blast
    then show ?thesis
    proof cases
      case (2 m c')
      have "(turn e ^^ Suc m) cx c'" using t 2(2) by (rule relpowp_Suc_I2)
      moreover have "Suc m \<le> length a" using 2(1) 3(2) by simp
      ultimately show ?thesis using 2(3) by blast
    qed blast
  qed
qed simp

end

section \<open>No task is starved\<close>

text \<open>
  C9: A task that is ready is not starved, whatever the tasks before it do: if \<open>k\<close> tasks are before
  it in the queue and the loop goes on for more than \<open>k\<close> turns without the simulation being stopped,
  then one of the first \<open>k + 1\<close> turns takes the task and polls it, or it was finished or aborted in
  the meantime.
\<close>

theorem ready_tasks_are_not_starved:
  assumes oc: "outside_code e contents" and start: "loop_start e start_time cx0"
    and before: "(turn e)\<^sup>*\<^sup>* cx0 cx" and q: "queue cx = Some (a @ i # b)"
    and turns: "(turn e ^^ Suc (length a)) cx cx'" and go: "\<not> final_stopped cx'"
  shows "gone cx' i \<or> (\<exists>m c. m \<le> length a \<and> (turn e ^^ m) cx c \<and> takes e c i)"
proof -
  note l = outside_code.loop_start_inv [OF oc start]
  note c = outside_code.turns_inv [OF oc before l(1,2)]
  have "cell cx = CellFree" using c l(2) by (simp add: no_earlier_def)
  from outside_code.turns_advance [OF oc turns _ q conjunct1 [OF c] this go] show ?thesis by simp
qed

definition goes_on :: "(('h, 'q, 'f, 's, 'x) sim \<Rightarrow> bool) \<Rightarrow> panic + bool \<times> ('h, 'q, 'f, 's, 'x) sim \<Rightarrow> bool" where
  "goes_on P r = (case r of Inl _ \<Rightarrow> False | Inr (go_on, cx) \<Rightarrow> go_on \<and> P cx)"

lemma goes_on_turn: "goes_on P (loop_turn e cx) \<longleftrightarrow> (\<exists>cx'. turn e cx cx' \<and> P cx')"
  by (auto simp: goes_on_def turn_def split: sum.splits)

theorem ready_tasks_are_not_starved_witness:
  "\<exists>cx cx' :: nat script_sim. queue cx = Some [Id 2, Id 3] \<and> (turn witness_env ^^ 2) cx cx' \<and>
     (gone cx' (Id 3) \<or> (\<exists>m c. m \<le> 1 \<and> (turn witness_env ^^ m) cx c \<and> takes witness_env c (Id 3)))"
proof -
  let ?e = "witness_env :: nat script_env"
  have "case start_script NoopEventHandler 100 [Spawn [Log 1], Spawn [Log 2], Forever] of
      Inr cx0 \<Rightarrow> goes_on (\<lambda>cx. queue cx = Some [Id 2, Id 3] \<and>
        goes_on (\<lambda>c. goes_on (\<lambda>cx'. \<not> final_stopped cx') (loop_turn ?e c)) (loop_turn ?e cx)) (loop_turn ?e cx0)
    | Inl _ \<Rightarrow> False"
    by code_simp
  then obtain cx0 cx c cx' where s: "start_script NoopEventHandler 100 [Spawn [Log 1], Spawn [Log 2], Forever] = Inr cx0"
    and t: "turn ?e cx0 cx" "turn ?e cx c" "turn ?e c cx'"
    and q: "queue cx = Some ([Id 2] @ Id 3 # [])" and go: "\<not> final_stopped cx'"
    unfolding goes_on_turn by (auto split: sum.splits)
  have two: "(turn ?e ^^ Suc (length [Id 2])) cx cx'" using t(2,3) by auto
  from ready_tasks_are_not_starved [OF script_outside_code start_script_loop_start [OF s instant_max_ge]
      r_into_rtranclp [of "turn ?e", OF t(1)] q two go] q two
  show ?thesis by (intro exI [of _ cx] exI [of _ cx']) (simp add: numeral_2_eq_2)
qed

end
