(* ===== verification/Spec2Isabelle.thy ===== *)
theory Spec2Isabelle
  imports Guarantees CallGuarantees NetGuarantees NodeGuarantees SpawnGuarantees BuilderGuarantees BoundGuarantees
    Anchors Interception Wire WireServer TowerTest NetTypes Examples Fairness
begin

text \<open>
  A model of \<open>refault\<close>, a runtime for deterministic simulations of distributed systems, and what
  makes it correct.

  \<^bold>\<open>The program.\<close> A simulation runs on a thread of its own, whose context \<open>SimCx\<close> holds an executor, the
  nodes, a scheduler of sleeps, the simulators and an event handler. \<open>SimBuilder::run\<close> installs the
  context, spawns the root future, runs the main loop and destroys the context; to check that the
  program is deterministic it does so several times and compares what the event handlers saw. The loop
  polls the tasks that are ready, in the order in which they became so, and when none is, advances the
  time to the next sleep and wakes what is due. Tasks belong to nodes, which can be stopped and
  started. Simulators, of which the network is one, are told about nodes and are reached through a
  registry that lends each of them to one caller at a time.

  \<^bold>\<open>The state.\<close> \<open>SimCx\<close> is one record, extended from theory to theory: \<open>sim_cxu\<close> (ids, current node, time),
  \<open>sim_cx\<close> (the \<open>RefCell\<close> of the context and the event handler), \<open>timer_cx\<close> (the scheduler), \<open>task_cx\<close>
  (the ready queue, and the shared states of tasks by their address) and \<open>sim\<close> (tasks, nodes,
  simulators and, in \<open>ext\<close>, what code outside of the crate keeps). An operation that can panic returns
  \<open>Inl\<close> the reason or \<open>Inr\<close> its result with the next state. The main loop may not end, so it is a
  \<open>partial_function (option)\<close>, and \<open>None\<close> is a run that does not return.

  \<^bold>\<open>Code outside of the crate\<close>, that is, futures, simulators, packets, the crates for priority queues,
  channels and hashing, the services behind remote calls, and the iteration order of hash maps, is in
  the records \<open>env\<close>, \<open>pq_ops\<close>, \<open>hasher\<close>, \<open>net_ops\<close>, \<open>per_node_ops\<close>, \<open>root_ops\<close>, \<open>tower_ops\<close> and
  \<open>service_ops\<close>. What is assumed of it is in the locales
  \<open>priority_queue\<close> (the documented laws of the queue), \<open>outside_code\<close> (a call into outside code may do
  whatever sequences of the crate's operations do, and nothing else to the crate's state; its ranges of ids
  do not wrap the id counter),
  \<open>inbox_channels\<close> (bounded channels), \<open>rpc_client\<close> (what a client's tasks call leaves its map of callers
  alone, and what its callers are sent can be observed), \<open>rpc_server\<close> (what a server calls sends nothing
  from its address and spawns none of its tasks), \<open>tower_code\<close> (what clients
  and servers call is outside code) and \<open>determinism_check\<close>. \<open>Scripts\<close> interprets them on a small
  language of programs, \<open>TowerTest\<close> on a simulation of a client and a server, \<open>Wire\<close> and \<open>WireServer\<close> on
  a network that records what is sent, and the witnesses run such programs.

  \<^bold>\<open>Theories\<close>, with the files of \<open>src/src\<close> that they model.

  \<^item> \<open>Prelude\<close>: panics, their sequencing, folds, Rust's integers and times.
  \<^item> \<open>Ids\<close> (\<open>id.rs\<close>, \<open>node_id.rs\<close>): the id counter, id ranges, node indices.
  \<^item> \<open>Events\<close> (\<open>event.rs\<close>): the five event handlers; recording and validating runs agree exactly when
    the runs do.
  \<^item> \<open>Context\<close> (\<open>lib.rs\<close>): borrows of the context and node scopes.
  \<^item> \<open>Timers\<close> (\<open>time.rs\<close>): sleeps and the scheduler, its invariant \<open>timers_inv\<close>, and the loop that wakes
    what is due. The bound of the loop is one turn more than the queue has entries, each turn takes one
    out, and it is proved never to run out.
  \<^item> \<open>Wakers\<close>, \<open>World\<close>, \<open>Executor\<close> (\<open>executor.rs\<close>): the states of a task, waking, spawning, aborting,
    retiring, awaiting, and the main loop.
  \<^item> \<open>Simulators\<close>, \<open>PerNode\<close> (\<open>simulator.rs\<close>): the registry and its locks, the notification of all
    simulators, node simulators. \<open>Nodes\<close> (\<open>node_id.rs\<close>, \<open>executor.rs\<close>): creating, stopping and starting
    nodes, the end of the simulation.
  \<^item> \<open>TaskInvariant\<close>, \<open>Kernel\<close>, \<open>Compound\<close>, \<open>MainLoop\<close>: the invariant \<open>exec_inv\<close> of the executor; the steps
    that outside code can make and what they keep; the compound operations as such steps; each turn of
    the main loop. \<open>Fairness\<close>: no ready task is starved.
  \<^item> \<open>Runner\<close> (\<open>context_install_guard.rs\<close>, \<open>sim_builder.rs\<close>), \<open>Builder\<close> (\<open>sim_builder.rs\<close>): the context's
    installation and destruction, one simulation, the runs of a determinism check; the builder, the
    root future and its output.
  \<^item> \<open>Network\<close>, \<open>Inboxes\<close> (\<open>net.rs\<close>): packets, sockets, sending, delivery; the network refines a map from
    addresses to bounded queues. A loop that empties an inbox is bounded by its capacity and one turn
    more, which is proved to be enough.
  \<^item> \<open>NetTypes\<close>: the type invariant of the inboxes, by which a socket receives packets of its type.
  \<^item> \<open>Tower\<close>, \<open>Calls\<close>, \<open>Served\<close>, \<open>Wire\<close>, \<open>WireServer\<close> (\<open>tower.rs\<close>): a client with the tasks that send and receive for it, the future
    of a call, the server and the tasks of its requests, each a state machine between its points of
    waiting; polls run turns until one waits, and are \<open>partial_function (option)\<close> since nothing bounds
    them. The conversations of a client and the runs of a server, as step relations whose steps are turns
    with whatever they result in, and an account of the requests of each against what is observed: what
    the queue, the socket and the service returned, what the callers were sent, the tasks that were
    spawned and the packets that reached the network. \<open>TowerTasks\<close>: every poll of theirs is a call of outside code to the executor.
  \<^item> \<open>SendBind\<close>, \<open>Anchors\<close> (\<open>send_bind.rs\<close>, \<open>send_bind_util.rs\<close>): values bound to a node or a simulation,
    with unwinding and aborts; processes of several threads that share such values.
  \<^item> \<open>Agnostic\<close> (\<open>agnostic_lite.rs\<close> and its modules): sleeps, timeouts and join handles.
  \<^item> \<open>Interception\<close> (\<open>interception.rs\<close>): the intercepted \<open>clock_gettime\<close> and \<open>getrandom\<close>.
  \<^item> \<open>Scripts\<close>: programs for witnesses, with destructors that make calls; \<open>Examples\<close>: examples and tests of
    the repository, run by evaluation, the tests by the builder with its determinism check;
    \<open>TowerTest\<close>: the test of clients and servers, whose futures are the tasks of \<open>Tower\<close>.
  \<^item> \<open>Guarantees\<close>, \<open>SpawnGuarantees\<close>, \<open>NodeGuarantees\<close>, \<open>NetGuarantees\<close>, \<open>BuilderGuarantees\<close>,
    \<open>BoundGuarantees\<close>: the properties that span components. \<open>CallGuarantees\<close>: what the calls of outside
    code into the executor and the scheduler can panic with.

  \<^bold>\<open>What is shown.\<close> The executor's and the scheduler's invariants hold at every
  turn of the loop, so no assertion, \<open>unwrap\<close> or \<open>unreachable!\<close> of theirs
  fires in it, and the calls of a program panic only for reasons that the program gave; finished tasks are never polled and stopped nodes run nothing; no wakeup is lost, no ready
  task is starved and time moves exactly to the next deadline; ids are unique as long as their counter
  does not wrap; simulators are told
  of nodes in order and lent to one caller at a time; the network is a map of bounded queues, each
  of one type; the requests of a client are answered once each, by the
  response with their id or an error, unless they are still open; a
  server answers each request that it received at most once, under its id and where it came from, and
  neither does anything that the runtime does not stand; the tests of the repository pass; the
  determinism checks are exact; values bound to a thread or a node are reached from there. Where the
  code does not keep to its documentation, a theorem shows it: a finished future that owns a sleep
  makes the loop panic, \<open>IdRange::get\<close> hands out ids beyond its range, the counter of
  ids wraps around in builds without overflow checks, a response for a caller that does not wait
  makes a client's task panic, and a cloned \<open>SimBound\<close> is not checked.

  \<^bold>\<open>Not modelled.\<close> The unwinding of a panic through the simulation thread, apart from the destructors of
  bound values: a panic ends the run. Tracing, \<open>Display\<close>, \<open>Hash\<close> and serialisation of values.
  Reference counts, apart from those that the code asks for. Third-party code: the generator behind
  \<open>getrandom\<close>, the default methods of the \<open>agnostic-lite\<close> crate, channels, queues and hashers are
  parameters. The examples of random numbers and of tasks that return values. A waker is the task that
  it wakes: a waker of its own that a combinator of futures makes has no counterpart. The shared state of
  a task is found by the task's id and not by an address, which is the same as long as ids do not repeat,
  so the executor is not modelled after a wrap of the id counter; \<open>Ids\<close> is. The methods that
  \<open>PacketRc::new\<close> calls on a packet return and have no effects.
\<close>

end
